(* ===== verification/Prelude.thy ===== *)
theory Prelude
  imports Main "HOL-Library.AList"
begin

text \<open>
  What every component of the development shares.

  \<^item> JavaScript strings.  A string is its list of UTF-16 code units, each a number: this is what
    \<open>length\<close>, indexing, \<open>slice\<close> and the (non-unicode) regular expressions of the source count.
    \<open>js ''abc''\<close> is the literal.
  \<^item> JavaScript \<open>Map\<close> and \<open>Set\<close>.  A \<open>Map\<close> is an association list in insertion order:
    \<open>AList.update\<close> is \<open>set\<close> (an existing key keeps its place, a new one goes last),
    \<open>AList.delete\<close> is \<open>delete\<close>, \<open>map_of\<close> is \<open>get\<close>.  A \<open>Set\<close> is a list without
    repetitions, with \<open>set_add\<close> for \<open>add\<close>.
  \<^item> Event machines.  A component with state is a step function from a state and an event; the
    locale \<open>event_machine\<close> lifts a law of one step to every run.
\<close>

section \<open>Strings as UTF-16 code units\<close>

type_synonym jchar = nat
type_synonym jstr = "jchar list"

definition js :: "string \<Rightarrow> jstr" where
  "js s = map of_char s"

lemma js_Nil [simp]: "js [] = []"
  by (simp add: js_def)

lemma js_eq_Nil [simp]: "js s = [] \<longleftrightarrow> s = []"
  by (simp add: js_def)

lemma js_Cons: "js (c # s) = of_char c # js s"
  by (simp add: js_def)

lemma js_append: "js (s @ t) = js s @ js t"
  by (simp add: js_def)

lemma length_js [simp]: "length (js s) = length s"
  by (simp add: js_def)

lemma js_inject [simp]: "js s = js t \<longleftrightarrow> s = t"
  by (simp add: js_def inj_map_eq_map inj_of_char)

abbreviation (input) c_tab :: jchar where "c_tab \<equiv> 9"
abbreviation (input) c_newline :: jchar where "c_newline \<equiv> 10"
abbreviation (input) c_space :: jchar where "c_space \<equiv> 32"
abbreviation (input) c_quote :: jchar where "c_quote \<equiv> 34"
abbreviation (input) c_star :: jchar where "c_star \<equiv> 42"
abbreviation (input) c_plus :: jchar where "c_plus \<equiv> 43"
abbreviation (input) c_minus :: jchar where "c_minus \<equiv> 45"
abbreviation (input) c_dot :: jchar where "c_dot \<equiv> 46"
abbreviation (input) c_slash :: jchar where "c_slash \<equiv> 47"
abbreviation (input) c_query :: jchar where "c_query \<equiv> 63"
abbreviation (input) c_backslash :: jchar where "c_backslash \<equiv> 92"

text \<open>The class \<open>\s\<close> of a JavaScript regular expression, which is also what \<open>trim\<close> removes.\<close>

definition ws_char :: "jchar \<Rightarrow> bool" where
  "ws_char c \<longleftrightarrow> (9 \<le> c \<and> c \<le> 13) \<or> c = 32 \<or> c = 160 \<or> c = 5760 \<or> (8192 \<le> c \<and> c \<le> 8202)
     \<or> c = 8232 \<or> c = 8233 \<or> c = 8239 \<or> c = 8287 \<or> c = 12288 \<or> c = 65279"

definition digit_char :: "jchar \<Rightarrow> bool" where
  "digit_char c \<longleftrightarrow> 48 \<le> c \<and> c \<le> 57"

definition js_trim :: "jstr \<Rightarrow> jstr" where
  "js_trim s = rev (dropWhile ws_char (rev (dropWhile ws_char s)))"

text \<open>The schema every opaque id of \<open>packages/protocol/src/identity.ts\<close> goes through.\<close>

definition opaque_id :: "jstr \<Rightarrow> bool" where
  "opaque_id i \<longleftrightarrow> i \<noteq> [] \<and> length i \<le> 200"

text \<open>\<open>String.prototype.split\<close> with a separator of one code unit: never the empty list.\<close>

fun js_split :: "jchar \<Rightarrow> jstr \<Rightarrow> jstr list" where
  "js_split d [] = [[]]"
| "js_split d (c # s) =
     (if c = d then [] # js_split d s
      else (case js_split d s of [] \<Rightarrow> [[c]] | w # ws \<Rightarrow> (c # w) # ws))"

text \<open>\<open>Array.prototype.join\<close> with a separator of one code unit.\<close>

fun js_join :: "jchar \<Rightarrow> jstr list \<Rightarrow> jstr" where
  "js_join d [] = []"
| "js_join d [w] = w"
| "js_join d (w # v # ws) = w @ d # js_join d (v # ws)"

lemma js_split_not_Nil [simp]: "js_split d s \<noteq> []"
  by (induction s) (auto split: list.splits)

lemma js_join_split [simp]: "js_join d (js_split d s) = s"
proof (induction s)
  case (Cons c s)
  obtain w ws where ws: "js_split d s = w # ws"
    by (cases "js_split d s") auto
  show ?case
    using Cons ws by (cases ws) auto
qed simp

lemma js_split_no_sep: "w \<in> set (js_split d s) \<Longrightarrow> d \<notin> set w"
  by (induction s arbitrary: w) (auto split: list.splits if_splits)

lemma js_split_plain: "d \<notin> set w \<Longrightarrow> js_split d w = [w]"
  by (induction w) auto

lemma js_split_step: "d \<notin> set w \<Longrightarrow> js_split d (w @ d # s) = w # js_split d s"
  by (induction w) auto

lemma js_split_join:
  assumes "ws \<noteq> []" and "\<forall>w \<in> set ws. d \<notin> set w"
  shows "js_split d (js_join d ws) = ws"
  using assms by (induction d ws rule: js_join.induct) (auto simp: js_split_plain js_split_step)

lemma js_trim_idem: "js_trim (js_trim s) = js_trim s"
proof -
  define t where "t = dropWhile ws_char s"
  define u where "u = rev (dropWhile ws_char (rev t))"
  obtain v where t: "t = u @ v"
    unfolding u_def
    by (metis rev_append rev_rev_ident takeWhile_dropWhile_id)
  have "dropWhile ws_char u = u"
  proof (cases u)
    case (Cons c r)
    then have "hd t = c" and "t \<noteq> []" using t by simp_all
    then have "\<not> ws_char c" using hd_dropWhile [of ws_char s] by (simp add: t_def)
    then show ?thesis using Cons by simp
  qed simp
  moreover have "dropWhile ws_char (rev u) = rev u"
    by (simp add: u_def dropWhile_idem)
  ultimately show ?thesis
    by (simp add: js_trim_def t_def [symmetric] u_def [symmetric])
qed

section \<open>Sets in insertion order\<close>

lemma foldl_keeps: "(\<And>k x. g (f k x) = g k) \<Longrightarrow> g (foldl f h xs) = g h"
  by (induction xs arbitrary: h) simp_all

definition set_add :: "'a \<Rightarrow> 'a list \<Rightarrow> 'a list" where
  "set_add x xs = (if x \<in> set xs then xs else xs @ [x])"

lemma set_set_add [simp]: "set (set_add x xs) = insert x (set xs)"
  by (auto simp: set_add_def)

lemma distinct_set_add [simp]: "distinct (set_add x xs) \<longleftrightarrow> distinct xs"
  by (auto simp: set_add_def)

lemma distinct_removeAll_intro [intro]: "distinct xs \<Longrightarrow> distinct (removeAll x xs)"
  by (rule distinct_removeAll)

section \<open>Maps in insertion order\<close>

text \<open>The keys of a \<open>Map\<close>, in order, and the invariant that no key is listed twice.\<close>

abbreviation keys_of :: "('k \<times> 'v) list \<Rightarrow> 'k list" where
  "keys_of m \<equiv> map fst m"

lemma map_of_update [simp]: "map_of (AList.update k v m) = (map_of m)(k \<mapsto> v)"
  by (rule update_conv')

lemma map_of_delete [simp]: "map_of (AList.delete k m) = (map_of m)(k := None)"
  by (rule delete_conv')

lemma set_keys_update [simp]: "fst ` set (AList.update k v m) = insert k (fst ` set m)"
  using dom_update [of k v m] by (simp add: dom_map_of_conv_image_fst [symmetric])

lemma keys_update_fresh:
  "k \<notin> fst ` set m \<Longrightarrow> AList.update k v m = m @ [(k, v)]"
  by (induction m) auto

text \<open>Taking one entry out of a map, and what is left to add up.\<close>

definition sum_values :: "('v \<Rightarrow> nat) \<Rightarrow> ('k \<times> 'v) list \<Rightarrow> nat" where
  "sum_values f m = sum_list (map (\<lambda>(k, v). f v) m)"

lemma sum_values_Nil [simp]: "sum_values f [] = 0"
  by (simp add: sum_values_def)

lemma sum_values_Cons [simp]: "sum_values f ((k, v) # m) = f v + sum_values f m"
  by (simp add: sum_values_def)

lemma sum_values_length: "sum_values (\<lambda>v. 1) m = length m"
  by (induction m) auto

lemma delete_fresh: "k \<notin> fst ` set m \<Longrightarrow> AList.delete k m = m"
  by (induction m) auto

lemma sum_values_delete:
  "map_of m k = Some v \<Longrightarrow> distinct (keys_of m) \<Longrightarrow> sum_values f m = f v + sum_values f (AList.delete k m)"
  by (induction m) (auto simp: delete_fresh)

lemma length_delete:
  "map_of m k = Some v \<Longrightarrow> distinct (keys_of m) \<Longrightarrow> length m = Suc (length (AList.delete k m))"
  using sum_values_delete [of m k v "\<lambda>v. 1"] by (simp add: sum_values_length [symmetric])

lemma sum_values_map_le:
  assumes "\<And>v. f (g v) \<le> f v"
  shows "sum_values f (map (\<lambda>(k, v). (k, g v)) m) \<le> sum_values f m"
  by (induction m) (use assms in \<open>auto intro!: add_le_mono\<close>)

lemma sum_values_map_eq:
  "(\<And>v. f (g v) = f v) \<Longrightarrow> sum_values f (map (\<lambda>(k, v). (k, g v)) m) = sum_values f m"
  by (induction m) auto

lemma keys_of_map_snd [simp]: "map (fst \<circ> (\<lambda>(k, v). (k, g v))) m = map fst m"
  by (induction m) auto

lemma set_delete_subset: "set (AList.delete k m) \<subseteq> set m"
  by (auto simp: AList.delete_eq)

lemma keys_delete: "fst ` set (AList.delete k m) = fst ` set m - {k}"
  by (auto simp: AList.delete_eq image_iff)

lemma delete_not_key [simp]: "k \<notin> fst ` set (AList.delete k m)"
  by (auto simp: AList.delete_eq)

lemma distinct_delete_keys [intro]: "distinct (keys_of m) \<Longrightarrow> distinct (keys_of (AList.delete k m))"
  by (rule distinct_delete)

lemma find_append: "find P (xs @ ys) = (case find P xs of None \<Rightarrow> find P ys | Some x \<Rightarrow> Some x)"
  by (induction xs) auto

lemma find_Some_in: "find P xs = Some x \<Longrightarrow> x \<in> set xs \<and> P x"
  by (induction xs) (auto split: if_splits)

section \<open>Event machines\<close>

text \<open>A run applies the step function to a list of events, oldest first.\<close>

definition run :: "('s \<Rightarrow> 'e \<Rightarrow> 's) \<Rightarrow> 's \<Rightarrow> 'e list \<Rightarrow> 's" where
  "run step s es = foldl step s es"

lemma run_Nil [simp]: "run step s [] = s"
  by (simp add: run_def)

lemma run_Cons [simp]: "run step s (e # es) = run step (step s e) es"
  by (simp add: run_def)

lemma run_append: "run step s (es @ fs) = run step (run step s es) fs"
  by (simp add: run_def)

locale event_machine =
  fixes step :: "'s \<Rightarrow> 'e \<Rightarrow> 's"
    and inv :: "'s \<Rightarrow> bool"
  assumes step_inv: "inv s \<Longrightarrow> inv (step s e)"
begin

lemma run_inv: "inv s \<Longrightarrow> inv (run step s es)"
  by (induction es arbitrary: s) (auto intro: step_inv)

text \<open>A law of one step of an invariant state that is reflexive and transitive holds of runs.\<close>

lemma run_rel:
  assumes one: "\<And>s e. inv s \<Longrightarrow> R s (step s e)"
    and refl: "\<And>s. R s s"
    and trans: "\<And>s t u. R s t \<Longrightarrow> R t u \<Longrightarrow> R s u"
    and "inv s"
  shows "R s (run step s es)"
  using \<open>inv s\<close>
proof (induction es arbitrary: s)
  case Nil
  show ?case by (simp add: refl)
next
  case (Cons e es)
  have "R s (step s e)" by (rule one [OF Cons.prems])
  moreover have "R (step s e) (run step (step s e) es)"
    by (rule Cons.IH [OF step_inv [OF Cons.prems]])
  ultimately show ?case by (auto intro: trans)
qed

end

text \<open>A machine whose lookups, once they answer, answer the same for ever.\<close>

locale write_once = event_machine step inv
  for step :: "'s \<Rightarrow> 'e \<Rightarrow> 's" and inv :: "'s \<Rightarrow> bool" +
  fixes lookup :: "'s \<Rightarrow> 'k \<Rightarrow> 'v option"
  assumes lookup_step: "inv s \<Longrightarrow> lookup s k = Some v \<Longrightarrow> lookup (step s e) k = Some v"
begin

lemma lookup_run: "inv s \<Longrightarrow> lookup s k = Some v \<Longrightarrow> lookup (run step s es) k = Some v"
  by (induction es arbitrary: s) (auto intro: step_inv lookup_step)

lemma lookup_runs:
  "inv s \<Longrightarrow> lookup (run step s es) k = Some v \<Longrightarrow> lookup (run step s (es @ fs)) k = Some v"
  by (simp add: run_append lookup_run run_inv)

end

end
