(* ===== verification/Json.thy ===== *)
theory Json
  imports Prelude
begin

text \<open>
  JSON values as the source handles them, and the parts of the language's \<open>JSON\<close> object it uses.

  A number is represented by the spelling \<open>JSON.stringify\<close> gives it: that spelling is all the
  modelled code ever observes of a number.  An object is the list of its own properties in the
  order the language enumerates them (array indices ascending, then the others as they were made).
\<close>

datatype json =
    JNull
  | JBool bool
  | JNum jstr
  | JStr jstr
  | JArr "json list"
  | JObj "(jstr \<times> json) list"

section \<open>String literals\<close>

definition high_surrogate :: "jchar \<Rightarrow> bool" where
  "high_surrogate c \<longleftrightarrow> 55296 \<le> c \<and> c \<le> 56319"

definition low_surrogate :: "jchar \<Rightarrow> bool" where
  "low_surrogate c \<longleftrightarrow> 56320 \<le> c \<and> c \<le> 57343"

definition hex_digit :: "nat \<Rightarrow> jchar" where
  "hex_digit n = (if n < 10 then 48 + n else 87 + n)"

definition hex_value :: "jchar \<Rightarrow> nat option" where
  "hex_value c =
     (if 48 \<le> c \<and> c \<le> 57 then Some (c - 48)
      else if 97 \<le> c \<and> c \<le> 102 then Some (c - 87)
      else if 65 \<le> c \<and> c \<le> 70 then Some (c - 55)
      else None)"

definition hex4 :: "jchar \<Rightarrow> jstr" where
  "hex4 c = [92, 117, hex_digit (c div 4096), hex_digit (c div 256 mod 16),
             hex_digit (c div 16 mod 16), hex_digit (c mod 16)]"

text \<open>What \<open>JSON.stringify\<close> writes between the quotes: a lone surrogate is escaped, a pair is not.\<close>

definition short_escape :: "jchar \<Rightarrow> jchar option" where
  "short_escape c =
     (if c = 34 \<or> c = 92 then Some c
      else if c = 8 then Some 98 else if c = 12 then Some 102 else if c = 10 then Some 110
      else if c = 13 then Some 114 else if c = 9 then Some 116 else None)"

fun json_escape :: "jstr \<Rightarrow> jstr" where
  "json_escape [] = []"
| "json_escape (c # s) =
     (case short_escape c of
        Some e \<Rightarrow> 92 # e # json_escape s
      | None \<Rightarrow>
          if c < 32 \<or> low_surrogate c then hex4 c @ json_escape s
          else if high_surrogate c
          then (case s of
                  [] \<Rightarrow> hex4 c
                | d # r \<Rightarrow>
                    if low_surrogate d then c # d # json_escape r else hex4 c @ json_escape s)
          else c # json_escape s)"

definition json_quote :: "jstr \<Rightarrow> jstr" where
  "json_quote s = 34 # json_escape s @ [34]"

text \<open>The characters a two-character escape stands for.\<close>

definition simple_escape :: "jchar \<Rightarrow> jchar option" where
  "simple_escape e =
     (if e = 34 \<or> e = 92 \<or> e = 47 then Some e
      else if e = 98 then Some 8 else if e = 102 then Some 12 else if e = 110 then Some 10
      else if e = 114 then Some 13 else if e = 116 then Some 9 else None)"

definition hex_unit :: "jchar \<Rightarrow> jchar \<Rightarrow> jchar \<Rightarrow> jchar \<Rightarrow> jchar option" where
  "hex_unit a b c d =
     (case (hex_value a, hex_value b, hex_value c, hex_value d) of
        (Some w, Some x, Some y, Some z) \<Rightarrow> Some (4096 * w + 256 * x + 16 * y + z)
      | _ \<Rightarrow> None)"

text \<open>What \<open>JSON.parse\<close> reads out of the text between two quotes.\<close>

fun json_unescape :: "jstr \<Rightarrow> jstr option" where
  "json_unescape [] = Some []"
| "json_unescape (c # s) =
     (if c < 32 \<or> c = 34 then None
      else if c = 92
      then (case s of
              [] \<Rightarrow> None
            | e # r \<Rightarrow>
                if e = 117
                then (case r of
                        h1 # h2 # h3 # h4 # r' \<Rightarrow>
                          (case (hex_unit h1 h2 h3 h4, json_unescape r') of
                             (Some u, Some t) \<Rightarrow> Some (u # t)
                           | _ \<Rightarrow> None)
                      | _ \<Rightarrow> None)
                else (case (simple_escape e, json_unescape r) of
                        (Some u, Some t) \<Rightarrow> Some (u # t)
                      | _ \<Rightarrow> None))
      else map_option (Cons c) (json_unescape s))"

text \<open>\<open>JSON.parse\<close> of a text that starts and ends with a quote, when a string is wanted.\<close>

definition json_parse_string :: "jstr \<Rightarrow> jstr option" where
  "json_parse_string t =
     (if 2 \<le> length t \<and> hd t = 34 \<and> last t = 34 then json_unescape (butlast (tl t)) else None)"

lemma hex_value_digit: "n < 16 \<Longrightarrow> hex_value (hex_digit n) = Some n"
  by (auto simp: hex_value_def hex_digit_def)

lemma hex_unit_digits:
  assumes "c < 65536"
  shows "hex_unit (hex_digit (c div 4096)) (hex_digit (c div 256 mod 16))
           (hex_digit (c div 16 mod 16)) (hex_digit (c mod 16)) = Some c"
proof -
  have "c div 4096 < 16" using assms by (simp add: less_mult_imp_div_less)
  moreover have "4096 * (c div 4096) + 256 * (c div 256 mod 16) + 16 * (c div 16 mod 16)
      + c mod 16 = c"
  proof -
    have "c = 16 * (c div 16) + c mod 16"
      and "c div 16 = 16 * (c div 256) + c div 16 mod 16"
      and "c div 256 = 16 * (c div 4096) + c div 256 mod 16"
      using mult_div_mod_eq [of 16 c] mult_div_mod_eq [of 16 "c div 16"]
        mult_div_mod_eq [of 16 "c div 256"]
      by (simp_all add: div_mult2_eq [symmetric])
    then show ?thesis by linarith
  qed
  ultimately show ?thesis
    by (simp add: hex_unit_def hex_value_digit)
qed

lemma json_unescape_hex4:
  "c < 65536 \<Longrightarrow> json_unescape (hex4 c @ s) = map_option (Cons c) (json_unescape s)"
  by (cases "json_unescape s") (simp_all add: hex4_def hex_unit_digits)

lemma json_unescape_hex4_end:
  "c < 65536 \<Longrightarrow> json_unescape (hex4 c) = Some [c]"
  using json_unescape_hex4 [of c "[]"] by simp

text \<open>Reading back what was written gives the string, for every string of code units.\<close>

lemma json_unescape_short:
  assumes "short_escape c = Some e"
  shows "json_unescape (92 # e # r) = map_option (Cons c) (json_unescape r)"
proof -
  have "simple_escape e = Some c \<and> e \<noteq> 117"
    using assms by (auto simp: short_escape_def simple_escape_def split: if_splits)
  then show ?thesis by (simp split: option.split)
qed

lemma json_unescape_plain:
  "\<not> c < 32 \<Longrightarrow> short_escape c = None \<Longrightarrow>
     json_unescape (c # s) = map_option (Cons c) (json_unescape s)"
  by (simp add: short_escape_def split: if_splits)

lemma json_escape_cases:
  obtains (short) e where "json_escape (c # r) = 92 # e # json_escape r" "short_escape c = Some e"
    | (hex) "json_escape (c # r) = hex4 c @ json_escape r" "c < 65536"
    | (pair) d q where "r = d # q" "json_escape (c # r) = c # d # json_escape q"
        "high_surrogate c" "low_surrogate d"
    | (plain) "json_escape (c # r) = c # json_escape r" "\<not> c < 32" "short_escape c = None"
proof (cases "short_escape c")
  case (Some e)
  then show ?thesis by (intro short) simp_all
next
  case None
  have small: "c < 32 \<or> low_surrogate c \<or> high_surrogate c \<Longrightarrow> c < 65536"
    by (auto simp: low_surrogate_def high_surrogate_def)
  show ?thesis
  proof (cases "c < 32 \<or> low_surrogate c \<or> \<not> high_surrogate c")
    case True
    then show ?thesis
      using None small hex plain by (cases "c < 32 \<or> low_surrogate c") auto
  next
    case False
    then have c: "c < 65536" "\<not> c < 32" "\<not> low_surrogate c" "high_surrogate c"
      using small by blast+
    show ?thesis
    proof (cases r)
      case Nil
      then show ?thesis using None c by (intro hex) simp_all
    next
      case (Cons d q)
      show ?thesis
      proof (cases "low_surrogate d")
        case True
        then show ?thesis using None c Cons by (intro pair [of d q]) simp_all
      next
        case False
        have "json_escape (c # d # q) = hex4 c @ json_escape (d # q)"
          using None c False by (subst json_escape.simps(2)) simp
        then show ?thesis using Cons c by (intro hex) simp_all
      qed
    qed
  qed
qed

text \<open>Reading back what was written gives the string, for every list of code units.\<close>

lemma json_unescape_escape: "json_unescape (json_escape s) = Some s"
proof (induction s rule: length_induct)
  case (1 s)
  show ?case
  proof (cases s)
    case (Cons c r)
    have IH: "json_unescape (json_escape r) = Some r"
      using 1 Cons by simp
    show ?thesis
    proof (cases rule: json_escape_cases [of c r])
      case short
      then show ?thesis using IH Cons by (simp only: json_unescape_short) simp
    next
      case hex
      then show ?thesis using IH Cons by (simp only: json_unescape_hex4) simp
    next
      case (pair d q)
      moreover have "json_unescape (json_escape q) = Some q"
        using 1 Cons pair(1) by simp
      moreover have "\<not> c < 32 \<and> short_escape c = None \<and> \<not> d < 32 \<and> short_escape d = None"
        using pair by (auto simp: low_surrogate_def high_surrogate_def short_escape_def)
      ultimately show ?thesis
        using Cons by (simp del: json_unescape.simps json_escape.simps add: json_unescape_plain)
    next
      case plain
      then show ?thesis
        using IH Cons by (simp del: json_unescape.simps json_escape.simps add: json_unescape_plain)
    qed
  qed simp
qed

lemma json_parse_quote: "json_parse_string (json_quote s) = Some s"
  by (simp add: json_parse_string_def json_quote_def butlast_append json_unescape_escape)

section \<open>Values\<close>

fun json_text :: "json \<Rightarrow> jstr" where
  "json_text JNull = js ''null''"
| "json_text (JBool b) = (if b then js ''true'' else js ''false'')"
| "json_text (JNum n) = n"
| "json_text (JStr s) = json_quote s"
| "json_text (JArr vs) = 91 # js_join 44 (map json_text vs) @ [93]"
| "json_text (JObj ps) =
     123 # js_join 44 (map (\<lambda>(k, v). json_quote k @ 58 # json_text v) ps) @ [125]"

section \<open>Assigning a property\<close>

text \<open>
  \<open>o[k] = v\<close> on a plain object.  A key that spells an array index is enumerated before every other,
  in numeric order.  Assigning to \<open>__proto__\<close> goes to the accessor every plain object inherits: it
  changes the object's prototype and makes no own property.
\<close>

fun digits_value :: "nat \<Rightarrow> jstr \<Rightarrow> nat" where
  "digits_value n [] = n"
| "digits_value n (c # s) = digits_value (10 * n + (c - 48)) s"

definition array_index :: "jstr \<Rightarrow> nat option" where
  "array_index k =
     (if k \<noteq> [] \<and> (\<forall>c \<in> set k. digit_char c) \<and> (hd k \<noteq> 48 \<or> length k = 1)
         \<and> digits_value 0 k < 4294967295
      then Some (digits_value 0 k) else None)"

fun insert_index :: "nat \<Rightarrow> jstr \<times> 'v \<Rightarrow> (jstr \<times> 'v) list \<Rightarrow> (jstr \<times> 'v) list" where
  "insert_index n p [] = [p]"
| "insert_index n p (q # qs) =
     (case array_index (fst q) of
        Some m \<Rightarrow> if m < n then q # insert_index n p qs else p # q # qs
      | None \<Rightarrow> p # q # qs)"

definition obj_assign :: "jstr \<Rightarrow> 'v \<Rightarrow> (jstr \<times> 'v) list \<Rightarrow> (jstr \<times> 'v) list" where
  "obj_assign k v ps =
     (if k = js ''__proto__'' then ps
      else if k \<in> fst ` set ps then AList.update k v ps
      else (case array_index k of
              Some n \<Rightarrow> insert_index n (k, v) ps
            | None \<Rightarrow> ps @ [(k, v)]))"

lemma map_of_insert_index:
  "fst p \<notin> fst ` set ps \<Longrightarrow> map_of (insert_index n p ps) = (map_of ps)(fst p \<mapsto> snd p)"
  by (induction ps) (auto simp: fun_eq_iff split: option.splits)

lemma map_of_obj_assign:
  "map_of (obj_assign k v ps)
     = (if k = js ''__proto__'' then map_of ps else (map_of ps)(k \<mapsto> v))"
proof -
  have "map_of ps k = None" if "k \<notin> fst ` set ps"
    using that by (simp add: map_of_eq_None_iff)
  then show ?thesis
    by (auto simp: obj_assign_def map_of_insert_index map_add_def fun_eq_iff split: option.splits)
qed

lemma distinct_insert_index:
  "distinct (map fst ps) \<Longrightarrow> fst p \<notin> fst ` set ps \<Longrightarrow> distinct (map fst (insert_index n p ps))
     \<and> set (insert_index n p ps) = insert p (set ps)"
  by (induction ps) (auto split: option.splits)

lemma distinct_obj_assign: "distinct (map fst ps) \<Longrightarrow> distinct (map fst (obj_assign k v ps))"
  using distinct_insert_index [of ps "(k, v)"]
  by (auto simp: obj_assign_def distinct_update split: option.split)

lemma set_insert_index: "set (insert_index n p ps) = insert p (set ps)"
  by (induction ps) (auto split: option.splits)

lemma set_obj_assign: "set (obj_assign k v ps) \<subseteq> insert (k, v) (set ps)"
proof -
  have "set (AList.update k v ps) \<subseteq> insert (k, v) (set ps)" by (induction ps) auto
  then show ?thesis by (auto simp: obj_assign_def set_insert_index split: option.split)
qed

lemma obj_assign_proto [simp]: "obj_assign (js ''__proto__'') v ps = ps"
  by (simp add: obj_assign_def)

end
