(* ===== verification/Glob.thy ===== *)
theory Glob
  imports Prelude
begin

text \<open>
  The glob half of \<open>packages/protocol/src/route-condition.ts\<close>: \<open>matchSegment\<close>, \<open>matchGlob\<close>,
  \<open>collapseGlob\<close> and \<open>wildcardOverCap\<close>.

  Both matchers are the same two-pointer loop with one remembered star, once over the characters of
  a path segment and once over the segments of a path.  \<open>glob_loop\<close> is that loop: its two list
  arguments are what is left of the pattern and of the subject (\<open>p\<close> and \<open>s\<close> in the code are where
  these suffixes start), and its last argument is the remembered star, \<open>None\<close> for the code's
  \<open>starAt = -1\<close>: the pattern after the star, and the subject from \<open>starClaims\<close> on.
  \<open>glob_spec\<close> is what a glob means; \<open>glob_loop_correct\<close> says the loop decides it.
\<close>

section \<open>The two-pointer loop\<close>

lemma pred_less_iff: "n - Suc 0 < n \<longleftrightarrow> 0 < n"
  by auto

function glob_loop ::
    "('p \<Rightarrow> bool) \<Rightarrow> ('p \<Rightarrow> 's \<Rightarrow> bool) \<Rightarrow> 'p list \<Rightarrow> 's list \<Rightarrow> ('p list \<times> 's list) option \<Rightarrow> bool" where
  "glob_loop star fits ps [] mark = (dropWhile star ps = [])"
| "glob_loop star fits [] (x # xs) mark =
     (case mark of
        None \<Rightarrow> False
      | Some (rs, cl) \<Rightarrow> glob_loop star fits rs (tl cl) (Some (rs, tl cl)))"
| "glob_loop star fits (q # qs) (x # xs) mark =
     (if star q then glob_loop star fits qs (x # xs) (Some (qs, x # xs))
      else if fits q x then glob_loop star fits qs xs mark
      else (case mark of
              None \<Rightarrow> False
            | Some (rs, cl) \<Rightarrow> glob_loop star fits rs (tl cl) (Some (rs, tl cl))))"
  by pat_completeness auto

text \<open>
  Every step consumes pattern, gives the last star one more element, or consumes subject: the
  measure is the longest pattern still to be tried, then what the star may still claim, then what
  is left of the subject.
\<close>

termination
  by (relation "measures
        [\<lambda>(star, fits, ps, ss, mark). max (length ps) (case mark of None \<Rightarrow> 0 | Some (rs, cl) \<Rightarrow> length rs),
         \<lambda>(star, fits, ps, ss, mark). (case mark of None \<Rightarrow> 0 | Some (rs, cl) \<Rightarrow> length cl),
         \<lambda>(star, fits, ps, ss, mark). length ss]")
     (auto simp: less_Suc_eq_le pred_less_iff split: option.splits)

declare glob_loop.simps [simp del]

text \<open>What a pattern means: a star stands for any run of elements, anything else for one it fits.\<close>

fun glob_spec :: "('p \<Rightarrow> bool) \<Rightarrow> ('p \<Rightarrow> 's \<Rightarrow> bool) \<Rightarrow> 'p list \<Rightarrow> 's list \<Rightarrow> bool" where
  "glob_spec star fits [] ss = (ss = [])"
| "glob_spec star fits (q # qs) ss =
     (if star q then (\<exists>k \<le> length ss. glob_spec star fits qs (drop k ss))
      else (case ss of [] \<Rightarrow> False | x # xs \<Rightarrow> fits q x \<and> glob_spec star fits qs xs))"

lemma glob_spec_Nil: "glob_spec star fits ps [] \<longleftrightarrow> list_all star ps"
  by (induction ps) auto

lemma glob_spec_plain_prefix:
  assumes "list_all (\<lambda>q. \<not> star q) fs"
  shows "glob_spec star fits (fs @ ps) ss \<longleftrightarrow>
     length fs \<le> length ss \<and> list_all2 fits fs (take (length fs) ss)
       \<and> glob_spec star fits ps (drop (length fs) ss)"
  using assms
proof (induction fs arbitrary: ss)
  case (Cons q fs)
  then show ?case by (cases ss) auto
qed simp

lemma dropWhile_Nil_list_all: "dropWhile P xs = [] \<longleftrightarrow> list_all P xs"
  by (simp add: list_all_iff)

text \<open>What the loop relies on: since the star, a star-free stretch has been matched.\<close>

definition mark_ok ::
    "('p \<Rightarrow> bool) \<Rightarrow> ('p \<Rightarrow> 's \<Rightarrow> bool) \<Rightarrow> 'p list \<Rightarrow> 's list \<Rightarrow> ('p list \<times> 's list) option \<Rightarrow> bool" where
  "mark_ok star fits ps ss mark \<longleftrightarrow>
     (case mark of
        None \<Rightarrow> True
      | Some (rs, cl) \<Rightarrow> (\<exists>fs ms. rs = fs @ ps \<and> cl = ms @ ss \<and> list_all (\<lambda>q. \<not> star q) fs
                            \<and> list_all2 fits fs ms))"

definition later_claim ::
    "('p \<Rightarrow> bool) \<Rightarrow> ('p \<Rightarrow> 's \<Rightarrow> bool) \<Rightarrow> ('p list \<times> 's list) option \<Rightarrow> bool" where
  "later_claim star fits mark \<longleftrightarrow>
     (case mark of
        None \<Rightarrow> False
      | Some (rs, cl) \<Rightarrow> (\<exists>k. 1 \<le> k \<and> k \<le> length cl \<and> glob_spec star fits rs (drop k cl)))"

lemma later_claim_tl:
  assumes "cl \<noteq> []"
  shows "later_claim star fits (Some (rs, cl)) \<longleftrightarrow>
     glob_spec star fits rs (tl cl) \<or> later_claim star fits (Some (rs, tl cl))"
proof -
  obtain c cs where cl: "cl = c # cs" using assms by (cases cl) auto
  have "(\<exists>k. 1 \<le> k \<and> k \<le> length cl \<and> glob_spec star fits rs (drop k cl))
      \<longleftrightarrow> (\<exists>j. j \<le> length cs \<and> glob_spec star fits rs (drop j cs))"
    unfolding cl by (metis One_nat_def Suc_le_mono Suc_pred drop_Suc_Cons less_eq_Suc_le length_Cons
        le_add1 plus_1_eq_Suc)
  also have "\<dots> \<longleftrightarrow> glob_spec star fits rs cs \<or>
      (\<exists>k. 1 \<le> k \<and> k \<le> length cs \<and> glob_spec star fits rs (drop k cs))"
    by (metis One_nat_def drop0 less_eq_Suc_le neq0_conv zero_le)
  finally show ?thesis by (simp add: later_claim_def cl)
qed

lemma later_claim_needs_star:
  assumes "mark_ok star fits ps ss (Some (rs, cl))"
    and "later_claim star fits (Some (rs, cl))"
  shows "\<exists>k \<le> length ss. 1 \<le> k \<and> glob_spec star fits ps (drop k ss)"
proof -
  obtain fs ms where rs: "rs = fs @ ps" and cl: "cl = ms @ ss"
    and plain: "list_all (\<lambda>q. \<not> star q) fs" and fit: "list_all2 fits fs ms"
    using assms(1) by (auto simp: mark_ok_def)
  obtain k where k: "1 \<le> k" "k \<le> length cl" "glob_spec star fits rs (drop k cl)"
    using assms(2) by (auto simp: later_claim_def)
  have len: "length fs = length ms" using fit by (rule list_all2_lengthD)
  have "length fs \<le> length cl - k" and "glob_spec star fits ps (drop (length fs) (drop k cl))"
    using k(3) plain by (auto simp: rs glob_spec_plain_prefix)
  moreover have "drop (length fs) (drop k cl) = drop k ss"
  proof -
    have "length ms \<le> length cl - k" using \<open>length fs \<le> length cl - k\<close> len by simp
    then have "k \<le> length ss" using k(2) by (simp add: cl)
    then show ?thesis by (cases "k \<le> length ms") (simp_all add: cl len drop_drop)
  qed
  ultimately show ?thesis using k(1,2) len by (intro exI [of _ k]) (auto simp: cl)
qed

lemma glob_loop_inv:
  "mark_ok star fits ps ss mark \<Longrightarrow>
     glob_loop star fits ps ss mark \<longleftrightarrow> glob_spec star fits ps ss \<or> later_claim star fits mark"
proof (induction star fits ps ss mark rule: glob_loop.induct)
  case (1 star fits ps mark)
  have "\<not> later_claim star fits mark"
  proof (cases mark)
    case (Some b)
    then show ?thesis
      using "1.prems" later_claim_needs_star [of star fits ps "[]" "fst b" "snd b"] by fastforce
  qed (simp add: later_claim_def)
  then show ?case
    by (simp add: glob_loop.simps glob_spec_Nil list_all_iff)
next
  case (2 star fits x xs mark)
  show ?case
  proof (cases mark)
    case None
    then show ?thesis by (simp add: glob_loop.simps later_claim_def)
  next
    case (Some b)
    obtain rs cl where b: "b = (rs, cl)" by (cases b)
    have "cl \<noteq> []" using "2.prems" by (auto simp: Some b mark_ok_def)
    moreover have "mark_ok star fits rs (tl cl) (Some (rs, tl cl))" by (simp add: mark_ok_def)
    ultimately show ?thesis
      using "2.IH" [OF Some b [symmetric]] by (simp add: Some b glob_loop.simps later_claim_tl)
  qed
next
  case (3 star fits q qs x xs mark)
  consider (star) "star q" | (fits) "\<not> star q" "fits q x" | (miss) "\<not> star q" "\<not> fits q x"
    by blast
  then show ?case
  proof cases
    case star
    have ok: "mark_ok star fits qs (x # xs) (Some (qs, x # xs))" by (simp add: mark_ok_def)
    have here: "glob_spec star fits (q # qs) (x # xs) \<longleftrightarrow>
        glob_spec star fits qs (x # xs) \<or> later_claim star fits (Some (qs, x # xs))"
      using star by (auto simp: later_claim_def) (metis One_nat_def drop0 less_eq_Suc_le neq0_conv)
    have "later_claim star fits mark \<Longrightarrow> glob_spec star fits (q # qs) (x # xs)"
    proof -
      assume later: "later_claim star fits mark"
      then obtain rs cl where mark: "mark = Some (rs, cl)"
        by (auto simp: later_claim_def split: option.splits)
      obtain k where "k \<le> length (x # xs)" "glob_spec star fits (q # qs) (drop k (x # xs))"
        using later_claim_needs_star [of star fits "q # qs" "x # xs" rs cl] "3.prems" later
        by (auto simp: mark)
      then obtain j where "j \<le> length (drop k (x # xs))"
        "glob_spec star fits qs (drop j (drop k (x # xs)))"
        using star by auto
      then show ?thesis
        using star \<open>k \<le> length (x # xs)\<close>
        by (auto simp: drop_drop intro!: exI [of _ "j + k"])
    qed
    then show ?thesis
      using "3.IH"(1) [OF star ok] here star by (auto simp: glob_loop.simps)
  next
    case fits
    have "mark_ok star fits qs xs mark"
    proof (cases mark)
      case (Some b)
      obtain rs cl where b: "b = (rs, cl)" by (cases b)
      obtain fs ms where "rs = fs @ q # qs" "cl = ms @ x # xs" "list_all (\<lambda>q. \<not> star q) fs"
        "list_all2 fits fs ms"
        using "3.prems" by (auto simp: Some b mark_ok_def)
      then show ?thesis
        using fits unfolding Some b mark_ok_def
        by (auto intro!: exI [of _ "fs @ [q]"] exI [of _ "ms @ [x]"] simp: list_all2_appendI)
    qed (simp add: mark_ok_def)
    then show ?thesis
      using "3.IH"(2) [OF fits] fits by (simp add: glob_loop.simps)
  next
    case miss
    show ?thesis
    proof (cases mark)
      case None
      then show ?thesis using miss by (simp add: glob_loop.simps later_claim_def)
    next
      case (Some b)
      obtain rs cl where b: "b = (rs, cl)" by (cases b)
      have "cl \<noteq> []" using "3.prems" by (auto simp: Some b mark_ok_def)
      moreover have "mark_ok star fits rs (tl cl) (Some (rs, tl cl))" by (simp add: mark_ok_def)
      ultimately show ?thesis
        using "3.IH"(3) [OF miss Some b [symmetric]] miss
        by (simp add: Some b glob_loop.simps later_claim_tl)
    qed
  qed
qed

lemma glob_loop_correct: "glob_loop star fits ps ss None = glob_spec star fits ps ss"
  using glob_loop_inv [of star fits ps ss None] by (simp add: mark_ok_def later_claim_def)

section \<open>Segments and paths\<close>

text \<open>One path segment: \<open>*\<close> is any run of characters, \<open>?\<close> is one, everything else is itself.\<close>

definition star_char :: "jchar \<Rightarrow> bool" where
  "star_char c \<longleftrightarrow> c = c_star"

definition fits_char :: "jchar \<Rightarrow> jchar \<Rightarrow> bool" where
  "fits_char c x \<longleftrightarrow> c = c_query \<or> c = x"

definition match_segment :: "jstr \<Rightarrow> jstr \<Rightarrow> bool" where
  "match_segment pattern segment = glob_loop star_char fits_char pattern segment None"

text \<open>\<open>/^\*{2,}$/\<close>: a segment of nothing but stars stands for any number of directories.\<close>

definition star_segment :: "jstr \<Rightarrow> bool" where
  "star_segment w \<longleftrightarrow> 2 \<le> length w \<and> list_all star_char w"

definition match_glob :: "jstr \<Rightarrow> jstr \<Rightarrow> bool" where
  "match_glob glob path =
     glob_loop star_segment match_segment (js_split c_slash glob) (js_split c_slash path) None"

text \<open>\<open>segment.replace(/\*{2,}/g, '*')\<close>.\<close>

fun collapse_stars :: "jstr \<Rightarrow> jstr" where
  "collapse_stars [] = []"
| "collapse_stars (c # s) =
     (if star_char c \<and> (case s of [] \<Rightarrow> False | d # r \<Rightarrow> star_char d) then collapse_stars s
      else c # collapse_stars s)"

definition collapse_segment :: "jstr \<Rightarrow> jstr" where
  "collapse_segment w = (if star_segment w then [c_star, c_star] else collapse_stars w)"

text \<open>\<open>collapsed === '**' && segments.at(-1) === '**'\<close>.\<close>

definition doubled :: "jstr list \<Rightarrow> jstr \<Rightarrow> bool" where
  "doubled acc c \<longleftrightarrow> c = [c_star, c_star] \<and> acc \<noteq> [] \<and> last acc = [c_star, c_star]"

fun collapse_segments :: "jstr list \<Rightarrow> jstr list \<Rightarrow> jstr list" where
  "collapse_segments acc [] = acc"
| "collapse_segments acc (w # ws) =
     (if doubled acc (collapse_segment w)
      then collapse_segments acc ws
      else collapse_segments (acc @ [collapse_segment w]) ws)"

definition collapse_glob :: "jstr \<Rightarrow> jstr" where
  "collapse_glob glob = js_join c_slash (collapse_segments [] (js_split c_slash glob))"

text \<open>The index of the wildcard past the cap, counting runs of stars, or \<open>None\<close>.\<close>

definition route_glob_max_wildcards :: nat where
  "route_glob_max_wildcards = 16"

function wildcard_scan :: "nat \<Rightarrow> nat \<Rightarrow> jstr \<Rightarrow> nat option" where
  "wildcard_scan count index [] = None"
| "wildcard_scan count index (c # s) =
     (if c = c_star \<or> c = c_query
      then (if route_glob_max_wildcards < count + 1 then Some index
            else if c = c_star
            then wildcard_scan (count + 1) (index + 1 + length (takeWhile star_char s))
                   (dropWhile star_char s)
            else wildcard_scan (count + 1) (index + 1) s)
      else wildcard_scan count (index + 1) s)"
  by pat_completeness auto
termination
  by (relation "measure (\<lambda>(count, index, s). length s)") (auto simp: less_Suc_eq_le length_dropWhile_le)

definition wildcard_over_cap :: "jstr \<Rightarrow> nat option" where
  "wildcard_over_cap glob = wildcard_scan 0 0 glob"

text \<open>The number of wildcards a glob carries: each \<open>?\<close>, and each run of stars, is one.\<close>

fun wildcard_count :: "jstr \<Rightarrow> nat" where
  "wildcard_count [] = 0"
| "wildcard_count (c # s) =
     (if c = c_query \<or> (star_char c \<and> (case s of [] \<Rightarrow> True | d # r \<Rightarrow> \<not> star_char d))
      then Suc (wildcard_count s) else wildcard_count s)"

lemma match_segment_spec: "match_segment p w = glob_spec star_char fits_char p w"
  by (simp add: match_segment_def glob_loop_correct)

lemma match_glob_spec:
  "match_glob g path =
     glob_spec star_segment match_segment (js_split c_slash g) (js_split c_slash path)"
  by (simp add: match_glob_def glob_loop_correct)

section \<open>Collapsing runs of stars changes no answer\<close>

lemma glob_spec_drop_star:
  assumes "star q" and "star q'"
  shows "glob_spec star fits (q # q' # qs) ss = glob_spec star fits (q' # qs) ss"
proof
  assume "glob_spec star fits (q # q' # qs) ss"
  then obtain k where k: "k \<le> length ss" "glob_spec star fits (q' # qs) (drop k ss)"
    using assms(1) by (subst (asm) glob_spec.simps(2)) auto
  then obtain j where "j \<le> length (drop k ss)" "glob_spec star fits qs (drop j (drop k ss))"
    using assms(2) by auto
  then have "j + k \<le> length ss \<and> glob_spec star fits qs (drop (j + k) ss)"
    using k(1) by (simp add: drop_drop)
  then show "glob_spec star fits (q' # qs) ss"
    using assms(2) by auto
next
  assume "glob_spec star fits (q' # qs) ss"
  then have "0 \<le> length ss \<and> glob_spec star fits (q' # qs) (drop 0 ss)" by simp
  then show "glob_spec star fits (q # q' # qs) ss"
    using assms(1) by (subst glob_spec.simps(2)) metis
qed

lemma glob_spec_append_cong:
  assumes "\<And>ss. glob_spec star fits ps ss = glob_spec star fits ps' ss"
  shows "glob_spec star fits (fs @ ps) ss = glob_spec star fits (fs @ ps') ss"
  using assms by (induction fs arbitrary: ss) (auto split: list.splits)

lemma glob_spec_map:
  assumes "\<And>q. star (f q) = star q" and "\<And>q x. \<not> star q \<Longrightarrow> fits (f q) x = fits q x"
  shows "glob_spec star fits (map f ps) ss = glob_spec star fits ps ss"
  using assms by (induction ps arbitrary: ss) (auto split: list.splits)

lemma match_collapse_stars: "glob_spec star_char fits_char (collapse_stars p) w = glob_spec star_char fits_char p w"
proof (induction p arbitrary: w)
  case (Cons c s)
  show ?case
  proof (cases "star_char c \<and> (case s of [] \<Rightarrow> False | d # r \<Rightarrow> star_char d)")
    case True
    then obtain d r where s: "s = d # r" "star_char c" "star_char d" by (auto split: list.splits)
    have "glob_spec star_char fits_char (collapse_stars (c # s)) w
        = glob_spec star_char fits_char s w"
      using True Cons.IH by simp
    also have "\<dots> = glob_spec star_char fits_char (c # s) w"
      using glob_spec_drop_star [of star_char c d fits_char r w] s by simp
    finally show ?thesis .
  next
    case False
    then have "collapse_stars (c # s) = [c] @ collapse_stars s" by simp
    then show ?thesis
      using glob_spec_append_cong [of star_char fits_char "collapse_stars s" s "[c]"] Cons.IH by simp
  qed
qed simp

lemma collapse_stars_no_pair: "\<not> star_segment (collapse_stars w)"
proof -
  have "list_all star_char (collapse_stars w) \<Longrightarrow> length (collapse_stars w) \<le> 1"
  proof (induction w)
    case (Cons c s)
    then show ?case
      by (cases s) (auto split: if_splits list.splits simp: le_Suc_eq)
  qed simp
  then show ?thesis by (auto simp: star_segment_def)
qed

lemma star_segment_collapse: "star_segment (collapse_segment w) = star_segment w"
  by (simp add: collapse_segment_def collapse_stars_no_pair) (simp add: star_segment_def star_char_def)

lemma match_collapse_segment:
  "\<not> star_segment w \<Longrightarrow> match_segment (collapse_segment w) = match_segment w"
  by (simp add: fun_eq_iff collapse_segment_def match_segment_spec match_collapse_stars)

lemma collapse_segments_spec:
  "glob_spec star_segment match_segment (collapse_segments acc ws) ss
     = glob_spec star_segment match_segment (acc @ map collapse_segment ws) ss"
proof (induction acc ws arbitrary: ss rule: collapse_segments.induct)
  case (2 acc w ws)
  show ?case
  proof (cases "doubled acc (collapse_segment w)")
    case True
    then have w: "collapse_segment w = [c_star, c_star]" by (simp add: doubled_def)
    obtain fs where fs: "acc = fs @ [[c_star, c_star]]"
      using True by (metis append_butlast_last_id doubled_def)
    have "star_segment [c_star, c_star]" by (simp add: star_segment_def star_char_def)
    then have "glob_spec star_segment match_segment (fs @ [c_star, c_star] # [c_star, c_star] # map collapse_segment ws) ss
        = glob_spec star_segment match_segment (fs @ [c_star, c_star] # map collapse_segment ws) ss"
      by (intro glob_spec_append_cong glob_spec_drop_star)
    then show ?thesis
      using 2(1) True w by (simp add: fs)
  next
    case False
    then show ?thesis using 2(2) by simp
  qed
qed simp

lemma collapse_stars_set: "set (collapse_stars w) \<subseteq> set w"
  by (induction w) auto

lemma collapse_segment_set: "c_slash \<notin> set w \<Longrightarrow> c_slash \<notin> set (collapse_segment w)"
  using collapse_stars_set [of w] by (auto simp: collapse_segment_def)

lemma collapse_segments_set:
  "w \<in> set (collapse_segments acc ws) \<Longrightarrow> w \<in> set acc \<or> w \<in> collapse_segment ` set ws"
  by (induction acc ws rule: collapse_segments.induct) (auto split: if_splits)

lemma collapse_segments_not_Nil:
  "acc \<noteq> [] \<or> ws \<noteq> [] \<Longrightarrow> collapse_segments acc ws \<noteq> []"
proof (induction acc ws rule: collapse_segments.induct)
  case (2 acc w ws)
  then show ?case
    by (cases "doubled acc (collapse_segment w)") (auto simp: doubled_def [of acc])
qed simp

lemma split_collapse_glob:
  "js_split c_slash (collapse_glob g) = collapse_segments [] (js_split c_slash g)"
  unfolding collapse_glob_def
proof (rule js_split_join)
  show "collapse_segments [] (js_split c_slash g) \<noteq> []"
    by (rule collapse_segments_not_Nil) simp
  show "\<forall>w \<in> set (collapse_segments [] (js_split c_slash g)). c_slash \<notin> set w"
  proof
    fix w
    assume "w \<in> set (collapse_segments [] (js_split c_slash g))"
    then obtain v where "v \<in> set (js_split c_slash g)" "w = collapse_segment v"
      using collapse_segments_set [of w "[]"] by auto
    then show "c_slash \<notin> set w" using collapse_segment_set js_split_no_sep by blast
  qed
qed

lemma match_collapse_glob: "match_glob (collapse_glob g) path = match_glob g path"
proof -
  have "glob_spec star_segment match_segment (map collapse_segment (js_split c_slash g)) ss
      = glob_spec star_segment match_segment (js_split c_slash g) ss" for ss
    by (rule glob_spec_map) (simp_all add: star_segment_collapse match_collapse_segment)
  then show ?thesis
    by (simp add: match_glob_spec split_collapse_glob collapse_segments_spec)
qed

section \<open>The bound on wildcards\<close>

lemma wildcard_count_stars:
  "wildcard_count (c_star # s) = Suc (wildcard_count (dropWhile star_char s))"
  by (induction s) (auto simp: star_char_def)

lemma wildcard_scan_None:
  "wildcard_scan n i s = None \<longleftrightarrow> wildcard_count s = 0 \<or> n + wildcard_count s \<le> route_glob_max_wildcards"
proof (induction n i s rule: wildcard_scan.induct)
  case (2 n i c s)
  show ?case
  proof (cases "c = c_star")
    case True
    then show ?thesis
      using 2(1) wildcard_count_stars [of s] by (auto simp: Let_def simp del: wildcard_count.simps)
  next
    case False
    then show ?thesis using 2 by (auto simp: star_char_def)
  qed
qed simp

lemma wildcard_over_cap_None:
  "wildcard_over_cap g = None \<longleftrightarrow> wildcard_count g \<le> route_glob_max_wildcards"
  by (auto simp: wildcard_over_cap_def wildcard_scan_None)

lemma wildcard_scan_bound: "wildcard_scan n i s = Some j \<Longrightarrow> i \<le> j \<and> j < i + length s"
proof (induction n i s rule: wildcard_scan.induct)
  case (2 n i c s)
  have "length (takeWhile star_char s) + length (dropWhile star_char s) = length s"
    by (metis length_append takeWhile_dropWhile_id)
  then show ?case using 2 by (auto split: if_splits)
qed simp

lemma wildcard_over_cap_bound: "wildcard_over_cap g = Some j \<Longrightarrow> j < length g"
  using wildcard_scan_bound [of 0 0 g j] by (simp add: wildcard_over_cap_def)

section \<open>The collapsed form\<close>

lemma collapse_stars_idem: "collapse_stars (collapse_stars w) = collapse_stars w"
proof -
  have head: "(case collapse_stars s of [] \<Rightarrow> False | d # r \<Rightarrow> star_char d)
      = (case s of [] \<Rightarrow> False | d # r \<Rightarrow> star_char d)" for s
    by (induction s) (auto split: list.splits)
  show ?thesis by (induction w) (auto simp: head)
qed

lemma collapse_segment_idem: "collapse_segment (collapse_segment w) = collapse_segment w"
  by (cases "star_segment w")
     (simp_all add: collapse_segment_def collapse_stars_no_pair collapse_stars_idem,
      simp add: star_segment_def star_char_def)

text \<open>A list the collapse leaves alone: every segment collapsed, no two \<open>**\<close> in a row.\<close>

definition collapsed :: "jstr list \<Rightarrow> bool" where
  "collapsed ws \<longleftrightarrow> list_all (\<lambda>w. collapse_segment w = w) ws
     \<and> successively (\<lambda>v w. \<not> (v = [c_star, c_star] \<and> w = [c_star, c_star])) ws"

lemma collapsed_snoc:
  "collapsed acc \<Longrightarrow> collapse_segment c = c \<Longrightarrow> \<not> doubled acc c \<Longrightarrow> collapsed (acc @ [c])"
  by (auto simp: collapsed_def doubled_def successively_append_iff)

lemma collapsed_collapse_segments: "collapsed acc \<Longrightarrow> collapsed (collapse_segments acc ws)"
proof (induction acc ws rule: collapse_segments.induct)
  case (2 acc w ws)
  then show ?case
    by (cases "doubled acc (collapse_segment w)")
       (simp_all add: collapsed_snoc collapse_segment_idem)
qed simp

lemma collapse_segments_collapsed:
  "collapsed (acc @ ws) \<Longrightarrow> collapse_segments acc ws = acc @ ws"
proof (induction acc ws rule: collapse_segments.induct)
  case (2 acc w ws)
  have "collapse_segment w = w" and "\<not> doubled acc w"
    using "2.prems" by (auto simp: collapsed_def doubled_def successively_append_iff)
  then show ?case using 2 by simp
qed simp

lemma collapse_glob_idem: "collapse_glob (collapse_glob g) = collapse_glob g"
proof -
  have "collapsed (collapse_segments [] (js_split c_slash g))"
    by (rule collapsed_collapse_segments) (simp add: collapsed_def)
  then have "collapse_segments [] (js_split c_slash (collapse_glob g)) = js_split c_slash (collapse_glob g)"
    by (simp add: split_collapse_glob collapse_segments_collapsed)
  then show ?thesis by (simp add: collapse_glob_def [of "collapse_glob g"])
qed

lemma js_join_append_set: "set (js_join d ws) \<subseteq> insert d (\<Union> (set ` set ws))"
  by (induction d ws rule: js_join.induct) auto

lemma js_split_set: "w \<in> set (js_split d s) \<Longrightarrow> set w \<subseteq> set s"
  by (induction s arbitrary: w) (fastforce split: list.splits if_splits)+

lemma collapse_segment_subset: "set (collapse_segment w) \<subseteq> set w"
proof (cases "star_segment w")
  case True
  then have "c_star \<in> set w" by (cases w) (simp_all add: star_segment_def star_char_def)
  then show ?thesis using True by (simp add: collapse_segment_def)
next
  case False
  then show ?thesis using collapse_stars_set [of w] by (simp add: collapse_segment_def)
qed

lemma js_split_has_sep: "2 \<le> length (js_split d s) \<Longrightarrow> d \<in> set s"
  using js_split_plain [of d s] by fastforce

lemma set_js_join_single: "length ws \<le> 1 \<Longrightarrow> set (js_join d ws) = \<Union> (set ` set ws)"
  by (cases ws; cases "tl ws") auto

lemma length_collapse_segments: "length (collapse_segments acc ws) \<le> length acc + length ws"
proof (induction acc ws rule: collapse_segments.induct)
  case (2 acc w ws)
  then show ?case by (cases "doubled acc (collapse_segment w)") simp_all
qed simp

lemma collapse_glob_set: "set (collapse_glob g) \<subseteq> set g"
proof -
  let ?ws = "js_split c_slash g" and ?cs = "collapse_segments [] (js_split c_slash g)"
  have parts: "set c \<subseteq> set g" if c: "c \<in> set ?cs" for c
  proof -
    obtain w where w: "w \<in> set ?ws" "c = collapse_segment w"
      using collapse_segments_set [of c "[]"] c by auto
    then show ?thesis using collapse_segment_subset [of w] js_split_set [of w] by blast
  qed
  show ?thesis
  proof (cases "length ?cs \<le> 1")
    case True
    then show ?thesis using parts by (auto simp: collapse_glob_def set_js_join_single)
  next
    case False
    then have "2 \<le> length ?ws" using length_collapse_segments [of "[]" ?ws] by simp
    then have "c_slash \<in> set g" by (rule js_split_has_sep)
    then show ?thesis
      using js_join_append_set [of c_slash ?cs] parts unfolding collapse_glob_def by blast
  qed
qed

lemma collapse_segments_extends: "\<exists>zs. collapse_segments acc ws = acc @ zs"
proof (induction acc ws rule: collapse_segments.induct)
  case (2 acc w ws)
  then show ?case by (cases "doubled acc (collapse_segment w)") auto
qed simp

lemma collapse_stars_not_Nil: "w \<noteq> [] \<Longrightarrow> collapse_stars w \<noteq> []"
proof (induction w)
  case (Cons c s)
  then show ?case
    by (cases s) (simp_all add: collapse_stars.simps(2) [of c] del: collapse_stars.simps(2))
qed simp

lemma collapse_glob_not_Nil:
  assumes "g \<noteq> []"
  shows "collapse_glob g \<noteq> []"
proof
  assume "collapse_glob g = []"
  then have cs: "collapse_segments [] (js_split c_slash g) = [[]]"
    using split_collapse_glob [of g] by simp
  obtain w ws where ws: "js_split c_slash g = w # ws"
    by (cases "js_split c_slash g") auto
  have step: "collapse_segments [collapse_segment w] ws = [[]]"
    using cs ws by (simp add: doubled_def)
  then have "collapse_segment w = []"
    using collapse_segments_extends [of "[collapse_segment w]" ws] by auto
  then have w: "w = []"
    using collapse_stars_not_Nil [of w] by (auto simp: collapse_segment_def split: if_splits)
  have "ws = []"
  proof (cases ws)
    case (Cons v vs)
    then have "collapse_segments [[], collapse_segment v] vs = [[]]"
      using step \<open>collapse_segment w = []\<close> by (simp add: doubled_def)
    then show ?thesis
      using collapse_segments_extends [of "[[], collapse_segment v]" vs] by auto
  qed
  then have "g = []" using ws w js_join_split [of c_slash g] by simp
  then show False using assms by simp
qed

text \<open>A collapsed glob has no more wildcards than what was typed.\<close>

lemma wildcard_count_sep:
  "wildcard_count (u @ c_slash # v) = wildcard_count u + wildcard_count v"
proof (induction u)
  case (Cons c u)
  then show ?case by (cases u) (auto simp: star_char_def)
qed (simp add: star_char_def)

lemma wildcard_count_join:
  "wildcard_count (js_join c_slash ws) = sum_list (map wildcard_count ws)"
  by (induction c_slash ws rule: js_join.induct) (simp_all add: wildcard_count_sep)

lemma wildcard_count_collapse_stars: "wildcard_count (collapse_stars w) = wildcard_count w"
proof -
  have head: "(case collapse_stars s of [] \<Rightarrow> True | d # r \<Rightarrow> \<not> star_char d)
      = (case s of [] \<Rightarrow> True | d # r \<Rightarrow> \<not> star_char d)" for s
    by (induction s) (auto split: list.splits)
  show ?thesis
    by (induction w) (auto simp: head star_char_def split: list.splits)
qed

lemma wildcard_count_collapse_segment: "wildcard_count (collapse_segment w) \<le> wildcard_count w"
proof (cases "star_segment w")
  case True
  have "1 \<le> wildcard_count v" if "list_all star_char v" "v \<noteq> []" for v
    using that
  proof (induction v)
    case (Cons c v)
    then show ?case by (cases v) simp_all
  qed simp
  moreover have "list_all star_char w" and "w \<noteq> []"
    using True by (auto simp: star_segment_def)
  ultimately have "1 \<le> wildcard_count w" by blast
  then show ?thesis using True by (simp add: collapse_segment_def star_char_def)
next
  case False
  then show ?thesis by (simp add: collapse_segment_def wildcard_count_collapse_stars)
qed

lemma wildcard_count_collapse_segments:
  "sum_list (map wildcard_count (collapse_segments acc ws))
     \<le> sum_list (map wildcard_count acc) + sum_list (map wildcard_count ws)"
proof (induction acc ws rule: collapse_segments.induct)
  case (2 acc w ws)
  then show ?case
    using wildcard_count_collapse_segment [of w]
    by (cases "doubled acc (collapse_segment w)") simp_all
qed simp

lemma wildcard_count_collapse: "wildcard_count (collapse_glob g) \<le> wildcard_count g"
  using wildcard_count_collapse_segments [of "[]" "js_split c_slash g"]
    wildcard_count_join [of "js_split c_slash g"]
  by (simp add: collapse_glob_def wildcard_count_join)

end
