(* ===== verification/Route_Condition.thy ===== *)
theory Route_Condition
  imports Json Glob
begin

text \<open>
  \<open>packages/protocol/src/route-condition.ts\<close> and \<open>displayable-text.ts\<close>: the text of a router's
  condition, the parser that reads it (with the position it gives up at), and the evaluation of a
  condition against a run's input.  The globs are in \<open>Glob\<close>.

  A refusal is the position and the problem; the sentence the code composes from the two is the
  problem's constructor.
\<close>

section \<open>Characters a person can see\<close>

definition control_char :: "jchar \<Rightarrow> bool" where
  "control_char c \<longleftrightarrow> c \<le> 8 \<or> (11 \<le> c \<and> c \<le> 31) \<or> (127 \<le> c \<and> c \<le> 159)"

definition bidi_char :: "jchar \<Rightarrow> bool" where
  "bidi_char c \<longleftrightarrow> c = 1564 \<or> c = 8206 \<or> c = 8207 \<or> (8234 \<le> c \<and> c \<le> 8238) \<or> (8294 \<le> c \<and> c \<le> 8297)"

definition displayable_text :: "jstr \<Rightarrow> jstr" where
  "displayable_text s = filter (\<lambda>c. \<not> bidi_char c) (filter (\<lambda>c. \<not> control_char c) s)"

definition displayable_label :: "jstr \<Rightarrow> bool" where
  "displayable_label s \<longleftrightarrow>
     \<not> list_ex (\<lambda>c. c = c_tab \<or> c = c_newline) s \<and> displayable_text s = s"

text \<open>The walk over a text by code points: a surrogate pair is one character of two units.\<close>

fun first_undisplayable_from :: "nat \<Rightarrow> jstr \<Rightarrow> nat option" where
  "first_undisplayable_from index [] = None"
| "first_undisplayable_from index [c] =
     (if displayable_text [c] \<noteq> [c] then Some index else None)"
| "first_undisplayable_from index (c # d # s) =
     (if high_surrogate c \<and> low_surrogate d
      then (if displayable_text [c, d] \<noteq> [c, d] then Some index
            else first_undisplayable_from (index + 2) s)
      else (if displayable_text [c] \<noteq> [c] then Some index
            else first_undisplayable_from (index + 1) (d # s)))"

definition first_undisplayable :: "jstr \<Rightarrow> nat option" where
  "first_undisplayable text = first_undisplayable_from 0 text"

section \<open>Bounds and results\<close>

definition route_condition_max_chars :: nat where "route_condition_max_chars = 200"
definition route_input_max_chars :: nat where "route_input_max_chars = 16000"

datatype route_condition =
    CEquals jstr jstr
  | CNotEquals jstr jstr
  | COnly jstr

datatype rc_problem =
    Too_Long | Undisplayable | Expected_Field | Expected_Glob | Too_Many_Wildcards
  | Expected_Operator | Expected_Quote | Expected_Literal | Expected_End

type_synonym rc_parse = "(nat \<times> rc_problem) + route_condition"

section \<open>The scanner\<close>

definition ident_start :: "jchar \<Rightarrow> bool" where
  "ident_start c \<longleftrightarrow> (65 \<le> c \<and> c \<le> 90) \<or> c = 95 \<or> (97 \<le> c \<and> c \<le> 122)"

definition ident_char :: "jchar \<Rightarrow> bool" where
  "ident_char c \<longleftrightarrow> ident_start c \<or> digit_char c"

definition scan_ident :: "jstr \<Rightarrow> jstr" where
  "scan_ident s =
     (case s of [] \<Rightarrow> [] | c # r \<Rightarrow> if ident_start c then c # takeWhile ident_char r else [])"

lemma scan_ident_prefix: "\<exists>r. s = scan_ident s @ r"
  by (auto simp: scan_ident_def split: list.splits)
     (metis takeWhile_dropWhile_id)

text \<open>\<open>(?:\.[A-Za-z_][A-Za-z0-9_]*)*\<close>, greedily.\<close>

function scan_path :: "jstr \<Rightarrow> jstr" where
  "scan_path s =
     (case s of
        [] \<Rightarrow> []
      | c # r \<Rightarrow>
          if c = c_dot \<and> scan_ident r \<noteq> []
          then c_dot # scan_ident r @ scan_path (drop (length (scan_ident r)) r)
          else [])"
  by pat_completeness auto
termination
  by (relation "measure length") auto

declare scan_path.simps [simp del]

text \<open>\<open>FIELD.exec(rest)?.[0]\<close>.\<close>

definition field_exec :: "jstr \<Rightarrow> jstr option" where
  "field_exec s =
     (let i = scan_ident s
      in if i = [] then None else Some (i @ scan_path (drop (length i) s)))"

definition skip_ws :: "jstr \<Rightarrow> nat \<Rightarrow> nat" where
  "skip_ws text position = position + length (takeWhile ws_char (drop position text))"

text \<open>How many characters a string literal's body has: up to the first quote no backslash escapes.\<close>

fun scan_close :: "jstr \<Rightarrow> nat option" where
  "scan_close [] = None"
| "scan_close (c # s) =
     (if c = c_backslash
      then (case s of [] \<Rightarrow> None | d # r \<Rightarrow> map_option (\<lambda>n. n + 2) (scan_close r))
      else if c = c_quote then Some 0
      else map_option Suc (scan_close s))"

definition read_quoted :: "jstr \<Rightarrow> nat \<Rightarrow> (nat \<times> jstr) option" where
  "read_quoted text start =
     (case scan_close (drop (start + 1) text) of
        None \<Rightarrow> None
      | Some n \<Rightarrow>
          (case json_parse_string (take (n + 2) (drop start text)) of
             None \<Rightarrow> None
           | Some value \<Rightarrow> Some (start + n + 2, value)))"

section \<open>The parser\<close>

definition at_end :: "jstr \<Rightarrow> nat \<Rightarrow> route_condition \<Rightarrow> rc_parse" where
  "at_end text position condition =
     (let p = skip_ws text position
      in if p = length text then Inr condition else Inl (p, Expected_End))"

definition parse_only :: "jstr \<Rightarrow> nat \<Rightarrow> rc_parse" where
  "parse_only text position =
     (let p = skip_ws text position;
          glob = takeWhile (\<lambda>c. \<not> ws_char c) (drop p text)
      in if glob = [] then Inl (p, Expected_Glob)
         else (case wildcard_over_cap glob of
                 Some over \<Rightarrow> Inl (p + over, Too_Many_Wildcards)
               | None \<Rightarrow> at_end text (p + length glob) (COnly (collapse_glob glob))))"

definition parse_literal :: "jstr \<Rightarrow> nat \<Rightarrow> (nat \<times> rc_problem) + (nat \<times> jstr)" where
  "parse_literal text p =
     (if (case drop p text of [] \<Rightarrow> False | c # r \<Rightarrow> c = c_quote)
      then (case read_quoted text p of
              None \<Rightarrow> Inl (p, Expected_Quote)
            | Some (fin, value) \<Rightarrow>
                if first_undisplayable value \<noteq> None then Inl (p, Undisplayable)
                else Inr (fin, value))
      else (let bare = takeWhile (\<lambda>c. \<not> ws_char c \<and> c \<noteq> c_quote) (drop p text)
            in if bare = [] then Inl (p, Expected_Literal)
               else Inr (p + length bare, bare)))"

definition parse_comparison :: "jstr \<Rightarrow> nat \<Rightarrow> jstr \<Rightarrow> rc_parse" where
  "parse_comparison text position field =
     (let p = skip_ws text position;
          operator = take 2 (drop p text)
      in if operator \<noteq> js ''=='' \<and> operator \<noteq> js ''!='' then Inl (p, Expected_Operator)
         else (case parse_literal text (skip_ws text (p + 2)) of
                 Inl e \<Rightarrow> Inl e
               | Inr (fin, literal) \<Rightarrow>
                   at_end text fin
                     (if operator = js ''=='' then CEquals field literal
                      else CNotEquals field literal)))"

definition parse_route_condition :: "jstr \<Rightarrow> rc_parse" where
  "parse_route_condition text =
     (if route_condition_max_chars < length text then Inl (route_condition_max_chars, Too_Long)
      else (case first_undisplayable text of
              Some i \<Rightarrow> Inl (i, Undisplayable)
            | None \<Rightarrow>
                (let p = length (takeWhile ws_char text)
                 in case field_exec (drop p text) of
                      None \<Rightarrow> Inl (p, Expected_Field)
                    | Some field \<Rightarrow>
                        if field = js ''only''
                           \<and> (case drop (p + 4) text of [] \<Rightarrow> True | c # r \<Rightarrow> ws_char c)
                        then parse_only text (p + 4)
                        else parse_comparison text (p + length field) field)))"

section \<open>Evaluation\<close>

text \<open>A run's input is a JSON object: its own properties.\<close>

type_synonym route_input = "(jstr \<times> json) list"

text \<open>
  \<open>routeInputSchema.safeParse\<close>: every top-level key has 1 to 64 characters and the object is at
  most \<open>ROUTE_INPUT_MAX_CHARS\<close> long when written down.  The second check is only reached when the
  first holds.
\<close>

datatype input_problem = Bad_Key | Input_Too_Long

definition route_input_problem :: "route_input \<Rightarrow> input_problem option" where
  "route_input_problem ps =
     (if \<exists>k \<in> fst ` set ps. length k = 0 \<or> 64 < length k then Some Bad_Key
      else if route_input_max_chars < length (json_text (JObj ps)) then Some Input_Too_Long
      else None)"

fun lookup_path :: "json \<Rightarrow> jstr list \<Rightarrow> json option" where
  "lookup_path v [] = Some v"
| "lookup_path v (w # ws) =
     (case v of
        JObj ps \<Rightarrow> (case map_of ps w of None \<Rightarrow> None | Some u \<Rightarrow> lookup_path u ws)
      | _ \<Rightarrow> None)"

definition lookup_field :: "route_input \<Rightarrow> jstr \<Rightarrow> json option" where
  "lookup_field input field = lookup_path (JObj input) (js_split c_dot field)"

definition equals_literal :: "json option \<Rightarrow> jstr \<Rightarrow> bool" where
  "equals_literal value literal =
     (case value of
        Some (JStr s) \<Rightarrow> s = literal
      | Some (JNum n) \<Rightarrow> json_text (JNum n) = literal
      | Some (JBool b) \<Rightarrow> json_text (JBool b) = literal
      | Some JNull \<Rightarrow> json_text JNull = literal
      | _ \<Rightarrow> False)"

fun evaluate_route_condition :: "route_condition \<Rightarrow> route_input \<Rightarrow> bool" where
  "evaluate_route_condition (CEquals field literal) input =
     equals_literal (lookup_field input field) literal"
| "evaluate_route_condition (CNotEquals field literal) input =
     (\<not> equals_literal (lookup_field input field) literal)"
| "evaluate_route_condition (COnly glob) input =
     (case lookup_field input (js ''files'') of
        Some (JArr files) \<Rightarrow>
          files \<noteq> []
          \<and> list_all (\<lambda>file. case file of JStr path \<Rightarrow> match_glob glob path | _ \<Rightarrow> False) files
      | _ \<Rightarrow> False)"

section \<open>Displayable text\<close>

definition visible :: "jchar \<Rightarrow> bool" where
  "visible c \<longleftrightarrow> \<not> control_char c \<and> \<not> bidi_char c"

lemma displayable_text_eq: "displayable_text s = filter visible s"
  by (simp add: displayable_text_def) (metis (no_types, lifting) filter_cong visible_def)

lemma displayable_text_id: "displayable_text s = s \<longleftrightarrow> list_all visible s"
  by (simp add: displayable_text_eq filter_id_conv list_all_iff)

lemma displayable_text_visible: "list_all visible (displayable_text s)"
  by (auto simp: displayable_text_def list_all_iff visible_def)

lemma first_undisplayable_None: "first_undisplayable t = None \<longleftrightarrow> list_all visible t"
proof -
  have "first_undisplayable_from i t = None \<longleftrightarrow> list_all visible t" for i
    by (induction i t rule: first_undisplayable_from.induct)
       (auto simp: displayable_text_id)
  then show ?thesis by (simp add: first_undisplayable_def)
qed

lemma first_undisplayable_bound: "first_undisplayable t = Some i \<Longrightarrow> i < length t"
proof -
  have "first_undisplayable_from j t = Some i \<Longrightarrow> i < j + length t" for j
    by (induction j t rule: first_undisplayable_from.induct) (auto split: if_splits)
  then show "first_undisplayable t = Some i \<Longrightarrow> i < length t"
    by (fastforce simp: first_undisplayable_def)
qed

section \<open>Positions\<close>

lemma skip_ws_bounds:
  "position \<le> length t \<Longrightarrow> position \<le> skip_ws t position \<and> skip_ws t position \<le> length t"
  using length_takeWhile_le [of ws_char "drop position t"] by (simp add: skip_ws_def)

lemma length_scan_ident: "length (scan_ident s) \<le> length s"
  using scan_ident_prefix [of s] by (metis le_add1 length_append)

lemma length_scan_path: "length (scan_path s) \<le> length s"
proof (induction s rule: scan_path.induct)
  case (1 s)
  show ?case
  proof (cases s)
    case (Cons c r)
    then show ?thesis
      using 1 length_scan_ident [of r]
      by (subst scan_path.simps) (auto split: if_splits)
  qed (simp add: scan_path.simps)
qed

lemma field_exec_length: "field_exec s = Some f \<Longrightarrow> 0 < length f \<and> length f \<le> length s"
  using length_scan_ident [of s] length_scan_path [of "drop (length (scan_ident s)) s"]
  by (auto simp: field_exec_def Let_def split: if_splits)

lemma scan_close_bound: "scan_close s = Some n \<Longrightarrow> n < length s"
  by (induction s arbitrary: n rule: scan_close.induct) (auto split: if_splits list.splits)

lemma read_quoted_bound:
  "read_quoted t p = Some (fin, value) \<Longrightarrow> p \<le> length t \<Longrightarrow> p < fin \<and> fin \<le> length t"
  by (auto simp: read_quoted_def split: option.splits dest!: scan_close_bound)

lemma at_end_bound:
  "at_end t p c = Inl (q, problem) \<Longrightarrow> p \<le> length t \<Longrightarrow> q \<le> length t"
  using skip_ws_bounds [of p t] by (auto simp: at_end_def Let_def split: if_splits)

lemma length_takeWhile_drop: "p \<le> length s \<Longrightarrow> p + length (takeWhile P (drop p s)) \<le> length s"
  using length_takeWhile_le [of P "drop p s"] by simp

lemma parse_only_bound:
  assumes "parse_only t p = Inl (q, problem)" and "p \<le> length t"
  shows "q \<le> length t"
proof -
  define p' where "p' = skip_ws t p"
  define glob where "glob = takeWhile (\<lambda>c. \<not> ws_char c) (drop p' t)"
  have "p' \<le> length t" using skip_ws_bounds [OF assms(2)] by (simp add: p'_def)
  then have "p' + length glob \<le> length t"
    unfolding glob_def by (rule length_takeWhile_drop)
  then show ?thesis
    using assms(1) at_end_bound wildcard_over_cap_bound [of glob]
    by (fastforce simp: parse_only_def Let_def p'_def [symmetric] glob_def [symmetric]
        split: if_splits option.splits)
qed

lemma parse_literal_bound:
  assumes "p \<le> length t"
  shows "parse_literal t p = Inl (q, problem) \<Longrightarrow> q \<le> length t"
    and "parse_literal t p = Inr (fin, value) \<Longrightarrow> fin \<le> length t"
  using assms read_quoted_bound [of t p] length_takeWhile_drop [OF assms]
  by (auto simp: parse_literal_def Let_def split: if_splits option.splits)

lemma parse_comparison_bound:
  assumes parse: "parse_comparison t p field = Inl (q, problem)" and p: "p \<le> length t"
  shows "q \<le> length t"
proof -
  define p' where "p' = skip_ws t p"
  have p': "p' \<le> length t" using skip_ws_bounds [OF p] by (simp add: p'_def)
  show ?thesis
  proof (cases "take 2 (drop p' t) = js ''=='' \<or> take 2 (drop p' t) = js ''!=''")
    case True
    then have "length (take 2 (drop p' t)) = 2" by (metis length_js length_Cons list.size(3) numeral_2_eq_2)
    then have "p' + 2 \<le> length t" using p' by (simp add: min_def split: if_splits)
    then have fits: "skip_ws t (p' + 2) \<le> length t" using skip_ws_bounds by blast
    show ?thesis
    proof (cases "parse_literal t (skip_ws t (p' + 2))")
      case (Inl e)
      then have "e = (q, problem)"
        using parse True by (auto simp: parse_comparison_def Let_def p'_def [symmetric])
      then show ?thesis using parse_literal_bound(1) [OF fits] Inl by blast
    next
      case (Inr r)
      obtain fin literal where r: "r = (fin, literal)" by (cases r)
      have "\<exists>c. at_end t fin c = Inl (q, problem)"
        using parse True Inr by (auto simp: parse_comparison_def Let_def p'_def [symmetric] r)
      then show ?thesis
        using at_end_bound parse_literal_bound(2) [OF fits Inr [unfolded r]] by blast
    qed
  next
    case False
    then show ?thesis
      using parse p' by (simp add: parse_comparison_def Let_def p'_def [symmetric])
  qed
qed

lemma parse_position_bound:
  assumes "parse_route_condition t = Inl (q, problem)"
  shows "q \<le> length t \<and> q \<le> route_condition_max_chars"
proof (cases "route_condition_max_chars < length t")
  case True
  then show ?thesis using assms by (simp add: parse_route_condition_def)
next
  case short: False
  have "q \<le> length t"
  proof (cases "first_undisplayable t")
    case (Some i)
    then show ?thesis
      using assms short first_undisplayable_bound [OF Some] by (simp add: parse_route_condition_def)
  next
    case None
    define p where "p = length (takeWhile ws_char t)"
    have p: "p \<le> length t" by (simp add: p_def length_takeWhile_le)
    show ?thesis
    proof (cases "field_exec (drop p t)")
      case None': None
      then show ?thesis
        using assms short None p by (simp add: parse_route_condition_def Let_def p_def)
    next
      case (Some field)
      have "p + length field \<le> length t" using field_exec_length [OF Some] p by (simp add: le_diff_conv2)
      then show ?thesis
        using assms short None Some parse_only_bound parse_comparison_bound
        by (auto simp: parse_route_condition_def Let_def p_def [symmetric] split: if_splits)
    qed
  qed
  then show ?thesis using short by simp
qed

section \<open>Writing a condition down\<close>

text \<open>The text a condition is read from, with no space where the grammar needs none.\<close>

fun print_condition :: "route_condition \<Rightarrow> jstr" where
  "print_condition (CEquals field literal) = field @ js ''=='' @ json_quote literal"
| "print_condition (CNotEquals field literal) = field @ js ''!='' @ json_quote literal"
| "print_condition (COnly glob) = js ''only '' @ glob"

text \<open>What a condition the parser answers with satisfies.\<close>

definition valid_field :: "jstr \<Rightarrow> bool" where
  "valid_field f \<longleftrightarrow> field_exec f = Some f"

fun valid_condition :: "route_condition \<Rightarrow> bool" where
  "valid_condition (CEquals field literal) \<longleftrightarrow> valid_field field \<and> list_all visible literal"
| "valid_condition (CNotEquals field literal) \<longleftrightarrow> valid_field field \<and> list_all visible literal"
| "valid_condition (COnly glob) \<longleftrightarrow>
     glob \<noteq> [] \<and> list_all (\<lambda>c. \<not> ws_char c) glob \<and> list_all visible glob
       \<and> wildcard_count glob \<le> route_glob_max_wildcards \<and> collapse_glob glob = glob"

lemma ident_not_ws: "ident_char c \<Longrightarrow> \<not> ws_char c"
  by (auto simp: ident_char_def ident_start_def digit_char_def ws_char_def)

lemma ident_visible: "ident_char c \<or> c = c_dot \<Longrightarrow> visible c"
  by (auto simp: ident_char_def ident_start_def digit_char_def visible_def control_char_def
      bidi_char_def)

lemma takeWhile_stop: "\<not> P c \<Longrightarrow> takeWhile P (s @ c # r) = takeWhile P s"
  by (induction s) auto

lemma scan_ident_stop: "\<not> ident_char c \<Longrightarrow> scan_ident (s @ c # r) = scan_ident s"
  by (cases s) (auto simp: scan_ident_def takeWhile_stop ident_char_def)

lemma scan_path_stop:
  assumes "\<not> ident_char c" and "c \<noteq> c_dot"
  shows "scan_path (s @ c # r) = scan_path s"
proof (induction s rule: scan_path.induct)
  case (1 s)
  show ?case
  proof (cases s)
    case Nil
    then show ?thesis using assms by (simp add: scan_path.simps)
  next
    case (Cons d u)
    then show ?thesis
      using 1 assms length_scan_ident [of u]
      by (auto simp: scan_path.simps [of "d # u"] scan_path.simps [of "d # u @ c # r"] scan_ident_stop)
  qed
qed

lemma field_exec_stop:
  assumes "\<not> ident_char c" and "c \<noteq> c_dot"
  shows "field_exec (s @ c # r) = field_exec s"
  using length_scan_ident [of s] assms
  by (simp add: field_exec_def Let_def scan_ident_stop scan_path_stop)

lemma scan_ident_chars: "x \<in> set (scan_ident s) \<Longrightarrow> ident_char x"
  by (auto simp: scan_ident_def ident_char_def split: list.splits if_splits dest: set_takeWhileD)

lemma scan_ident_start: "scan_ident s \<noteq> [] \<Longrightarrow> ident_start (hd (scan_ident s))"
  by (auto simp: scan_ident_def split: list.splits if_splits)

lemma scan_ident_all:
  "scan_ident s @ [] = scan_ident (scan_ident s)"
  by (auto simp: scan_ident_def split: list.splits)

lemma scan_path_chars: "x \<in> set (scan_path s) \<Longrightarrow> ident_char x \<or> x = c_dot"
proof (induction s rule: scan_path.induct)
  case (1 s)
  then show ?case
    by (subst (asm) (2) scan_path.simps) (auto split: list.splits if_splits dest: scan_ident_chars)
qed

lemma scan_path_head: "scan_path s = [] \<or> (\<exists>r. scan_path s = c_dot # r)"
  by (subst (1 2) scan_path.simps) (auto split: list.splits)

lemma scan_ident_append_path: "scan_ident (scan_ident s @ scan_path u) = scan_ident s"
proof -
  have "\<not> ident_char c_dot" by (simp add: ident_char_def ident_start_def digit_char_def)
  then show ?thesis
    using scan_path_head [of u] scan_ident_stop [of c_dot "scan_ident s"] scan_ident_all [of s]
    by auto
qed

lemma scan_path_idem: "scan_path (scan_path s) = scan_path s"
proof (induction s rule: scan_path.induct)
  case (1 s)
  show ?case
  proof (cases "\<exists>r. s = c_dot # r \<and> scan_ident r \<noteq> []")
    case True
    then obtain r where r: "s = c_dot # r" "scan_ident r \<noteq> []" by blast
    define u where "u = scan_path (drop (length (scan_ident r)) r)"
    have s: "scan_path s = c_dot # scan_ident r @ u"
      using r(2) unfolding r(1) u_def by (subst scan_path.simps) simp
    have "scan_ident (scan_ident r @ u) = scan_ident r"
      by (simp add: u_def scan_ident_append_path)
    moreover have "scan_path u = u" using 1 r by (simp add: u_def)
    ultimately show ?thesis
      using r(2) by (simp add: s scan_path.simps [of "c_dot # scan_ident r @ u"])
  next
    case False
    then have "scan_path s = []"
      by (subst scan_path.simps) (auto split: list.splits)
    then show ?thesis by (simp add: scan_path.simps)
  qed
qed

lemma field_exec_valid: "field_exec s = Some f \<Longrightarrow> valid_field f"
  by (auto simp: field_exec_def valid_field_def Let_def scan_ident_append_path scan_path_idem
      split: if_splits)

lemma field_exec_chars: "field_exec s = Some f \<Longrightarrow> x \<in> set f \<Longrightarrow> ident_char x \<or> x = c_dot"
  by (auto simp: field_exec_def Let_def split: if_splits dest: scan_ident_chars scan_path_chars)

lemma field_exec_head: "field_exec s = Some f \<Longrightarrow> f \<noteq> [] \<and> ident_start (hd f)"
  by (auto simp: field_exec_def Let_def split: if_splits dest: scan_ident_start)

section \<open>Reading a quoted literal back\<close>

lemma scan_close_escape: "scan_close (json_escape s @ c_quote # r) = Some (length (json_escape s))"
proof (induction s rule: length_induct)
  case (1 s)
  show ?case
  proof (cases s)
    case (Cons c u)
    have IH: "scan_close (json_escape u @ c_quote # r) = Some (length (json_escape u))"
      using 1 Cons by simp
    have hexd: "hex_digit n \<noteq> 92 \<and> hex_digit n \<noteq> 34" for n
      by (auto simp: hex_digit_def)
    show ?thesis
    proof (cases rule: json_escape_cases [of c u])
      case short
      then show ?thesis using IH Cons by (simp del: json_escape.simps)
    next
      case hex
      then show ?thesis using IH Cons hexd by (simp del: json_escape.simps add: hex4_def)
    next
      case (pair d q)
      moreover have "scan_close (json_escape q @ c_quote # r) = Some (length (json_escape q))"
        using 1 Cons pair(1) by simp
      moreover have "c \<noteq> 34 \<and> c \<noteq> 92 \<and> d \<noteq> 34 \<and> d \<noteq> 92"
        using pair by (auto simp: low_surrogate_def high_surrogate_def)
      ultimately show ?thesis using Cons by (simp del: json_escape.simps)
    next
      case plain
      then have "c \<noteq> 34 \<and> c \<noteq> 92" by (auto simp: short_escape_def)
      then show ?thesis using plain IH Cons by (simp del: json_escape.simps)
    qed
  qed simp
qed

lemma json_escape_visible: "list_all visible s \<Longrightarrow> list_all visible (json_escape s)"
proof (induction s rule: length_induct)
  case (1 s)
  show ?case
  proof (cases s)
    case (Cons c u)
    have IH: "list_all visible (json_escape u)" and c: "visible c"
      using 1 Cons by simp_all
    have small: "visible x" if "32 \<le> x \<and> x < 127" for x
      using that by (auto simp: visible_def control_char_def bidi_char_def)
    have hexd: "visible (hex_digit n)" if "n < 16" for n
      using that by (intro small) (auto simp: hex_digit_def)
    show ?thesis
    proof (cases rule: json_escape_cases [of c u])
      case (short e)
      then have "32 \<le> e \<and> e < 127" by (auto simp: short_escape_def split: if_splits)
      then show ?thesis using short IH Cons small by (simp del: json_escape.simps)
    next
      case hex
      then show ?thesis
        using IH Cons hexd small
        by (simp del: json_escape.simps add: hex4_def less_mult_imp_div_less)
    next
      case (pair d q)
      then show ?thesis using 1 Cons by (simp del: json_escape.simps)
    next
      case plain
      then show ?thesis using IH Cons c by (simp del: json_escape.simps)
    qed
  qed simp
qed

lemma read_quoted_end:
  assumes "drop p t = json_quote literal @ r"
  shows "read_quoted t p = Some (p + length (json_quote literal), literal)"
proof -
  have "drop (p + 1) t = json_escape literal @ c_quote # r"
    using assms by (metis Suc_eq_plus1 append_Cons append_assoc append_Nil drop_Suc json_quote_def
        list.sel(3) tl_drop)
  moreover have "take (length (json_escape literal) + 2) (drop p t) = json_quote literal"
    using assms by (simp add: json_quote_def)
  ultimately show ?thesis
    by (simp add: read_quoted_def scan_close_escape json_parse_quote) (simp add: json_quote_def)
qed

lemma skip_ws_none:
  "drop p t = c # r \<Longrightarrow> \<not> ws_char c \<Longrightarrow> skip_ws t p = p"
  by (simp add: skip_ws_def)

section \<open>What the parser answers with\<close>

text \<open>The equations that evaluate the parser on a concrete text.\<close>

lemmas rc_eval = js_def parse_route_condition_def parse_only_def parse_comparison_def
  parse_literal_def read_quoted_def at_end_def skip_ws_def field_exec_def scan_path.simps
  scan_ident_def ident_char_def ident_start_def digit_char_def ws_char_def first_undisplayable_def
  displayable_text_def control_char_def bidi_char_def high_surrogate_def low_surrogate_def
  route_condition_max_chars_def wildcard_over_cap_def route_glob_max_wildcards_def
  json_parse_string_def json_quote_def short_escape_def simple_escape_def visible_def
  valid_field_def

lemma valid_field_head: "valid_field f \<Longrightarrow> f \<noteq> [] \<and> \<not> ws_char (hd f)"
  using field_exec_head [of f f] ident_not_ws
  by (auto simp: valid_field_def ident_char_def)

lemma valid_field_visible: "valid_field f \<Longrightarrow> list_all visible f"
  using field_exec_chars [of f f] ident_visible by (auto simp: valid_field_def list_all_iff)

lemma list_all_take_drop: "list_all P s \<Longrightarrow> list_all P (drop n s) \<and> list_all P (take n s)"
  by (auto simp: list_all_iff dest: in_set_dropD in_set_takeD)

lemma at_end_condition: "at_end t p c = Inr d \<Longrightarrow> d = c"
  by (auto simp: at_end_def Let_def split: if_splits)

lemma parse_only_valid:
  assumes parse: "parse_only t p = Inr c" and vis: "list_all visible t"
  shows "valid_condition c"
proof -
  define p' where "p' = skip_ws t p"
  define glob where "glob = takeWhile (\<lambda>c. \<not> ws_char c) (drop p' t)"
  have "glob \<noteq> []" and over: "wildcard_over_cap glob = None" and c: "c = COnly (collapse_glob glob)"
    using parse at_end_condition
    by (fastforce simp: parse_only_def Let_def p'_def [symmetric] glob_def [symmetric]
        split: if_splits option.splits)+
  moreover have "list_all visible glob" and "list_all (\<lambda>c. \<not> ws_char c) glob"
    using list_all_take_drop [OF vis, of p']
    by (auto simp: glob_def list_all_iff dest: set_takeWhileD)
  moreover have "wildcard_count (collapse_glob glob) \<le> route_glob_max_wildcards"
    using over wildcard_count_collapse [of glob] by (simp add: wildcard_over_cap_None)
  ultimately show ?thesis
    using collapse_glob_set [of glob]
    by (auto simp: c collapse_glob_idem collapse_glob_not_Nil list_all_iff)
qed

lemma parse_literal_visible:
  assumes "parse_literal t p = Inr (fin, literal)" and "list_all visible t"
  shows "list_all visible literal"
proof (cases "case drop p t of [] \<Rightarrow> False | c # r \<Rightarrow> c = c_quote")
  case True
  then show ?thesis
    using assms(1)
    by (auto simp: parse_literal_def first_undisplayable_None split: option.splits if_splits)
next
  case False
  then have "literal = takeWhile (\<lambda>c. \<not> ws_char c \<and> c \<noteq> c_quote) (drop p t)"
    using assms(1) by (auto simp: parse_literal_def Let_def split: if_splits)
  then show ?thesis
    using list_all_take_drop [OF assms(2), of p] by (auto simp: list_all_iff dest: set_takeWhileD)
qed

lemma parse_comparison_valid:
  assumes parse: "parse_comparison t p field = Inr c"
    and vis: "list_all visible t" and field: "valid_field field"
  shows "valid_condition c"
proof -
  define q where "q = skip_ws t (skip_ws t p + 2)"
  obtain fin literal where lit: "parse_literal t q = Inr (fin, literal)"
    and c: "c = CEquals field literal \<or> c = CNotEquals field literal"
  proof (cases "parse_literal t q")
    case (Inr r)
    then show ?thesis
      using that [of "fst r" "snd r"] parse
      by (cases r) (auto simp: parse_comparison_def Let_def q_def [symmetric]
          simp del: add_2_eq_Suc add_2_eq_Suc' split: if_splits dest!: at_end_condition)
  qed (use parse in \<open>auto simp: parse_comparison_def Let_def q_def [symmetric]
         simp del: add_2_eq_Suc add_2_eq_Suc' split: if_splits\<close>)
  show ?thesis using c parse_literal_visible [OF lit vis] field by auto
qed

text \<open>
  A condition the parser accepts is one the runtime can rely on.  Its field is one the
  grammar reads back, its literal and its glob hold no character a person would not see, and its
  glob is not empty, has no white space, is in the collapsed form and carries at most
  \<open>ROUTE_GLOB_MAX_WILDCARDS\<close> wildcards.
\<close>

theorem parse_valid:
  assumes "parse_route_condition t = Inr c"
  shows "valid_condition c"
proof -
  define p where "p = length (takeWhile ws_char t)"
  have vis: "list_all visible t"
    using assms by (auto simp: parse_route_condition_def first_undisplayable_None [symmetric]
        split: if_splits option.splits)
  then have "first_undisplayable t = None" by (simp add: first_undisplayable_None)
  then obtain field where field: "field_exec (drop p t) = Some field"
    and parsed: "parse_only t (p + 4) = Inr c \<or> parse_comparison t (p + length field) field = Inr c"
    using assms by (auto simp: parse_route_condition_def Let_def p_def [symmetric]
        split: if_splits option.splits)
  show ?thesis
    using parsed parse_only_valid [OF _ vis] parse_comparison_valid [OF _ vis field_exec_valid [OF field]]
    by blast
qed

theorem parse_valid_witness:
  "valid_condition (CEquals (js ''pr.author'') (js ''octo''))"
  by (rule parse_valid [of "js ''pr.author == octo''"]) (simp add: rc_eval)

section \<open>Round trip\<close>

lemma takeWhile_hd_not: "s = [] \<or> \<not> P (hd s) \<Longrightarrow> takeWhile P s = []"
  by (cases s) auto

lemma parse_comparison_print:
  assumes field: "valid_field field" and lit: "list_all visible literal"
    and op: "op = js ''=='' \<or> op = js ''!=''"
    and len: "length (field @ op @ json_quote literal) \<le> route_condition_max_chars"
  shows "parse_route_condition (field @ op @ json_quote literal)
    = Inr (if op = js ''=='' then CEquals field literal else CNotEquals field literal)"
proof -
  define t where "t = field @ op @ json_quote literal"
  define n where "n = length field"
  obtain o1 o2 where o: "op = [o1, o2]" "o1 \<in> {61, 33}"
    using op by (auto simp: js_def)
  have stop: "\<not> ident_char o1" "o1 \<noteq> c_dot" "\<not> ws_char o1" "visible o1" "visible o2" "visible c_quote"
    "\<not> ws_char c_quote"
    using o op by (auto simp: ident_char_def ident_start_def digit_char_def ws_char_def visible_def
        control_char_def bidi_char_def js_def)
  have vis: "first_undisplayable t = None"
    using valid_field_visible [OF field] json_escape_visible [OF lit] o stop
    by (simp add: first_undisplayable_None t_def json_quote_def)
  have start: "takeWhile ws_char t = []"
    using valid_field_head [OF field] by (intro takeWhile_hd_not) (simp add: t_def)
  have exec: "field_exec t = Some field"
    using field_exec_stop [OF stop(1,2), of field] field by (simp add: t_def o valid_field_def)
  have notonly: "\<not> (case drop 4 t of [] \<Rightarrow> True | c # r \<Rightarrow> ws_char c)" if "field = js ''only''"
    using that stop by (simp add: t_def o)
  have dn: "drop n t = o1 # o2 # json_quote literal" by (simp add: t_def n_def o)
  have dn2: "drop (n + 2) t = json_quote literal @ []" by (simp add: t_def n_def o)
  have "read_quoted t (n + 2) = Some (length t, literal)"
    using read_quoted_end [OF dn2] by (simp add: t_def n_def o)
  then have literal: "parse_literal t (n + 2) = Inr (length t, literal)"
    using lit dn2 by (simp add: parse_literal_def json_quote_def first_undisplayable_None)
  have "skip_ws t n = n" using dn stop(3) by (rule skip_ws_none)
  moreover have "skip_ws t (n + 2) = n + 2"
    using dn2 stop(7) by (intro skip_ws_none) (simp_all add: json_quote_def)
  moreover have "skip_ws t (length t) = length t" by (simp add: skip_ws_def)
  ultimately have "parse_comparison t n field
      = Inr (if op = js ''=='' then CEquals field literal else CNotEquals field literal)"
    using literal op dn by (auto simp: parse_comparison_def at_end_def Let_def o)
  then show ?thesis
    using len vis start exec notonly
    by (auto simp: parse_route_condition_def Let_def n_def t_def [symmetric])
qed

lemma parse_only_print:
  assumes valid: "valid_condition (COnly glob)"
    and len: "length (print_condition (COnly glob)) \<le> route_condition_max_chars"
  shows "parse_route_condition (print_condition (COnly glob)) = Inr (COnly glob)"
proof -
  define t where "t = print_condition (COnly glob)"
  have t: "t = js ''only'' @ c_space # glob" by (simp add: t_def js_def)
  have glob: "glob \<noteq> []" "list_all (\<lambda>c. \<not> ws_char c) glob" "list_all visible glob"
    "wildcard_over_cap glob = None" "collapse_glob glob = glob"
    using valid by (simp_all add: wildcard_over_cap_None)
  have "list_all visible (js ''only'')" and "visible c_space" and sp: "\<not> ident_char c_space"
    by (simp_all add: rc_eval)
  then have vis: "first_undisplayable t = None"
    using glob(3) by (simp add: first_undisplayable_None t)
  have "takeWhile ws_char (js ''only'' @ c_space # glob) = []"
    by (rule takeWhile_hd_not) (simp add: js_def ws_char_def)
  then have start: "takeWhile ws_char t = []" by (simp add: t)
  have "field_exec (js ''only'') = Some (js ''only'')" by (simp add: rc_eval)
  then have exec: "field_exec t = Some (js ''only'')"
    using field_exec_stop [OF sp, of "js ''only''"] by (simp add: t)
  have d4: "drop 4 t = c_space # glob" and d5: "drop 5 t = glob" by (simp_all add: t)
  have "skip_ws t 4 = 5"
    using glob(1,2) unfolding skip_ws_def d4 by (cases glob) (simp_all add: ws_char_def)
  moreover have all: "takeWhile (\<lambda>c. \<not> ws_char c) glob = glob"
    using glob(2) by (simp add: takeWhile_eq_all_conv list_all_iff)
  moreover have "5 + length glob = length t" by (simp add: t)
  moreover have "skip_ws t (length t) = length t" by (simp add: skip_ws_def)
  ultimately have "parse_only t 4 = Inr (COnly glob)"
    using glob by (simp add: parse_only_def at_end_def Let_def d5 all)
  moreover have "ws_char c_space" by (simp add: ws_char_def)
  ultimately have "parse_route_condition t = Inr (COnly glob)"
    using len [folded t_def] vis start exec d4 by (simp add: parse_route_condition_def Let_def)
  then show ?thesis by (simp add: t_def)
qed

text \<open>
  Claim C29: what the parser accepts can be written down and read back.  For every valid condition
  whose text fits the bound, parsing the printed text gives the condition itself, with the literal
  spelled by \<open>JSON.stringify\<close>.
\<close>

theorem parse_print_roundtrip:
  assumes "valid_condition c" and "length (print_condition c) \<le> route_condition_max_chars"
  shows "parse_route_condition (print_condition c) = Inr c"
proof (cases c)
  case (CEquals field literal)
  then show ?thesis
    using parse_comparison_print [of field literal "js ''==''"] assms by simp
next
  case (CNotEquals field literal)
  then show ?thesis
    using parse_comparison_print [of field literal "js ''!=''"] assms by simp
next
  case (COnly glob)
  then show ?thesis using parse_only_print assms by blast
qed

theorem parse_print_roundtrip_witness:
  "parse_route_condition (print_condition (CNotEquals (js ''title'') [104, 34, 9, 233]))
     = Inr (CNotEquals (js ''title'') [104, 34, 9, 233])"
  by (rule parse_print_roundtrip) (simp_all add: rc_eval)

text \<open>
  A refusal points into the text.  The position the parser gives up at is never past the
  end of the text and never past the bound on a condition's length.
\<close>

theorem parse_refusal_position:
  assumes "parse_route_condition t = Inl (position, problem)"
  shows "position \<le> length t \<and> position \<le> route_condition_max_chars"
  using assms by (rule parse_position_bound)

theorem parse_refusal_position_witness:
  "parse_route_condition (js ''size = 3'') = Inl (5, Expected_Operator)
     \<and> (5::nat) \<le> length (js ''size = 3'') \<and> 5 \<le> route_condition_max_chars"
proof -
  have p: "parse_route_condition (js ''size = 3'') = Inl (5, Expected_Operator)"
    by (simp add: rc_eval)
  show ?thesis using p parse_refusal_position [OF p] by simp
qed

section \<open>What a condition means\<close>

text \<open>The meaning of a glob on a path, said without the matcher's loop.\<close>

definition glob_means :: "jstr \<Rightarrow> jstr \<Rightarrow> bool" where
  "glob_means glob path =
     glob_spec star_segment (glob_spec star_char fits_char)
       (js_split c_slash glob) (js_split c_slash path)"

lemma match_glob_means: "match_glob glob path = glob_means glob path"
proof -
  have "match_segment = glob_spec star_char fits_char"
    by (intro ext) (rule match_segment_spec)
  then show ?thesis by (simp add: match_glob_spec glob_means_def)
qed

text \<open>
  Claim C28: the two-pointer matcher is the meaning of the glob, and collapsing a glob changes no
  answer.  On every glob and path, \<open>matchGlob\<close> holds exactly when the path's segments can be dealt
  to the glob's (a \<open>**\<close> segment any number of them, every other segment one, whose characters are
  dealt the same way to \<open>*\<close>, \<open>?\<close> and the plain characters), for the glob as typed and as collapsed.
\<close>

theorem match_glob_correct:
  "match_glob glob path = glob_means glob path
     \<and> match_glob (collapse_glob glob) path = glob_means glob path"
  using match_collapse_glob [of glob path] by (simp add: match_glob_means)

text \<open>
  What \<open>only\<close> asks.  It holds exactly when the input's \<open>files\<close> is a list with at least
  one entry and every entry is a string whose path the glob means; an absent, empty or ill-typed
  \<open>files\<close> is a route not taken.
\<close>

theorem evaluate_only:
  "evaluate_route_condition (COnly glob) input \<longleftrightarrow>
     (\<exists>paths. paths \<noteq> [] \<and> map_of input (js ''files'') = Some (JArr (map JStr paths))
        \<and> list_all (glob_means glob) paths)"
proof -
  have field: "lookup_field input (js ''files'') = map_of input (js ''files'')"
  proof -
    have "js_split c_dot (js ''files'') = [js ''files'']" by (simp add: js_def)
    then show ?thesis by (simp add: lookup_field_def split: option.split)
  qed
  have strings: "list_all (\<lambda>file. case file of JStr path \<Rightarrow> match_glob glob path | _ \<Rightarrow> False) files
      \<longleftrightarrow> (\<exists>paths. files = map JStr paths \<and> list_all (glob_means glob) paths)" for files
  proof (induction files)
    case (Cons f fs)
    have "\<exists>paths. f # fs = map JStr paths \<and> list_all (glob_means glob) paths"
      if "f = JStr path" "glob_means glob path" "fs = map JStr paths" "list_all (glob_means glob) paths"
      for path paths
      using that by (intro exI [of _ "path # paths"]) simp
    then have "(\<exists>paths. f # fs = map JStr paths \<and> list_all (glob_means glob) paths)
        \<longleftrightarrow> (\<exists>path. f = JStr path \<and> glob_means glob path)
            \<and> (\<exists>paths. fs = map JStr paths \<and> list_all (glob_means glob) paths)"
      by (auto simp: Cons_eq_map_conv)
    then show ?case using Cons by (cases f) (simp_all add: match_glob_means)
  qed simp
  show ?thesis
    by (auto simp: field strings split: option.splits json.splits)
qed

end
