(* ===== verification/Graph_Document.thy ===== *)
theory Graph_Document
  imports Route_Condition
begin

text \<open>
  \<open>packages/protocol/src/graph.ts\<close>: the graph document, what its schema refuses, and
  \<open>graphIncoming\<close>, the one reading of which nodes can hand a run on to a node.

  The schema is modelled as the check it applies to a document that has the right shape (the shape
  is the type \<open>graph_document\<close>); ids that the canvas mints are strings.
\<close>

type_synonym node_id = jstr

datatype graph_placement = Cheapest | Pin jstr

record graph_retry =
  retry_max :: nat
  retry_backoff :: nat

record graph_route =
  route_condition_text :: jstr
  route_to :: node_id

text \<open>What each of the seven kinds carries besides the base node.\<close>

datatype graph_node_body =
    Trigger
  | Router jstr "graph_route list" "node_id option"
  | Agent jstr jstr jstr
  | Subgraph jstr nat
  | Human "jstr list" "nat option"
  | Action jstr
  | Join

record graph_node =
  gn_id :: node_id
  gn_label :: jstr
  gn_position :: "jstr \<times> jstr"
  gn_placement :: graph_placement
  gn_retry :: graph_retry
  gn_body :: graph_node_body

record graph_edge =
  edge_from :: node_id
  edge_to :: node_id

record graph_document =
  doc_nodes :: "graph_node list"
  doc_edges :: "graph_edge list"

datatype node_kind = KTrigger | KRouter | KAgent | KSubgraph | KHuman | KAction | KJoin

definition kind_of :: "graph_node \<Rightarrow> node_kind" where
  "kind_of n = (case gn_body n of
       Trigger \<Rightarrow> KTrigger | Router _ _ _ \<Rightarrow> KRouter | Agent _ _ _ \<Rightarrow> KAgent
     | Subgraph _ _ \<Rightarrow> KSubgraph | Human _ _ \<Rightarrow> KHuman | Action _ \<Rightarrow> KAction | Join \<Rightarrow> KJoin)"

definition empty_graph_document :: graph_document where
  "empty_graph_document = \<lparr>doc_nodes = [], doc_edges = []\<rparr>"

section \<open>The bounds\<close>

definition graph_nodes_max :: nat where "graph_nodes_max = 64"
definition graph_label_max_chars :: nat where "graph_label_max_chars = 120"
definition graph_prompt_max_chars :: nat where "graph_prompt_max_chars = 4000"
definition graph_routes_max :: nat where "graph_routes_max = 16"
definition graph_approvers_max :: nat where "graph_approvers_max = 16"
definition graph_retry_backoff_max_seconds :: nat where "graph_retry_backoff_max_seconds = 3600"
definition graph_human_timeout_max_minutes :: nat where
  "graph_human_timeout_max_minutes = 14 * 24 * 60"
definition graph_retry_max :: nat where "graph_retry_max = 10"

lemmas graph_bounds = graph_nodes_max_def graph_label_max_chars_def graph_prompt_max_chars_def
  graph_routes_max_def graph_approvers_max_def graph_retry_backoff_max_seconds_def
  graph_human_timeout_max_minutes_def graph_retry_max_def

section \<open>What the schema refuses\<close>

definition graph_id_char :: "jchar \<Rightarrow> bool" where
  "graph_id_char c \<longleftrightarrow> ident_char c \<or> c = c_minus"

definition graph_node_id_ok :: "node_id \<Rightarrow> bool" where
  "graph_node_id_ok i \<longleftrightarrow> 1 \<le> length i \<and> length i \<le> 64 \<and> list_all graph_id_char i"

definition graph_retry_ok :: "graph_retry \<Rightarrow> bool" where
  "graph_retry_ok r \<longleftrightarrow> retry_max r \<le> graph_retry_max
     \<and> 1 \<le> retry_backoff r \<and> retry_backoff r \<le> graph_retry_backoff_max_seconds"

definition short_text :: "jstr \<Rightarrow> bool" where
  "short_text s \<longleftrightarrow> 1 \<le> length s \<and> length s \<le> 64"

definition route_condition_text_ok :: "jstr \<Rightarrow> bool" where
  "route_condition_text_ok t \<longleftrightarrow>
     length t \<le> route_condition_max_chars \<and> (case parse_route_condition t of Inl _ \<Rightarrow> False | Inr _ \<Rightarrow> True)"

definition graph_route_ok :: "graph_route \<Rightarrow> bool" where
  "graph_route_ok r \<longleftrightarrow>
     route_condition_text_ok (route_condition_text r) \<and> graph_node_id_ok (route_to r)"

fun graph_body_ok :: "graph_node_body \<Rightarrow> bool" where
  "graph_body_ok Trigger = True"
| "graph_body_ok (Router model routes otherwise) \<longleftrightarrow>
     short_text model \<and> length routes \<le> graph_routes_max \<and> list_all graph_route_ok routes
       \<and> (case otherwise of None \<Rightarrow> True | Some i \<Rightarrow> graph_node_id_ok i)"
| "graph_body_ok (Agent prompt provider store) \<longleftrightarrow> length prompt \<le> graph_prompt_max_chars"
| "graph_body_ok (Subgraph graph version) \<longleftrightarrow> 1 \<le> version"
| "graph_body_ok (Human approvers timeout) \<longleftrightarrow>
     1 \<le> length approvers \<and> length approvers \<le> graph_approvers_max \<and> list_all short_text approvers
       \<and> (case timeout of None \<Rightarrow> True
            | Some m \<Rightarrow> 1 \<le> m \<and> m \<le> graph_human_timeout_max_minutes)"
| "graph_body_ok (Action name) \<longleftrightarrow> short_text name"
| "graph_body_ok Join = True"

definition graph_node_ok :: "graph_node \<Rightarrow> bool" where
  "graph_node_ok n \<longleftrightarrow> graph_node_id_ok (gn_id n) \<and> length (gn_label n) \<le> graph_label_max_chars
     \<and> graph_retry_ok (gn_retry n) \<and> graph_body_ok (gn_body n)"

text \<open>The issues \<open>superRefine\<close> adds, in its order: shared ids, then ids that name no node.\<close>

datatype graph_issue =
    Shared_Id node_id
  | Edge_Names node_id
  | Route_Names node_id node_id
  | Otherwise_Names node_id node_id

fun shared_ids :: "node_id list \<Rightarrow> graph_node list \<Rightarrow> graph_issue list" where
  "shared_ids ids [] = []"
| "shared_ids ids (n # ns) =
     (if gn_id n \<in> set ids then Shared_Id (gn_id n) # shared_ids ids ns
      else shared_ids (gn_id n # ids) ns)"

definition must_exist :: "node_id list \<Rightarrow> node_id \<Rightarrow> (node_id \<Rightarrow> graph_issue) \<Rightarrow> graph_issue list" where
  "must_exist ids i what = (if i \<in> set ids then [] else [what i])"

definition node_issues :: "node_id list \<Rightarrow> graph_node \<Rightarrow> graph_issue list" where
  "node_issues ids n =
     (case gn_body n of
        Router model routes otherwise \<Rightarrow>
          concat (map (\<lambda>r. must_exist ids (route_to r) (Route_Names (gn_id n))) routes)
          @ (case otherwise of None \<Rightarrow> [] | Some i \<Rightarrow> must_exist ids i (Otherwise_Names (gn_id n)))
      | _ \<Rightarrow> [])"

definition document_issues :: "graph_document \<Rightarrow> graph_issue list" where
  "document_issues d =
     (let ids = map gn_id (doc_nodes d)
      in shared_ids [] (doc_nodes d)
         @ concat (map (\<lambda>e. must_exist ids (edge_from e) Edge_Names @ must_exist ids (edge_to e) Edge_Names)
             (doc_edges d))
         @ concat (map (node_issues ids) (doc_nodes d)))"

definition graph_document_ok :: "graph_document \<Rightarrow> bool" where
  "graph_document_ok d \<longleftrightarrow>
     length (doc_nodes d) \<le> graph_nodes_max \<and> length (doc_edges d) \<le> graph_nodes_max * 4
       \<and> list_all graph_node_ok (doc_nodes d)
       \<and> list_all (\<lambda>e. graph_node_id_ok (edge_from e) \<and> graph_node_id_ok (edge_to e)) (doc_edges d)
       \<and> document_issues d = []"

section \<open>Incoming\<close>

definition leads_to :: "node_id \<Rightarrow> graph_node \<Rightarrow> bool" where
  "leads_to i n \<longleftrightarrow>
     (case gn_body n of
        Router model routes otherwise \<Rightarrow>
          list_ex (\<lambda>r. route_to r = i) routes \<or> otherwise = Some i
      | _ \<Rightarrow> False)"

definition graph_incoming :: "graph_document \<Rightarrow> node_id \<Rightarrow> node_id list" where
  "graph_incoming d i =
     (let sources = foldl (\<lambda>acc e. if edge_to e = i then set_add (edge_from e) acc else acc) []
                      (doc_edges d)
      in foldl (\<lambda>acc n. if leads_to i n then set_add (gn_id n) acc else acc) sources (doc_nodes d))"

text \<open>The node of that id, when the document has one.\<close>

definition node_by_id :: "graph_document \<Rightarrow> node_id \<Rightarrow> graph_node option" where
  "node_by_id d i = find (\<lambda>n. gn_id n = i) (rev (doc_nodes d))"

section \<open>Facts the walk and the publish rules use\<close>

lemma foldl_set_add:
  "set (foldl (\<lambda>acc x. if P x then set_add (f x) acc else acc) acc xs)
     = set acc \<union> f ` {x \<in> set xs. P x}"
  by (induction xs arbitrary: acc) auto

lemma distinct_foldl_set_add:
  "distinct (foldl (\<lambda>acc x. if P x then set_add (f x) acc else acc) acc xs) \<longleftrightarrow> distinct acc"
  by (induction xs arbitrary: acc) auto

lemma set_graph_incoming:
  "set (graph_incoming d i) =
     edge_from ` {e \<in> set (doc_edges d). edge_to e = i} \<union> gn_id ` {n \<in> set (doc_nodes d). leads_to i n}"
  by (simp add: graph_incoming_def Let_def foldl_set_add)

lemma distinct_graph_incoming: "distinct (graph_incoming d i)"
  by (simp add: graph_incoming_def Let_def distinct_foldl_set_add)

lemma shared_ids_Nil: "shared_ids ids ns = [] \<longleftrightarrow> distinct (map gn_id ns) \<and> set ids \<inter> gn_id ` set ns = {}"
  by (induction ns arbitrary: ids) auto

lemma must_exist_Nil: "must_exist ids i what = [] \<longleftrightarrow> i \<in> set ids"
  by (simp add: must_exist_def)

lemma document_ok_distinct: "graph_document_ok d \<Longrightarrow> distinct (map gn_id (doc_nodes d))"
  by (simp add: graph_document_ok_def document_issues_def Let_def shared_ids_Nil)

lemma document_ok_edges:
  "graph_document_ok d \<Longrightarrow> e \<in> set (doc_edges d) \<Longrightarrow>
     edge_from e \<in> gn_id ` set (doc_nodes d) \<and> edge_to e \<in> gn_id ` set (doc_nodes d)"
  by (auto simp: graph_document_ok_def document_issues_def Let_def must_exist_Nil)

lemma document_ok_routes:
  assumes "graph_document_ok d" and "n \<in> set (doc_nodes d)"
    and "gn_body n = Router model routes otherwise"
  shows "r \<in> set routes \<Longrightarrow> route_to r \<in> gn_id ` set (doc_nodes d)"
    and "otherwise = Some i \<Longrightarrow> i \<in> gn_id ` set (doc_nodes d)"
proof -
  have "node_issues (map gn_id (doc_nodes d)) n = []"
    using assms(1,2) by (simp add: graph_document_ok_def document_issues_def Let_def)
  then show "r \<in> set routes \<Longrightarrow> route_to r \<in> gn_id ` set (doc_nodes d)"
    and "otherwise = Some i \<Longrightarrow> i \<in> gn_id ` set (doc_nodes d)"
    using assms(3) by (auto simp: node_issues_def must_exist_Nil)
qed

lemma document_ok_retry: "graph_document_ok d \<Longrightarrow> n \<in> set (doc_nodes d) \<Longrightarrow> retry_max (gn_retry n) \<le> graph_retry_max"
  by (simp add: graph_document_ok_def list_all_iff graph_node_ok_def graph_retry_ok_def)

lemma node_by_id_Some:
  "node_by_id d i = Some n \<Longrightarrow> n \<in> set (doc_nodes d) \<and> gn_id n = i"
  by (auto simp: node_by_id_def find_Some_iff dest: nth_mem)
     (metis length_rev nth_mem set_rev)

lemma node_by_id_ex: "i \<in> gn_id ` set (doc_nodes d) \<Longrightarrow> \<exists>n. node_by_id d i = Some n"
  by (cases "node_by_id d i") (auto simp: node_by_id_def find_None_iff)

text \<open>
  Claim C30: every reference a document the schema accepts makes is to one node of it.  No two nodes
  share an id, both ends of every edge and every target of a router are ids of nodes, and the
  sources \<open>graphIncoming\<close> lists for any node are nodes of the document, each listed once.
\<close>

theorem document_references:
  assumes "graph_document_ok d"
  shows "distinct (map gn_id (doc_nodes d))
     \<and> (\<forall>e \<in> set (doc_edges d). \<exists>m n. node_by_id d (edge_from e) = Some m \<and> node_by_id d (edge_to e) = Some n)
     \<and> (\<forall>n i. n \<in> set (doc_nodes d) \<longrightarrow> leads_to i n \<longrightarrow> (\<exists>m. node_by_id d i = Some m))
     \<and> (\<forall>i. distinct (graph_incoming d i) \<and> set (graph_incoming d i) \<subseteq> gn_id ` set (doc_nodes d))"
proof (intro conjI allI impI ballI)
  show "distinct (map gn_id (doc_nodes d))" by (rule document_ok_distinct [OF assms])
  show "\<exists>m n. node_by_id d (edge_from e) = Some m \<and> node_by_id d (edge_to e) = Some n"
    if "e \<in> set (doc_edges d)" for e
    using document_ok_edges [OF assms that] node_by_id_ex by blast
  show "\<exists>m. node_by_id d i = Some m" if n: "n \<in> set (doc_nodes d)" and to: "leads_to i n" for n i
  proof (cases "gn_body n")
    case (Router model routes otherwise)
    then have "(\<exists>r \<in> set routes. route_to r = i) \<or> otherwise = Some i"
      using to by (simp add: leads_to_def list_ex_iff)
    then show ?thesis
      using document_ok_routes [OF assms n Router] node_by_id_ex by blast
  qed (use to in \<open>simp_all add: leads_to_def\<close>)
  show "distinct (graph_incoming d i)" for i by (rule distinct_graph_incoming)
  show "set (graph_incoming d i) \<subseteq> gn_id ` set (doc_nodes d)" for i
    using document_ok_edges [OF assms] by (auto simp: set_graph_incoming)
qed

section \<open>A document to evaluate on\<close>

text \<open>A trigger that fans out to two agents, a join of the two, and a router after it.\<close>

definition plain_node :: "string \<Rightarrow> graph_node_body \<Rightarrow> graph_node" where
  "plain_node i body = \<lparr>gn_id = js i, gn_label = js i, gn_position = (js ''0'', js ''0''),
     gn_placement = Cheapest, gn_retry = \<lparr>retry_max = 1, retry_backoff = 5\<rparr>, gn_body = body\<rparr>"

definition review_graph :: graph_document where
  "review_graph = \<lparr>
     doc_nodes = [plain_node ''t'' Trigger,
       plain_node ''a'' (Agent (js ''read'') (js ''claude'') (js ''s'')),
       plain_node ''b'' (Agent (js ''lint'') (js ''claude'') (js ''s'')),
       plain_node ''j'' Join,
       plain_node ''r'' (Router (js ''none'') [\<lparr>route_condition_text = js ''x == 1'', route_to = js ''a''\<rparr>] None)],
     doc_edges = [\<lparr>edge_from = js ''t'', edge_to = js ''a''\<rparr>, \<lparr>edge_from = js ''t'', edge_to = js ''b''\<rparr>,
       \<lparr>edge_from = js ''a'', edge_to = js ''j''\<rparr>, \<lparr>edge_from = js ''b'', edge_to = js ''j''\<rparr>,
       \<lparr>edge_from = js ''j'', edge_to = js ''r''\<rparr>]\<rparr>"

lemma review_graph_ok: "graph_document_ok review_graph"
proof -
  have "parse_route_condition (js ''x == 1'') = Inr (CEquals (js ''x'') (js ''1''))"
    by (simp add: rc_eval)
  then show ?thesis
    by (simp add: graph_document_ok_def review_graph_def plain_node_def document_issues_def Let_def
        node_issues_def must_exist_def graph_node_ok_def graph_node_id_ok_def graph_id_char_def
        graph_retry_ok_def short_text_def graph_route_ok_def route_condition_text_ok_def graph_bounds)
      (simp add: js_def graph_id_char_def ident_char_def ident_start_def route_condition_max_chars_def)
qed

theorem document_references_witness:
  "graph_document_ok review_graph
     \<and> set (graph_incoming review_graph (js ''j'')) \<subseteq> gn_id ` set (doc_nodes review_graph)"
  using document_references [OF review_graph_ok] review_graph_ok by blast

end
