(* ===== verification/Walker.thy ===== *)
theory Walker
  imports Graph_Document
begin

text \<open>
  \<open>apps/hub/src/graph-runs/walker.ts\<close>: the walk of a published document.

  \<open>walk_state\<close> holds the variables \<open>walk\<close> closes over, and the live calls of \<open>branch\<close>: which node
  each is at, what it carries, the nodes behind it and which \<open>await\<close> it is suspended at.  Code
  between two \<open>await\<close>s runs without interruption, so one event of the machine is one such stretch:
  an executor's promise settling, a backoff timer firing or being cut short, a branch going on with
  what its attempts came to, an executor's \<open>waiting\<close> and \<open>child\<close> calls, and the run's cancel.  Any
  interleaving of the branches is a list of events.  What an executor answers is part of the event;
  the three executors written in this file (\<open>trigger\<close>, \<open>join\<close>, \<open>router\<close>) are functions here.

  A sentence the code composes for a person is a constructor of \<open>walk_problem\<close> with the values it
  names.  \<open>onStep\<close> and \<open>onEnd\<close> are logs: \<open>w_reports\<close> and \<open>w_ends\<close>, oldest first.
\<close>

section \<open>Results and reports\<close>

definition graph_run_steps_max :: nat where
  "graph_run_steps_max = graph_nodes_max * (graph_retry_max + 1)"

definition graph_run_output_max_chars :: nat where "graph_run_output_max_chars = 1000"

datatype step_output =
    OText jstr
  | ORoute "nat option" node_id
  | OSession jstr jstr jstr

datatype step_outcome = SRunning | SWaiting | SSucceeded | SFailed | SCancelled

text \<open>\<open>StepFail problem retryable\<close>: a failure is retryable unless it says otherwise.\<close>

datatype step_result =
    StepOk route_input "step_output option" "node_id option"
  | StepFail jstr bool

type_synonym run_child = "jstr \<times> nat"

text \<open>The recorder of one attempt: which record it writes, and the child the attempt named.\<close>

record recorder =
  rc_attempt :: nat
  rc_record :: nat
  rc_child :: "run_child option"

record step_report =
  rep_node :: node_id
  rep_attempt :: nat
  rep_outcome :: step_outcome
  rep_output :: "step_output option"
  rep_child :: "run_child option"
  rep_reached :: nat
  rep_record :: nat
  rep_retrying :: nat

text \<open>How wide a merge came to, and why it is no route input.\<close>

type_synonym merge_problem = "nat \<times> input_problem"

datatype walk_problem =
    No_Single_Trigger nat
  | Cannot_Execute graph_node
  | Looping graph_node nat
  | Too_Many_Steps graph_node nat
  | Failed_Once graph_node jstr
  | Failed_Decision graph_node nat jstr
  | Failed_All graph_node nat jstr
  | Routed_Nowhere graph_node node_id
  | Join_Merge graph_node merge_problem
  | Join_Never_Reached graph_node "node_id list"
  | Join_Reached_Again graph_node nat "node_id list" "node_id list"
  | End_Merge nat merge_problem

datatype walk_outcome =
    W_Succeeded route_input
  | W_Failed walk_problem bool
  | W_Cancelled

section \<open>The executors this file writes\<close>

text \<open>What to call a node in a sentence: its label, or its id when it has none.\<close>

definition name_of :: "graph_node \<Rightarrow> jstr" where
  "name_of n = (if js_trim (gn_label n) \<noteq> [] then gn_label n else gn_id n)"

definition trigger_executor :: "route_input \<Rightarrow> step_result" where
  "trigger_executor input =
     StepOk input (Some (OText (take graph_run_output_max_chars (json_text (JObj input))))) None"

definition join_executor :: "route_input \<Rightarrow> step_result" where
  "join_executor input = StepOk input None None"

text \<open>Why a router fails: the condition that does not parse, or that nothing matched.\<close>

datatype router_problem = Unparsed jstr nat rc_problem | No_Route

fun router_scan ::
    "nat \<Rightarrow> graph_route list \<Rightarrow> route_input \<Rightarrow> (router_problem + nat \<times> node_id) option" where
  "router_scan index [] input = None"
| "router_scan index (route # routes) input =
     (case parse_route_condition (route_condition_text route) of
        Inl (position, problem) \<Rightarrow> Some (Inl (Unparsed (route_condition_text route) position problem))
      | Inr condition \<Rightarrow>
          if evaluate_route_condition condition input then Some (Inr (index, route_to route))
          else router_scan (index + 1) routes input)"

text \<open>\<open>say\<close> is the sentence of a router's problem; the model does not spell it.\<close>

definition router_executor ::
    "(router_problem \<Rightarrow> jstr) \<Rightarrow> graph_route list \<Rightarrow> node_id option \<Rightarrow> route_input \<Rightarrow> step_result" where
  "router_executor say routes otherwise input =
     (case router_scan 0 routes input of
        Some (Inl problem) \<Rightarrow> StepFail (say problem) True
      | Some (Inr (index, target)) \<Rightarrow>
          StepOk input (Some (ORoute (Some index) target)) (Some target)
      | None \<Rightarrow>
          (case otherwise of
             Some target \<Rightarrow> StepOk input (Some (ORoute None target)) (Some target)
           | None \<Rightarrow> StepFail (say No_Route) True))"

section \<open>The state\<close>

record arrival =
  arr_carried :: route_input
  arr_behind :: "node_id set"

record going = arrival +
  go_node :: graph_node

datatype decision =
    Decided_Ok route_input "step_output option" "node_id option" recorder
  | Decided_Failed walk_problem bool recorder
  | Decided_Halted "recorder option"

text \<open>Which \<open>await\<close> a branch is at, and with what it goes on.\<close>

datatype phase =
    Executing recorder
  | Backing_Off nat
  | Resuming nat bool
  | Deciding decision

record branch =
  br_node :: graph_node
  br_carried :: route_input
  br_behind :: "node_id set"
  br_phase :: phase

text \<open>What \<open>walk\<close> is called with: \<open>cfg_action\<close> says the table answers for ACTION (a simulation's).\<close>

record walk_config =
  cfg_document :: graph_document
  cfg_input :: route_input
  cfg_action :: bool
  cfg_in_turn :: bool

record walk_state =
  w_failure :: "(walk_problem \<times> bool) option"
  w_reached :: nat
  w_looped :: bool
  w_retrying :: nat
  w_live :: nat
  w_queue :: "going list"
  w_leaves :: "(node_id \<times> route_input list) list"
  w_records :: nat
  w_arrivals :: "(node_id \<times> (node_id \<times> arrival list) list) list"
  w_joined :: "(node_id \<times> nat) list"
  w_cancelled :: bool
  w_halted :: bool
  w_branches :: "(nat \<times> branch) list"
  w_next_branch :: nat
  w_reports :: "step_report list"
  w_ends :: "walk_outcome list"

definition fresh_walk :: walk_state where
  "fresh_walk = \<lparr>w_failure = None, w_reached = 0, w_looped = False, w_retrying = 0, w_live = 0,
     w_queue = [], w_leaves = [], w_records = 0, w_arrivals = [], w_joined = [],
     w_cancelled = False, w_halted = False, w_branches = [], w_next_branch = 0,
     w_reports = [], w_ends = []\<rparr>"

section \<open>Halting, failing, ending\<close>

text \<open>\<open>halt.cancel()\<close>: every backoff wait is cut short, and its branch goes on with \<open>false\<close>.\<close>

definition wake :: "branch \<Rightarrow> branch" where
  "wake b = (case br_phase b of
       Backing_Off attempt \<Rightarrow> b\<lparr>br_phase := Resuming attempt False\<rparr>
     | _ \<Rightarrow> b)"

definition halt_walk :: "walk_state \<Rightarrow> walk_state" where
  "halt_walk st =
     (if w_halted st then st
      else st\<lparr>w_halted := True, w_branches := map (\<lambda>(i, b). (i, wake b)) (w_branches st)\<rparr>)"

definition fail_walk :: "walk_problem \<Rightarrow> bool \<Rightarrow> walk_state \<Rightarrow> walk_state" where
  "fail_walk reason retryable st =
     (if w_halted st then st else halt_walk (st\<lparr>w_failure := Some (reason, retryable)\<rparr>))"

definition cancel_walk :: "walk_state \<Rightarrow> walk_state" where
  "cancel_walk st = (if w_cancelled st then st else halt_walk (st\<lparr>w_cancelled := True\<rparr>))"

definition end_walk :: "walk_outcome \<Rightarrow> walk_state \<Rightarrow> walk_state" where
  "end_walk outcome st = st\<lparr>w_ends := w_ends st @ [outcome]\<rparr>"

definition as_input :: "route_input \<Rightarrow> merge_problem + route_input" where
  "as_input ps =
     (case route_input_problem ps of
        None \<Rightarrow> Inr ps
      | Some why \<Rightarrow> Inl (length (json_text (JObj ps)), why))"

text \<open>Entries a \<open>Map\<close> of lists holds for a key: none for a key that is not there.\<close>

definition entries :: "('k \<times> 'v list) list \<Rightarrow> 'k \<Rightarrow> 'v list" where
  "entries m k = (case map_of m k of None \<Rightarrow> [] | Some vs \<Rightarrow> vs)"

definition joined_times :: "walk_state \<Rightarrow> node_id \<Rightarrow> nat" where
  "joined_times st i = (case map_of (w_joined st) i of None \<Rightarrow> 0 | Some n \<Rightarrow> n)"

section \<open>Joins\<close>

text \<open>The loop that takes the oldest arrival of each expected node.\<close>

fun take_oldest ::
    "node_id list \<Rightarrow> (jstr \<times> json) list \<Rightarrow> node_id set \<Rightarrow> (node_id \<times> arrival list) list
       \<Rightarrow> (jstr \<times> json) list \<times> node_id set \<times> (node_id \<times> arrival list) list" where
  "take_oldest [] made behind held = (made, behind, held)"
| "take_oldest (i # is) made behind held =
     (case entries held i of
        [] \<Rightarrow> take_oldest is made behind (AList.delete i held)
      | oldest # later \<Rightarrow>
          take_oldest is (obj_assign i (JObj (arr_carried oldest)) made) (behind \<union> arr_behind oldest)
            (if later = [] then AList.delete i held else AList.update i later held))"

datatype join_answer = Still_Out | Join_Problem walk_problem | Join_Goes arrival

definition arrive ::
    "graph_document \<Rightarrow> walk_state \<Rightarrow> graph_node \<Rightarrow> node_id \<Rightarrow> arrival \<Rightarrow> walk_state \<times> join_answer" where
  "arrive document st join from arrival =
     (let expected = graph_incoming document (gn_id join);
          held = entries (w_arrivals st) (gn_id join);
          held1 = AList.update from (entries held from @ [arrival]) held;
          st1 = st\<lparr>w_arrivals := AList.update (gn_id join) held1 (w_arrivals st)\<rparr>
      in if list_ex (\<lambda>i. entries held1 i = []) expected then (st1, Still_Out)
         else (case take_oldest expected [] {} held1 of
                 (made, behind, held2) \<Rightarrow>
                   (let st2 = st1\<lparr>
                          w_arrivals := (if held2 = [] then AList.delete (gn_id join) (w_arrivals st1)
                            else AList.update (gn_id join) held2 (w_arrivals st1)),
                          w_joined := AList.update (gn_id join) (joined_times st (gn_id join) + 1) (w_joined st)\<rparr>
                    in (case as_input [(js ''branches'', JObj made)] of
                          Inl problem \<Rightarrow> (st2, Join_Problem (Join_Merge join problem))
                        | Inr input \<Rightarrow>
                            (st2, Join_Goes \<lparr>arr_carried = input, arr_behind = behind\<rparr>)))))"

section \<open>The end of the run\<close>

text \<open>The first JOIN still holding arrivals, and what the run then says.\<close>

fun left_waiting ::
    "graph_document \<Rightarrow> walk_state \<Rightarrow> (node_id \<times> (node_id \<times> arrival list) list) list \<Rightarrow> walk_problem option" where
  "left_waiting document st [] = None"
| "left_waiting document st ((joinId, held) # rest) =
     (case node_by_id document joinId of
        None \<Rightarrow> left_waiting document st rest
      | Some join \<Rightarrow>
          (let incoming = graph_incoming document joinId;
               missing = filter (\<lambda>i. map_of held i = None) incoming;
               came = filter (\<lambda>i. map_of held i \<noteq> None) incoming;
               times = joined_times st joinId
           in Some (if times = 0 then Join_Never_Reached join missing
                    else Join_Reached_Again join times came missing)))"

definition ended_nodes :: "graph_document \<Rightarrow> walk_state \<Rightarrow> graph_node list" where
  "ended_nodes document st =
     filter (\<lambda>n. gn_id n \<in> fst ` set (w_leaves st)) (doc_nodes document)"

definition leaf_value :: "route_input list \<Rightarrow> json" where
  "leaf_value outputs =
     (case outputs of [only] \<Rightarrow> JObj only | _ \<Rightarrow> JArr (map JObj outputs))"

definition merge_leaves :: "graph_node list \<Rightarrow> walk_state \<Rightarrow> (jstr \<times> json) list" where
  "merge_leaves nodes st =
     foldl (\<lambda>made n. (case entries (w_leaves st) (gn_id n) of
                        [] \<Rightarrow> made
                      | first # rest \<Rightarrow> obj_assign (gn_id n) (leaf_value (first # rest)) made))
       [] nodes"

definition leaf_count :: "graph_node list \<Rightarrow> walk_state \<Rightarrow> nat" where
  "leaf_count nodes st = sum_list (map (\<lambda>n. length (entries (w_leaves st) (gn_id n))) nodes)"

definition walk_result :: "walk_config \<Rightarrow> walk_state \<Rightarrow> walk_outcome" where
  "walk_result cfg st =
     (case w_failure st of
        Some (reason, retryable) \<Rightarrow> W_Failed reason retryable
      | None \<Rightarrow>
          if w_cancelled st then W_Cancelled
          else (case left_waiting (cfg_document cfg) st (w_arrivals st) of
                  Some problem \<Rightarrow> W_Failed problem True
                | None \<Rightarrow>
                    (let ended = ended_nodes (cfg_document cfg) st
                     in case map (\<lambda>n. entries (w_leaves st) (gn_id n)) ended of
                          [[only]] \<Rightarrow> W_Succeeded only
                        | [] \<Rightarrow> W_Succeeded (cfg_input cfg)
                        | _ \<Rightarrow>
                            (case as_input [(js ''branches'', JObj (merge_leaves ended st))] of
                               Inl problem \<Rightarrow> W_Failed (End_Merge (leaf_count ended st) problem) True
                             | Inr output \<Rightarrow> W_Succeeded output))))"

definition finish_walk :: "walk_config \<Rightarrow> walk_state \<Rightarrow> walk_state" where
  "finish_walk cfg st = end_walk (walk_result cfg st) st"

section \<open>Branches\<close>

text \<open>\<open>executorFor\<close>: every kind has an executor, ACTION only in a simulation's table.\<close>

definition has_executor :: "walk_config \<Rightarrow> graph_node \<Rightarrow> bool" where
  "has_executor cfg n \<longleftrightarrow> kind_of n \<noteq> KAction \<or> cfg_action cfg"

definition report ::
    "graph_node \<Rightarrow> recorder \<Rightarrow> step_outcome \<Rightarrow> step_output option \<Rightarrow> walk_state \<Rightarrow> walk_state" where
  "report n rc outcome output st =
     st\<lparr>w_reports := w_reports st @
          [\<lparr>rep_node = gn_id n, rep_attempt = rc_attempt rc, rep_outcome = outcome,
            rep_output = output, rep_child = rc_child rc, rep_reached = w_reached st,
            rep_record = rc_record rc, rep_retrying = w_retrying st\<rparr>]\<rparr>"

definition put_branch :: "nat \<Rightarrow> branch \<Rightarrow> walk_state \<Rightarrow> walk_state" where
  "put_branch i b st = st\<lparr>w_branches := (i, b) # w_branches st\<rparr>"

text \<open>\<open>attemptAt\<close> up to its \<open>await\<close>: a record of its own, reported running.\<close>

definition begin_attempt ::
    "nat \<Rightarrow> graph_node \<Rightarrow> route_input \<Rightarrow> node_id set \<Rightarrow> nat \<Rightarrow> walk_state \<Rightarrow> walk_state" where
  "begin_attempt i n carried behind attempt st =
     (let record_id = w_records st + 1;
          rc = \<lparr>rc_attempt = attempt, rc_record = record_id, rc_child = None\<rparr>
      in put_branch i \<lparr>br_node = n, br_carried = carried, br_behind = behind, br_phase = Executing rc\<rparr>
           (report n rc SRunning None (st\<lparr>w_records := record_id\<rparr>)))"

text \<open>
  The top of \<open>branch\<close>'s loop, up to the first attempt.  The second component says whether the
  branch is still walking; when it is not, \<open>branchEnded\<close> is next.
\<close>

definition enter_node ::
    "walk_config \<Rightarrow> nat \<Rightarrow> graph_node \<Rightarrow> route_input \<Rightarrow> node_id set \<Rightarrow> walk_state \<Rightarrow> walk_state \<times> bool" where
  "enter_node cfg i n carried behind st =
     (if w_halted st then (st, False)
      else (let st1 = st\<lparr>w_reached := w_reached st + 1,
                         w_looped := w_looped st \<or> gn_id n \<in> behind\<rparr>
            in if graph_nodes_max < w_reached st1
               then (fail_walk (if w_looped st1 then Looping n (w_reached st1)
                                else Too_Many_Steps n (w_reached st1)) True st1, False)
               else if \<not> has_executor cfg n then (fail_walk (Cannot_Execute n) True st1, False)
               else (begin_attempt i n carried (insert (gn_id n) behind) 0 st1, True)))"

lemma fail_walk_queue [simp]: "w_queue (fail_walk r b st) = w_queue st"
  by (simp add: fail_walk_def halt_walk_def)

lemma begin_attempt_queue [simp]: "w_queue (begin_attempt i n c bh a st) = w_queue st"
  by (simp add: begin_attempt_def put_branch_def report_def Let_def)

lemma enter_node_queue: "enter_node cfg i n c bh st = (st', alive) \<Longrightarrow> w_queue st' = w_queue st"
  by (auto simp: enter_node_def Let_def split: if_splits)

text \<open>\<open>branchEnded\<close>: the next branch in turn, or the end of the run when none is left.\<close>

function branch_ended :: "walk_config \<Rightarrow> walk_state \<Rightarrow> walk_state" where
  "branch_ended cfg st =
     (case w_queue st of
        g # queue \<Rightarrow>
          if \<not> w_halted st
          then (case enter_node cfg (w_next_branch st) (go_node g) (arr_carried g) (arr_behind g)
                       (st\<lparr>w_queue := queue, w_next_branch := w_next_branch st + 1\<rparr>) of
                  (st2, alive) \<Rightarrow> if alive then st2 else branch_ended cfg st2)
          else (let st1 = st\<lparr>w_live := w_live st - 1, w_queue := []\<rparr>
                in if w_live st1 = 0 then finish_walk cfg st1 else st1)
      | [] \<Rightarrow>
          (let st1 = st\<lparr>w_live := w_live st - 1\<rparr>
           in if w_live st1 = 0 then finish_walk cfg st1 else st1))"
  by pat_completeness auto
termination
  by (relation "measure (\<lambda>(cfg, st). length (w_queue st))")
     (auto dest!: enter_node_queue [OF sym])

declare branch_ended.simps [simp del]

definition start_branch :: "walk_config \<Rightarrow> going \<Rightarrow> walk_state \<Rightarrow> walk_state" where
  "start_branch cfg g st =
     (case enter_node cfg (w_next_branch st) (go_node g) (arr_carried g) (arr_behind g)
             (st\<lparr>w_live := w_live st + 1, w_next_branch := w_next_branch st + 1\<rparr>) of
        (st1, alive) \<Rightarrow> if alive then st1 else branch_ended cfg st1)"

definition spawn :: "walk_config \<Rightarrow> going \<Rightarrow> walk_state \<Rightarrow> walk_state" where
  "spawn cfg g st =
     (if cfg_in_turn cfg then st\<lparr>w_queue := w_queue st @ [g]\<rparr> else start_branch cfg g st)"

text \<open>\<open>nextOf\<close>: the one node a router named, or every node an edge leads to, each once.\<close>

definition next_of :: "graph_document \<Rightarrow> graph_node \<Rightarrow> node_id option \<Rightarrow> walk_problem + graph_node list" where
  "next_of document n named =
     (case named of
        Some i \<Rightarrow>
          (case node_by_id document i of
             None \<Rightarrow> Inl (Routed_Nowhere n i)
           | Some target \<Rightarrow> Inr [target])
      | None \<Rightarrow>
          Inr (foldl (\<lambda>acc e. if edge_from e = gn_id n
                              then (case node_by_id document (edge_to e) of
                                      None \<Rightarrow> acc | Some target \<Rightarrow> set_add target acc)
                              else acc) [] (doc_edges document)))"

text \<open>The loop over the nodes that follow: each one's way on, through a JOIN where it is one.\<close>

fun collect_going ::
    "walk_config \<Rightarrow> graph_node \<Rightarrow> route_input \<Rightarrow> node_id set \<Rightarrow> graph_node list \<Rightarrow> going list
       \<Rightarrow> walk_state \<Rightarrow> walk_state \<times> (walk_problem + going list)" where
  "collect_going cfg n carried behind [] made st = (st, Inr made)"
| "collect_going cfg n carried behind (m # ms) made st =
     (if kind_of m \<noteq> KJoin
      then collect_going cfg n carried behind ms
             (made @ [\<lparr>arr_carried = carried, arr_behind = behind, go_node = m\<rparr>]) st
      else (case arrive (cfg_document cfg) st m (gn_id n) \<lparr>arr_carried = carried, arr_behind = behind\<rparr> of
              (st1, Still_Out) \<Rightarrow> collect_going cfg n carried behind ms made st1
            | (st1, Join_Problem problem) \<Rightarrow> (st1, Inl problem)
            | (st1, Join_Goes a) \<Rightarrow>
                collect_going cfg n carried behind ms
                  (made @ [\<lparr>arr_carried = arr_carried a, arr_behind = arr_behind a, go_node = m\<rparr>]) st1))"

text \<open>
  What a branch does once its attempts came to something: \<open>st\<close> is the state with the branch taken
  out of \<open>w_branches\<close>, though still counted live.
\<close>

definition follow ::
    "walk_config \<Rightarrow> nat \<Rightarrow> branch \<Rightarrow> route_input \<Rightarrow> node_id option \<Rightarrow> walk_state \<Rightarrow> walk_state" where
  "follow cfg i b carried named st =
     (if w_halted st then branch_ended cfg st
      else (case next_of (cfg_document cfg) (br_node b) named of
              Inl problem \<Rightarrow> branch_ended cfg (fail_walk problem True st)
            | Inr [] \<Rightarrow>
                branch_ended cfg (st\<lparr>w_leaves := AList.update (gn_id (br_node b))
                    (entries (w_leaves st) (gn_id (br_node b)) @ [carried]) (w_leaves st)\<rparr>)
            | Inr nodes \<Rightarrow>
                (case collect_going cfg (br_node b) carried (br_behind b) nodes [] st of
                   (st1, Inl problem) \<Rightarrow> branch_ended cfg (fail_walk problem True st1)
                 | (st1, Inr []) \<Rightarrow> branch_ended cfg st1
                 | (st1, Inr [only]) \<Rightarrow>
                     (case enter_node cfg i (go_node only) (arr_carried only)
                             (br_behind b \<union> arr_behind only) st1 of
                        (st2, alive) \<Rightarrow> if alive then st2 else branch_ended cfg st2)
                 | (st1, Inr several) \<Rightarrow>
                     branch_ended cfg (foldl (\<lambda>s g. spawn cfg g s) st1 several))))"

definition continue_branch :: "walk_config \<Rightarrow> nat \<Rightarrow> branch \<Rightarrow> decision \<Rightarrow> walk_state \<Rightarrow> walk_state" where
  "continue_branch cfg i b d st =
     (case d of
        Decided_Halted rc \<Rightarrow>
          branch_ended cfg (case rc of None \<Rightarrow> st | Some r \<Rightarrow> report (br_node b) r SCancelled None st)
      | Decided_Failed reason retryable rc \<Rightarrow>
          branch_ended cfg (fail_walk reason retryable (report (br_node b) rc SFailed None st))
      | Decided_Ok carried output named rc \<Rightarrow>
          follow cfg i b carried named (report (br_node b) rc SSucceeded output st))"

text \<open>\<open>failedWords\<close>.\<close>

definition failed_words :: "graph_node \<Rightarrow> nat \<Rightarrow> jstr \<Rightarrow> bool \<Rightarrow> walk_problem" where
  "failed_words n attempt problem retryable =
     (if attempt = 0 then Failed_Once n problem
      else if \<not> retryable then Failed_Decision n (attempt + 1) problem
      else Failed_All n (attempt + 1) problem)"

text \<open>\<open>attempts\<close>, once the executor has answered.\<close>

definition settle_attempt :: "nat \<Rightarrow> branch \<Rightarrow> recorder \<Rightarrow> step_result \<Rightarrow> walk_state \<Rightarrow> walk_state" where
  "settle_attempt i b rc result st =
     (case result of
        StepOk carried output named \<Rightarrow>
          put_branch i (b\<lparr>br_phase := Deciding (Decided_Ok carried output named rc)\<rparr>) st
      | StepFail problem retryable \<Rightarrow>
          if w_halted st
          then put_branch i (b\<lparr>br_phase := Deciding (Decided_Halted (Some rc))\<rparr>) st
          else if retry_max (gn_retry (br_node b)) \<le> rc_attempt rc \<or> \<not> retryable
          then put_branch i (b\<lparr>br_phase := Deciding (Decided_Failed
                 (failed_words (br_node b) (rc_attempt rc) problem retryable) retryable rc)\<rparr>) st
          else put_branch i (b\<lparr>br_phase := Backing_Off (rc_attempt rc)\<rparr>)
                 (report (br_node b) rc SFailed None (st\<lparr>w_retrying := w_retrying st + 1\<rparr>)))"

definition resume_attempt :: "nat \<Rightarrow> branch \<Rightarrow> nat \<Rightarrow> bool \<Rightarrow> walk_state \<Rightarrow> walk_state" where
  "resume_attempt i b attempt waited st =
     (let st1 = st\<lparr>w_retrying := w_retrying st - 1\<rparr>
      in if waited
         then begin_attempt i (br_node b) (br_carried b) (br_behind b) (attempt + 1) st1
         else put_branch i (b\<lparr>br_phase := Deciding (Decided_Halted None)\<rparr>) st1)"

section \<open>The machine\<close>

datatype walk_event =
    Settled nat step_result
  | Timer nat
  | Resume nat
  | Continue nat
  | Says_Waiting nat
  | Says_Child nat run_child
  | Cancel

text \<open>The branch an event is about, at an \<open>await\<close> the event can answer.\<close>

definition take_branch :: "walk_state \<Rightarrow> nat \<Rightarrow> walk_state" where
  "take_branch st i = st\<lparr>w_branches := AList.delete i (w_branches st)\<rparr>"

fun walk_step :: "walk_config \<Rightarrow> walk_state \<Rightarrow> walk_event \<Rightarrow> walk_state" where
  "walk_step cfg st (Settled i result) =
     (case map_of (w_branches st) i of
        Some b \<Rightarrow> (case br_phase b of
            Executing rc \<Rightarrow> settle_attempt i b rc result (take_branch st i)
          | _ \<Rightarrow> st)
      | None \<Rightarrow> st)"
| "walk_step cfg st (Timer i) =
     (case map_of (w_branches st) i of
        Some b \<Rightarrow> (case br_phase b of
            Backing_Off attempt \<Rightarrow>
              put_branch i (b\<lparr>br_phase := Resuming attempt True\<rparr>) (take_branch st i)
          | _ \<Rightarrow> st)
      | None \<Rightarrow> st)"
| "walk_step cfg st (Resume i) =
     (case map_of (w_branches st) i of
        Some b \<Rightarrow> (case br_phase b of
            Resuming attempt waited \<Rightarrow> resume_attempt i b attempt waited (take_branch st i)
          | _ \<Rightarrow> st)
      | None \<Rightarrow> st)"
| "walk_step cfg st (Continue i) =
     (case map_of (w_branches st) i of
        Some b \<Rightarrow> (case br_phase b of
            Deciding d \<Rightarrow> continue_branch cfg i b d (take_branch st i)
          | _ \<Rightarrow> st)
      | None \<Rightarrow> st)"
| "walk_step cfg st (Says_Waiting i) =
     (case map_of (w_branches st) i of
        Some b \<Rightarrow> (case br_phase b of
            Executing rc \<Rightarrow> report (br_node b) rc SWaiting None st
          | _ \<Rightarrow> st)
      | None \<Rightarrow> st)"
| "walk_step cfg st (Says_Child i child) =
     (case map_of (w_branches st) i of
        Some b \<Rightarrow> (case br_phase b of
            Executing rc \<Rightarrow>
              (let rc1 = rc\<lparr>rc_child := Some child\<rparr>
               in report (br_node b) rc1 SRunning None
                    (put_branch i (b\<lparr>br_phase := Executing rc1\<rparr>) (take_branch st i)))
          | _ \<Rightarrow> st)
      | None \<Rightarrow> st)"
| "walk_step cfg st Cancel = cancel_walk st"

text \<open>The call of \<open>walk\<close>: it starts at the one trigger, or ends at once.\<close>

definition triggers_of :: "graph_document \<Rightarrow> graph_node list" where
  "triggers_of d = filter (\<lambda>n. kind_of n = KTrigger) (doc_nodes d)"

definition start_walk :: "walk_config \<Rightarrow> walk_state" where
  "start_walk cfg =
     (case triggers_of (cfg_document cfg) of
        [t] \<Rightarrow> start_branch cfg \<lparr>arr_carried = cfg_input cfg, arr_behind = {}, go_node = t\<rparr> fresh_walk
      | ts \<Rightarrow> end_walk (W_Failed (No_Single_Trigger (length ts)) True) fresh_walk)"

definition walk_run :: "walk_config \<Rightarrow> walk_event list \<Rightarrow> walk_state" where
  "walk_run cfg es = run (walk_step cfg) (start_walk cfg) es"

end
