(* ===== verification/Walk_Invariant.thy ===== *)
theory Walk_Invariant
  imports Walker
begin

text \<open>
  The invariant of the walk of \<open>Walker\<close>, what one stretch of the code can change of a state, and the
  properties of every run.

  \<open>walk_wf cfg k st\<close> holds between and inside the stretches: \<open>k\<close> counts the branches that are
  counted live and are not suspended at an \<open>await\<close> but running.  \<open>walk_le\<close> is the preorder of what
  a stretch may do: the counters grow, a halt stays, the attempts are paid for.
\<close>

section \<open>The invariant\<close>

text \<open>A branch between two attempts.\<close>

definition between :: "branch \<Rightarrow> nat" where
  "between b = (case br_phase b of Backing_Off _ \<Rightarrow> 1 | Resuming _ _ \<Rightarrow> 1 | _ \<Rightarrow> 0)"

text \<open>The attempts the retry policy still allows a branch at its node.\<close>

definition attempts_left :: "branch \<Rightarrow> nat" where
  "attempts_left b = (case br_phase b of
       Executing rc \<Rightarrow> retry_max (gn_retry (br_node b)) - rc_attempt rc
     | Backing_Off attempt \<Rightarrow> retry_max (gn_retry (br_node b)) - attempt
     | Resuming attempt _ \<Rightarrow> retry_max (gn_retry (br_node b)) - attempt
     | Deciding _ \<Rightarrow> 0)"

text \<open>How many stretches a branch runs through before it needs a new attempt's record.\<close>

definition stretches :: "branch \<Rightarrow> nat" where
  "stretches b = (case br_phase b of
       Executing _ \<Rightarrow> 4 | Backing_Off _ \<Rightarrow> 3 | Resuming _ _ \<Rightarrow> 2 | Deciding _ \<Rightarrow> 1)"

text \<open>What makes the sentence a run fails with true of its document.\<close>

fun problem_ok :: "walk_config \<Rightarrow> walk_problem \<Rightarrow> bool" where
  "problem_ok cfg (No_Single_Trigger k) \<longleftrightarrow> length (triggers_of (cfg_document cfg)) = k \<and> k \<noteq> 1"
| "problem_ok cfg (Cannot_Execute n) \<longleftrightarrow> n \<in> set (doc_nodes (cfg_document cfg)) \<and> \<not> has_executor cfg n"
| "problem_ok cfg (Looping n k) \<longleftrightarrow> n \<in> set (doc_nodes (cfg_document cfg)) \<and> k = graph_nodes_max + 1"
| "problem_ok cfg (Too_Many_Steps n k) \<longleftrightarrow> n \<in> set (doc_nodes (cfg_document cfg)) \<and> k = graph_nodes_max + 1"
| "problem_ok cfg (Failed_Once n problem) \<longleftrightarrow> n \<in> set (doc_nodes (cfg_document cfg))"
| "problem_ok cfg (Failed_Decision n k problem) \<longleftrightarrow>
     n \<in> set (doc_nodes (cfg_document cfg)) \<and> 2 \<le> k \<and> k \<le> retry_max (gn_retry n) + 1"
| "problem_ok cfg (Failed_All n k problem) \<longleftrightarrow>
     n \<in> set (doc_nodes (cfg_document cfg)) \<and> 2 \<le> k \<and> k = retry_max (gn_retry n) + 1"
| "problem_ok cfg (Routed_Nowhere n i) \<longleftrightarrow>
     n \<in> set (doc_nodes (cfg_document cfg)) \<and> node_by_id (cfg_document cfg) i = None"
| "problem_ok cfg (Join_Merge j problem) \<longleftrightarrow> j \<in> set (doc_nodes (cfg_document cfg)) \<and> kind_of j = KJoin"
| "problem_ok cfg (Join_Never_Reached j missing) \<longleftrightarrow>
     j \<in> set (doc_nodes (cfg_document cfg)) \<and> set missing \<subseteq> set (graph_incoming (cfg_document cfg) (gn_id j))"
| "problem_ok cfg (Join_Reached_Again j often came missing) \<longleftrightarrow>
     j \<in> set (doc_nodes (cfg_document cfg)) \<and> often \<noteq> 0
       \<and> set came \<union> set missing = set (graph_incoming (cfg_document cfg) (gn_id j))"
| "problem_ok cfg (End_Merge count problem) \<longleftrightarrow> True"

fun decision_ok :: "walk_config \<Rightarrow> decision \<Rightarrow> bool" where
  "decision_ok cfg (Decided_Failed reason retryable rc) = problem_ok cfg reason"
| "decision_ok cfg (Decided_Ok carried output named rc) = True"
| "decision_ok cfg (Decided_Halted rc) = True"

definition branch_ok :: "walk_config \<Rightarrow> bool \<Rightarrow> branch \<Rightarrow> bool" where
  "branch_ok cfg halted b \<longleftrightarrow> br_node b \<in> set (doc_nodes (cfg_document cfg))
     \<and> (case br_phase b of
          Executing rc \<Rightarrow> rc_attempt rc \<le> retry_max (gn_retry (br_node b))
        | Backing_Off attempt \<Rightarrow> attempt < retry_max (gn_retry (br_node b)) \<and> \<not> halted
        | Resuming attempt _ \<Rightarrow> attempt < retry_max (gn_retry (br_node b))
        | Deciding d \<Rightarrow> decision_ok cfg d)"

definition walk_wf :: "walk_config \<Rightarrow> nat \<Rightarrow> walk_state \<Rightarrow> bool" where
  "walk_wf cfg k st \<longleftrightarrow>
     w_live st = length (w_branches st) + k
     \<and> (cfg_in_turn cfg \<longrightarrow> length (w_branches st) + k \<le> 1)
     \<and> distinct (keys_of (w_branches st))
     \<and> (\<forall>(i, b) \<in> set (w_branches st). i < w_next_branch st \<and> branch_ok cfg (w_halted st) b)
     \<and> (\<forall>g \<in> set (w_queue st). go_node g \<in> set (doc_nodes (cfg_document cfg)))
     \<and> (w_failure st \<noteq> None \<or> w_cancelled st \<longleftrightarrow> w_halted st)
     \<and> (\<forall>r b. w_failure st = Some (r, b) \<longrightarrow> problem_ok cfg r)
     \<and> w_retrying st = sum_values between (w_branches st)
     \<and> w_reached st \<le> graph_nodes_max + 1 \<and> (\<not> w_halted st \<longrightarrow> w_reached st \<le> graph_nodes_max)
     \<and> w_records st + sum_values attempts_left (w_branches st)
         \<le> (graph_retry_max + 1) * min graph_nodes_max (w_reached st)"

text \<open>
  The run has ended exactly when no branch is left, once, and then nothing is queued; a run that
  succeeded had no failure and left no JOIN holding arrivals.
\<close>

definition clean_success :: "walk_config \<Rightarrow> walk_state \<Rightarrow> bool" where
  "clean_success cfg st \<longleftrightarrow> (\<forall>output. w_ends st = [W_Succeeded output] \<longrightarrow>
     w_failure st = None \<and> left_waiting (cfg_document cfg) st (w_arrivals st) = None)"

definition true_failure :: "walk_config \<Rightarrow> walk_state \<Rightarrow> bool" where
  "true_failure cfg st \<longleftrightarrow> (\<forall>p b. w_ends st = [W_Failed p b] \<longrightarrow> problem_ok cfg p)"

definition ended_ok :: "walk_config \<Rightarrow> walk_state \<Rightarrow> bool" where
  "ended_ok cfg st \<longleftrightarrow>
     (if w_live st = 0 then length (w_ends st) = 1 \<and> w_queue st = [] \<and> clean_success cfg st \<and> true_failure cfg st
      else w_ends st = [])"

text \<open>What a run that was halted ends with.\<close>

definition halted_outcome :: "walk_state \<Rightarrow> walk_outcome" where
  "halted_outcome st = (case w_failure st of
       Some (reason, retryable) \<Rightarrow> W_Failed reason retryable | None \<Rightarrow> W_Cancelled)"

text \<open>What one stretch, and so any run of them, does to a state.\<close>

definition walk_le :: "walk_state \<Rightarrow> walk_state \<Rightarrow> bool" where
  "walk_le st st' \<longleftrightarrow>
     w_reached st \<le> w_reached st' \<and> w_records st \<le> w_records st'
     \<and> sum_values stretches (w_branches st') + 4 * w_records st
         \<le> sum_values stretches (w_branches st) + 4 * w_records st'
     \<and> (\<exists>new. w_reports st' = w_reports st @ new)
     \<and> (\<exists>new. w_ends st' = w_ends st @ new)
     \<and> (w_cancelled st \<longrightarrow> w_cancelled st')
     \<and> (w_halted st \<longrightarrow> w_halted st' \<and> w_failure st' = w_failure st \<and> w_reached st' = w_reached st
          \<and> set (w_ends st') \<subseteq> insert (halted_outcome st) (set (w_ends st)))"

lemma walk_le_refl [simp, intro]: "walk_le st st"
  by (auto simp: walk_le_def)

lemma walk_le_trans: "walk_le s t \<Longrightarrow> walk_le t u \<Longrightarrow> walk_le s u"
  by (auto simp: walk_le_def halted_outcome_def)

section \<open>Halting\<close>

lemma wake_simps [simp]:
  "br_node (wake b) = br_node b" "between (wake b) = between b"
  "attempts_left (wake b) = attempts_left b" "stretches (wake b) \<le> stretches b"
  by (auto simp: wake_def between_def attempts_left_def stretches_def split: phase.splits)

lemma branch_ok_wake: "branch_ok cfg h b \<Longrightarrow> branch_ok cfg True (wake b)"
  by (auto simp: branch_ok_def wake_def split: phase.splits)

lemma wake_all:
  "sum_values between (map (\<lambda>(i, b). (i, wake b)) m) = sum_values between m"
  "sum_values attempts_left (map (\<lambda>(i, b). (i, wake b)) m) = sum_values attempts_left m"
  "sum_values stretches (map (\<lambda>(i, b). (i, wake b)) m) \<le> sum_values stretches m"
  by (simp_all add: sum_values_map_eq sum_values_map_le)

lemma branches_ok_wake:
  "\<forall>(i, b) \<in> set m. i < n \<and> branch_ok cfg h b \<Longrightarrow> (i, b) \<in> set m \<Longrightarrow> branch_ok cfg True (wake b)"
  by (auto intro: branch_ok_wake)

lemmas halting = halt_walk_def walk_wf_def wake_all

text \<open>The failure at the bound comes when one node too many has been counted.\<close>

lemma walk_wf_fail:
  assumes "walk_wf cfg k (st\<lparr>w_reached := min graph_nodes_max (w_reached st)\<rparr>)"
    and "w_reached st \<le> graph_nodes_max + 1" and "\<not> w_halted st" and "problem_ok cfg r"
  shows "walk_wf cfg k (fail_walk r b st)"
  using assms by (auto simp: fail_walk_def halting dest: branches_ok_wake)

lemma walk_wf_fail': "walk_wf cfg k st \<Longrightarrow> problem_ok cfg r \<Longrightarrow> walk_wf cfg k (fail_walk r b st)"
  by (auto simp: fail_walk_def halting dest: branches_ok_wake)

lemma walk_wf_cancel: "walk_wf cfg k st \<Longrightarrow> walk_wf cfg k (cancel_walk st)"
  by (auto simp: cancel_walk_def halting dest: branches_ok_wake)

lemma walk_le_fail: "walk_le st (fail_walk r b st)"
  by (auto simp: fail_walk_def halt_walk_def walk_le_def wake_all)

lemma walk_le_cancel: "walk_le st (cancel_walk st)"
  by (auto simp: cancel_walk_def halt_walk_def walk_le_def wake_all halted_outcome_def)

lemma fail_simps [simp]:
  "w_halted (fail_walk r b st)" "w_ends (fail_walk r b st) = w_ends st"
  "w_live (fail_walk r b st) = w_live st" "w_next_branch (fail_walk r b st) = w_next_branch st"
  by (auto simp: fail_walk_def halt_walk_def)

section \<open>Reports and attempts\<close>

lemma report_simps [simp]:
  "w_halted (report n rc oc ou st) = w_halted st" "w_ends (report n rc oc ou st) = w_ends st"
  "w_live (report n rc oc ou st) = w_live st" "w_next_branch (report n rc oc ou st) = w_next_branch st"
  "w_branches (report n rc oc ou st) = w_branches st" "w_queue (report n rc oc ou st) = w_queue st"
  by (simp_all add: report_def)

lemma walk_wf_report [simp]: "walk_wf cfg k (report n rc oc ou st) \<longleftrightarrow> walk_wf cfg k st"
  by (simp add: report_def walk_wf_def)

lemma walk_le_report: "walk_le st (report n rc oc ou st)"
  by (simp add: report_def walk_le_def) blast

text \<open>The branch \<open>i\<close> runs: it is no longer in the table, and counted live.\<close>

lemma walk_wf_take:
  assumes wf: "walk_wf cfg 0 st" and b: "map_of (w_branches st) i = Some b"
    and calm: "between b = 0"
  shows "walk_wf cfg 1 (take_branch st i)"
  using wf b calm length_delete [OF b] sum_values_delete [OF b, of between]
    sum_values_delete [OF b, of attempts_left] set_delete_subset [of i "w_branches st"]
  by (auto simp: walk_wf_def take_branch_def)

lemma walk_le_take:
  assumes "map_of (w_branches st) i = Some b" and "distinct (keys_of (w_branches st))"
  shows "walk_le st (take_branch st i)"
  using sum_values_delete [OF assms, of stretches] by (auto simp: walk_le_def take_branch_def)

lemma take_simps [simp]:
  "w_halted (take_branch st i) = w_halted st" "w_ends (take_branch st i) = w_ends st"
  "w_live (take_branch st i) = w_live st" "w_next_branch (take_branch st i) = w_next_branch st"
  "w_queue (take_branch st i) = w_queue st" "w_retrying (take_branch st i) = w_retrying st"
  "w_records (take_branch st i) = w_records st" "w_reached (take_branch st i) = w_reached st"
  by (simp_all add: take_branch_def)

text \<open>A branch at its place goes into the table.\<close>

definition fresh_branch :: "walk_state \<Rightarrow> nat \<Rightarrow> bool" where
  "fresh_branch st i \<longleftrightarrow> i < w_next_branch st \<and> i \<notin> fst ` set (w_branches st)"

lemma walk_wf_put:
  assumes "walk_wf cfg (Suc k) (st\<lparr>w_retrying := w_retrying st - between b\<rparr>)" and "fresh_branch st i"
    and "branch_ok cfg (w_halted st) b" and "between b \<le> w_retrying st"
    and "w_records st + sum_values attempts_left (w_branches st) + attempts_left b
         \<le> (graph_retry_max + 1) * min graph_nodes_max (w_reached st)"
  shows "walk_wf cfg k (put_branch i b st)"
  using assms by (auto simp: walk_wf_def put_branch_def fresh_branch_def)

lemma walk_wf_begin:
  assumes wf: "walk_wf cfg (Suc k) st" and i: "fresh_branch st i"
    and n: "n \<in> set (doc_nodes (cfg_document cfg))" and a: "attempt \<le> retry_max (gn_retry n)"
    and left: "w_records st + 1 + sum_values attempts_left (w_branches st) + (retry_max (gn_retry n) - attempt)
         \<le> (graph_retry_max + 1) * min graph_nodes_max (w_reached st)"
  shows "walk_wf cfg k (begin_attempt i n c bh attempt st)"
  using wf i n a left
  by (auto simp: begin_attempt_def Let_def report_def put_branch_def walk_wf_def fresh_branch_def
      branch_ok_def between_def attempts_left_def)

lemma walk_le_begin: "walk_le st (begin_attempt i n c bh attempt st)"
  by (simp add: begin_attempt_def Let_def report_def put_branch_def walk_le_def stretches_def) blast

section \<open>A branch reaching a node, and ending\<close>

definition document_bounded :: "walk_config \<Rightarrow> bool" where
  "document_bounded cfg \<longleftrightarrow>
     (\<forall>n \<in> set (doc_nodes (cfg_document cfg)). retry_max (gn_retry n) \<le> graph_retry_max)"

lemma enter_node_ends [simp]: "w_ends (fst (enter_node cfg i n c bh st)) = w_ends st"
  by (simp add: enter_node_def Let_def begin_attempt_def report_def put_branch_def)

lemma enter_node_halted: "w_halted st \<Longrightarrow> enter_node cfg i n c bh st = (st, False)"
  by (simp add: enter_node_def)

lemma walk_le_enter:
  assumes "enter_node cfg i n c bh st = (st', alive)"
  shows "walk_le st st'"
proof (cases "w_halted st")
  case False
  have up: "walk_le st (st\<lparr>w_reached := Suc (w_reached st), w_looped := l\<rparr>)" for l
    using False by (simp add: walk_le_def)
  show ?thesis
    using assms False
    by (auto simp: enter_node_def Let_def split: if_splits
        intro: walk_le_trans [OF up walk_le_fail] walk_le_trans [OF up walk_le_begin])
qed (use assms in \<open>simp add: enter_node_def\<close>)

lemma walk_wf_reach:
  assumes "walk_wf cfg k st" and "\<not> w_halted st" and "w_reached st < graph_nodes_max"
  shows "walk_wf cfg k (st\<lparr>w_reached := Suc (w_reached st), w_looped := l\<rparr>)"
    and "w_records st + sum_values attempts_left (w_branches st) + (graph_retry_max + 1)
         \<le> (graph_retry_max + 1) * min graph_nodes_max (Suc (w_reached st))"
  using assms by (auto simp: walk_wf_def)

lemma walk_wf_enter:
  assumes wf: "walk_wf cfg (Suc k) st" and i: "fresh_branch st i"
    and n: "n \<in> set (doc_nodes (cfg_document cfg))" and doc: "document_bounded cfg"
    and enter: "enter_node cfg i n c bh st = (st', alive)"
  shows "walk_wf cfg (if alive then k else Suc k) st'"
proof (cases "w_halted st")
  case False
  let ?st1 = "st\<lparr>w_reached := Suc (w_reached st), w_looped := w_looped st \<or> gn_id n \<in> bh\<rparr>"
  have le: "w_reached st \<le> graph_nodes_max"
    using wf False by (simp add: walk_wf_def)
  show ?thesis
  proof (cases "w_reached st = graph_nodes_max")
    case True
    have "walk_wf cfg (Suc k) (?st1\<lparr>w_reached := min graph_nodes_max (w_reached ?st1)\<rparr>)"
      using wf True by (simp add: walk_wf_def)
    from walk_wf_fail [OF this] show ?thesis
      using enter True False n by (auto simp: enter_node_def Let_def)
  next
    case less: False
    then have "w_reached st < graph_nodes_max" using le by simp
    note reach = walk_wf_reach [OF wf False this]
    have "retry_max (gn_retry n) \<le> graph_retry_max"
      using doc n by (simp add: document_bounded_def)
    then have "walk_wf cfg k (begin_attempt i n c (insert (gn_id n) bh) 0 ?st1)"
      using reach(2) i n by (intro walk_wf_begin [OF reach(1)]) (auto simp: fresh_branch_def)
    then show ?thesis
      using enter le less False n walk_wf_fail' [OF reach(1)]
      by (auto simp: enter_node_def Let_def split: if_splits)
  qed
qed (use assms in \<open>simp add: enter_node_def\<close>)

lemma walk_wf_fresh_next:
  "walk_wf cfg k st \<Longrightarrow> fresh_branch (st\<lparr>w_queue := q, w_live := l, w_next_branch := Suc (w_next_branch st)\<rparr>) (w_next_branch st)"
  by (auto simp: walk_wf_def fresh_branch_def)

text \<open>What a stretch leaves, \<open>k\<close> branches still running around it.\<close>

definition leaves_walk :: "walk_config \<Rightarrow> nat \<Rightarrow> walk_state \<Rightarrow> walk_state \<Rightarrow> bool" where
  "leaves_walk cfg k st st' \<longleftrightarrow> walk_wf cfg k st' \<and> ended_ok cfg st' \<and> walk_le st st'"

lemma leaves_walk_after: "walk_le s t \<Longrightarrow> leaves_walk cfg k t u \<Longrightarrow> leaves_walk cfg k s u"
  by (auto simp: leaves_walk_def intro: walk_le_trans)

lemma walk_result_halted:
  "walk_wf cfg k st \<Longrightarrow> w_halted st \<Longrightarrow> walk_result cfg st = halted_outcome st"
  by (auto simp: walk_wf_def walk_result_def halted_outcome_def split: option.splits)

lemma walk_le_finish: "walk_wf cfg k st \<Longrightarrow> walk_le st (finish_walk cfg st)"
  by (auto simp: finish_walk_def end_walk_def walk_le_def dest: walk_result_halted)

lemma left_waiting_joined: "w_joined s = w_joined t \<Longrightarrow> left_waiting d s m = left_waiting d t m"
  by (induction m) (auto simp: joined_times_def split: option.splits)

lemma clean_finish: "w_ends st = [] \<Longrightarrow> clean_success cfg (finish_walk cfg st)"
  using left_waiting_joined [of "finish_walk cfg st" st]
  by (auto simp: clean_success_def finish_walk_def end_walk_def walk_result_def split: option.splits if_splits)

lemma left_waiting_true:
  "left_waiting (cfg_document cfg) st m = Some p \<Longrightarrow> problem_ok cfg p"
  by (induction m) (auto simp: Let_def split: option.splits if_splits dest!: node_by_id_Some)

lemma true_finish: "walk_wf cfg k st \<Longrightarrow> w_ends st = [] \<Longrightarrow> true_failure cfg (finish_walk cfg st)"
  by (auto simp: true_failure_def finish_walk_def end_walk_def walk_result_def walk_wf_def Let_def
      dest: left_waiting_true split: option.splits if_splits list.splits sum.splits)

lemma leaves_last:
  assumes wf: "walk_wf cfg (Suc k) st" and ends: "w_ends st = []"
    and st1: "st1 = st\<lparr>w_live := w_live st - 1, w_queue := []\<rparr>"
  shows "leaves_walk cfg k st (if w_live st1 = 0 then finish_walk cfg st1 else st1)"
proof -
  have wf1: "walk_wf cfg k st1" and le1: "walk_le st st1"
    using wf by (auto simp: st1 walk_wf_def walk_le_def)
  have "walk_wf cfg k (finish_walk cfg st1)"
    using wf1 by (simp add: finish_walk_def end_walk_def walk_wf_def)
  moreover have "w_ends st1 = []" "w_queue st1 = []"
    using ends by (simp_all add: st1)
  ultimately show ?thesis
    using wf1 le1 walk_le_trans [OF le1 walk_le_finish [OF wf1]]
    using clean_finish [of st1 cfg] true_finish [OF wf1]
    by (simp add: leaves_walk_def ended_ok_def finish_walk_def end_walk_def)
qed

lemma walk_wf_live: "walk_wf cfg (Suc k) st \<Longrightarrow> w_live st \<noteq> 0"
  by (simp add: walk_wf_def)

lemma begin_attempt_live [simp]:
  "w_live (begin_attempt i n c bh a st) = w_live st" "w_ends (begin_attempt i n c bh a st) = w_ends st"
  by (simp_all add: begin_attempt_def put_branch_def report_def Let_def)

lemma enter_node_live: "enter_node cfg i n c bh st = (st', alive) \<Longrightarrow> w_live st' = w_live st \<and> w_ends st' = w_ends st"
  by (auto simp: enter_node_def Let_def split: if_splits)

lemma leaves_branch_ended:
  assumes "walk_wf cfg (Suc k) st" and "w_ends st = []" and "document_bounded cfg"
  shows "leaves_walk cfg k st (branch_ended cfg st)"
  using assms
proof (induction cfg st rule: branch_ended.induct)
  case (1 cfg st)
  show ?case
  proof (cases "w_queue st")
    case Nil
    then have "st\<lparr>w_live := w_live st - 1, w_queue := []\<rparr> = st\<lparr>w_live := w_live st - 1\<rparr>"
      by (cases st) simp
    then show ?thesis
      using leaves_last [OF "1.prems"(1,2) refl] Nil
      by (subst branch_ended.simps) (simp only: Let_def list.case)
  next
    case (Cons g queue)
    show ?thesis
    proof (cases "w_halted st")
      case True
      then show ?thesis
        using leaves_last [OF "1.prems"(1,2) refl] Cons
        by (subst branch_ended.simps) (simp only: Let_def list.case if_False simp_thms)
    next
      case False
      let ?st1 = "st\<lparr>w_queue := queue, w_next_branch := w_next_branch st + 1\<rparr>"
      obtain st2 alive where enter: "enter_node cfg (w_next_branch st) (go_node g) (arr_carried g)
          (arr_behind g) ?st1 = (st2, alive)"
        by (metis surj_pair)
      have wf1: "walk_wf cfg (Suc k) ?st1" and le1: "walk_le st ?st1"
        and n: "go_node g \<in> set (doc_nodes (cfg_document cfg))"
        using "1.prems"(1) Cons by (auto simp: walk_wf_def walk_le_def)
      have fresh: "fresh_branch ?st1 (w_next_branch st)"
        using "1.prems"(1) by (auto simp: walk_wf_def fresh_branch_def)
      note wf2 = walk_wf_enter [OF wf1 fresh n "1.prems"(3) enter]
      have le2: "walk_le st st2" by (rule walk_le_trans [OF le1 walk_le_enter [OF enter]])
      have same: "w_live st2 = w_live st" "w_ends st2 = []"
        using enter_node_live [OF enter] "1.prems"(2) by simp_all
      have run: "branch_ended cfg st = (if alive then st2 else branch_ended cfg st2)"
        using Cons False enter by (subst branch_ended.simps) simp
      show ?thesis
      proof (cases alive)
        case True
        then have "leaves_walk cfg k st st2"
          using wf2 le2 same walk_wf_live [OF "1.prems"(1)] by (simp add: leaves_walk_def ended_ok_def)
        then show ?thesis by (simp add: run True)
      next
        case dead: False
        have "leaves_walk cfg k st2 (branch_ended cfg st2)"
          using "1.IH" [OF Cons _ enter [symmetric]] False dead wf2 same "1.prems"(3) by simp
        then show ?thesis using leaves_walk_after [OF le2] by (simp add: run dead)
      qed
    qed
  qed
qed

lemma leaves_start_branch:
  assumes wf: "walk_wf cfg k st" and ends: "w_ends st = []" and doc: "document_bounded cfg"
    and n: "go_node g \<in> set (doc_nodes (cfg_document cfg))"
    and turn: "cfg_in_turn cfg \<Longrightarrow> w_live st = 0"
  shows "leaves_walk cfg k st (start_branch cfg g st)"
proof -
  let ?st1 = "st\<lparr>w_live := w_live st + 1, w_next_branch := w_next_branch st + 1\<rparr>"
  obtain st2 alive where enter: "enter_node cfg (w_next_branch st) (go_node g) (arr_carried g)
      (arr_behind g) ?st1 = (st2, alive)"
    by (metis surj_pair)
  have wf1: "walk_wf cfg (Suc k) ?st1" and le1: "walk_le st ?st1"
    using wf turn by (auto simp: walk_wf_def walk_le_def)
  have fresh: "fresh_branch ?st1 (w_next_branch st)"
    using wf by (auto simp: walk_wf_def fresh_branch_def)
  note wf2 = walk_wf_enter [OF wf1 fresh n doc enter]
  have le2: "walk_le st st2" by (rule walk_le_trans [OF le1 walk_le_enter [OF enter]])
  have same: "w_live st2 = Suc (w_live st)" "w_ends st2 = []"
    using enter_node_live [OF enter] ends by simp_all
  show ?thesis
  proof (cases alive)
    case True
    then show ?thesis
      using wf2 le2 same enter by (simp add: start_branch_def leaves_walk_def ended_ok_def)
  next
    case False
    then show ?thesis
      using leaves_walk_after [OF le2 leaves_branch_ended [OF _ same(2) doc]] wf2 enter
      by (simp add: start_branch_def)
  qed
qed

section \<open>A branch following its edges\<close>

text \<open>The state a running branch may be at: invariant, and the run not over.\<close>

definition running :: "walk_config \<Rightarrow> nat \<Rightarrow> walk_state \<Rightarrow> bool" where
  "running cfg k st \<longleftrightarrow> walk_wf cfg (Suc k) st \<and> w_ends st = []"

lemma leaves_running: "leaves_walk cfg (Suc k) st st' \<Longrightarrow> running cfg k st' \<and> walk_le st st'"
  using walk_wf_live [of cfg k st'] by (auto simp: leaves_walk_def running_def ended_ok_def split: if_splits)

lemma running_ends:
  "running cfg k st \<Longrightarrow> document_bounded cfg \<Longrightarrow> leaves_walk cfg k st (branch_ended cfg st)"
  by (simp add: running_def leaves_branch_ended)

lemma running_report [simp]: "running cfg k (report n rc oc ou st) \<longleftrightarrow> running cfg k st"
  by (simp add: running_def)

lemma running_fail: "running cfg k st \<Longrightarrow> problem_ok cfg r \<Longrightarrow> running cfg k (fail_walk r b st)"
  by (simp add: running_def walk_wf_fail')

lemma running_other [simp]:
  "running cfg k (st\<lparr>w_leaves := l\<rparr>) \<longleftrightarrow> running cfg k st"
  "running cfg k (st\<lparr>w_arrivals := a, w_joined := j\<rparr>) \<longleftrightarrow> running cfg k st"
  by (simp_all add: running_def walk_wf_def)

lemma walk_le_other [simp]:
  "walk_le st (st\<lparr>w_leaves := l\<rparr>)" "walk_le st (st\<lparr>w_arrivals := a, w_joined := j\<rparr>)"
  by (simp_all add: walk_le_def) auto

lemma running_spawn:
  assumes run: "running cfg k st" and doc: "document_bounded cfg"
    and n: "go_node g \<in> set (doc_nodes (cfg_document cfg))"
  shows "running cfg k (spawn cfg g st) \<and> walk_le st (spawn cfg g st)"
proof (cases "cfg_in_turn cfg")
  case True
  then show ?thesis
    using run n by (auto simp: spawn_def running_def walk_wf_def walk_le_def)
next
  case False
  then show ?thesis
    using leaves_running [OF leaves_start_branch [of cfg "Suc k" st g, OF _ _ doc n]] run
    by (auto simp: spawn_def running_def)
qed

lemma running_spawns:
  assumes "running cfg k st" and "document_bounded cfg"
    and "\<forall>g \<in> set gs. go_node g \<in> set (doc_nodes (cfg_document cfg))"
  shows "running cfg k (foldl (\<lambda>s g. spawn cfg g s) st gs)
     \<and> walk_le st (foldl (\<lambda>s g. spawn cfg g s) st gs)"
  using assms
proof (induction gs arbitrary: st)
  case (Cons g gs)
  have one: "running cfg k (spawn cfg g st)" "walk_le st (spawn cfg g st)"
    using running_spawn [of cfg k st g] Cons.prems by simp_all
  then show ?case
    using Cons.IH [OF one(1)] Cons.prems by (auto intro: walk_le_trans)
qed simp

text \<open>Reaching JOINs only moves arrivals.\<close>

definition joins_only :: "walk_state \<Rightarrow> walk_state \<Rightarrow> bool" where
  "joins_only st st' \<longleftrightarrow> st' = st\<lparr>w_arrivals := w_arrivals st', w_joined := w_joined st'\<rparr>"

lemma joins_only_refl [simp]: "joins_only st st"
  by (simp add: joins_only_def)

lemma joins_only_trans: "joins_only s t \<Longrightarrow> joins_only t u \<Longrightarrow> joins_only s u"
  unfolding joins_only_def by (cases s; cases t; cases u) simp

lemma arrive_state: "arrive d st join from a = (st', answer) \<Longrightarrow> joins_only st st'"
  by (auto simp: arrive_def Let_def joins_only_def split: if_splits prod.splits sum.splits)

lemma collect_going_state:
  "collect_going cfg n c bh ms made st = (st', r) \<Longrightarrow> joins_only st st'"
proof (induction cfg n c bh ms made st rule: collect_going.induct)
  case (2 cfg n c bh m ms made st)
  obtain st1 answer where arr: "arrive (cfg_document cfg) st m (gn_id n)
      \<lparr>arr_carried = c, arr_behind = bh\<rparr> = (st1, answer)"
    by (metis surj_pair)
  note st1 = arrive_state [OF arr]
  show ?case
    using 2 arr st1 by (cases "kind_of m \<noteq> KJoin"; cases answer) (auto intro: joins_only_trans)
qed simp

lemma collect_going_nodes:
  assumes "collect_going cfg n c bh ms made st = (st', Inr gs)"
    and "set ms \<subseteq> D" and "\<forall>g \<in> set made. go_node g \<in> D"
  shows "\<forall>g \<in> set gs. go_node g \<in> D"
  using assms
  by (induction cfg n c bh ms made st rule: collect_going.induct)
     (auto split: if_splits prod.splits join_answer.splits)

lemma arrive_problem: "arrive d st join from a = (st', Join_Problem p) \<Longrightarrow> \<exists>m. p = Join_Merge join m"
  by (auto simp: arrive_def Let_def split: if_splits prod.splits sum.splits)

lemma collect_going_problem:
  assumes "collect_going cfg n c bh ms made st = (st', Inl problem)" and "set ms \<subseteq> set (doc_nodes (cfg_document cfg))"
  shows "problem_ok cfg problem"
  using assms
  by (induction cfg n c bh ms made st rule: collect_going.induct)
     (auto split: if_splits prod.splits join_answer.splits dest!: arrive_problem)

lemma next_of_problem:
  "next_of (cfg_document cfg) n named = Inl problem \<Longrightarrow> n \<in> set (doc_nodes (cfg_document cfg)) \<Longrightarrow> problem_ok cfg problem"
  by (auto simp: next_of_def split: option.splits)

lemma next_of_nodes:
  assumes "next_of d n named = Inr ms"
  shows "set ms \<subseteq> set (doc_nodes d)"
proof -
  have fold: "set acc \<subseteq> set (doc_nodes d) \<Longrightarrow> set (foldl (\<lambda>acc e. if edge_from e = i
        then (case node_by_id d (edge_to e) of None \<Rightarrow> acc | Some target \<Rightarrow> set_add target acc)
        else acc) acc es) \<subseteq> set (doc_nodes d)" for i acc es
    by (induction es arbitrary: acc) (simp_all split: option.split add: node_by_id_Some)
  then show ?thesis
    using assms fold [of "[]" "gn_id n" "doc_edges d"]
    by (auto simp: next_of_def split: option.splits dest!: node_by_id_Some)
qed

section \<open>Every event\<close>

lemma running_joins: "joins_only st st' \<Longrightarrow> running cfg k st \<Longrightarrow> running cfg k st'"
  by (metis joins_only_def running_other(2))

lemma walk_le_joins: "joins_only st st' \<Longrightarrow> walk_le st st'"
  by (metis joins_only_def walk_le_other(2))

lemma fresh_joins: "joins_only st st' \<Longrightarrow> fresh_branch st i \<Longrightarrow> fresh_branch st' i"
  unfolding joins_only_def fresh_branch_def by (cases st; cases st') simp

lemma leaves_move_on:
  assumes run: "running cfg k st" and i: "fresh_branch st i" and doc: "document_bounded cfg"
    and n: "n \<in> set (doc_nodes (cfg_document cfg))"
    and enter: "enter_node cfg i n c bh st = (st', alive)"
  shows "leaves_walk cfg k st (if alive then st' else branch_ended cfg st')"
proof -
  have same: "w_live st' = w_live st" "w_ends st' = []"
    using enter_node_live [OF enter] run by (simp_all add: running_def)
  have wf: "walk_wf cfg (if alive then k else Suc k) st'"
    using walk_wf_enter [OF _ i n doc enter] run by (simp add: running_def)
  show ?thesis
  proof (cases alive)
    case True
    then show ?thesis
      using wf same walk_wf_live [of cfg k st] run walk_le_enter [OF enter]
      by (simp add: leaves_walk_def ended_ok_def running_def)
  next
    case False
    then show ?thesis
      using leaves_walk_after [OF walk_le_enter [OF enter] leaves_branch_ended [OF _ same(2) doc]] wf
      by simp
  qed
qed

lemma leaves_after_fail:
  "running cfg k st \<Longrightarrow> document_bounded cfg \<Longrightarrow> problem_ok cfg r \<Longrightarrow>
     leaves_walk cfg k st (branch_ended cfg (fail_walk r b st))"
  using leaves_walk_after [OF walk_le_fail running_ends [OF running_fail]] by blast

lemma leaves_follow:
  assumes run: "running cfg k st" and i: "fresh_branch st i" and doc: "document_bounded cfg"
    and node: "br_node b \<in> set (doc_nodes (cfg_document cfg))"
  shows "leaves_walk cfg k st (follow cfg i b carried named st)"
proof (cases "w_halted st")
  case True
  then show ?thesis using running_ends [OF run doc] by (simp add: follow_def)
next
  case False
  show ?thesis
  proof (cases "next_of (cfg_document cfg) (br_node b) named")
    case (Inl problem)
    then show ?thesis using leaves_after_fail [OF run doc next_of_problem [OF Inl node]] False by (simp add: follow_def)
  next
    case (Inr ms)
    note nodes = next_of_nodes [OF Inr]
    obtain st1 r where collect: "collect_going cfg (br_node b) carried (br_behind b) ms [] st = (st1, r)"
      by (metis surj_pair)
    note joins = collect_going_state [OF collect]
    note run1 = running_joins [OF joins run]
    note after = leaves_walk_after [OF walk_le_joins [OF joins]]
    show ?thesis
    proof (cases ms)
      case Nil
      show ?thesis
        using leaves_walk_after [OF walk_le_other(1) running_ends [OF _ doc]] run Inr Nil False
        by (simp add: follow_def)
    next
      case (Cons m ms')
      have follow: "follow cfg i b carried named st = (case r of
          Inl problem \<Rightarrow> branch_ended cfg (fail_walk problem True st1)
        | Inr [] \<Rightarrow> branch_ended cfg st1
        | Inr [only] \<Rightarrow> (case enter_node cfg i (go_node only) (arr_carried only)
              (br_behind b \<union> arr_behind only) st1 of
            (st2, alive) \<Rightarrow> if alive then st2 else branch_ended cfg st2)
        | Inr several \<Rightarrow> branch_ended cfg (foldl (\<lambda>s g. spawn cfg g s) st1 several))"
        using False Inr Cons collect by (simp add: follow_def split: sum.splits list.splits)
      show ?thesis
      proof (cases r)
        case (Inl problem)
        then show ?thesis
          using after [OF leaves_after_fail [OF run1 doc collect_going_problem [OF _ nodes]]] collect follow by simp
      next
        case going: (Inr gs)
        have D: "\<forall>g \<in> set gs. go_node g \<in> set (doc_nodes (cfg_document cfg))"
          by (rule collect_going_nodes [OF collect [unfolded going] nodes]) simp
        consider "gs = []" | only where "gs = [only]" | g1 g2 gs' where "gs = g1 # g2 # gs'"
          by (metis list.exhaust)
        then show ?thesis
        proof cases
          case 1
          then show ?thesis using after [OF running_ends [OF run1 doc]] follow going by simp
        next
          case 2
          obtain st2 alive where enter: "enter_node cfg i (go_node only) (arr_carried only)
              (br_behind b \<union> arr_behind only) st1 = (st2, alive)"
            by (metis surj_pair)
          show ?thesis
            using after [OF leaves_move_on [OF run1 fresh_joins [OF joins i] doc _ enter]] D 2 follow going enter
            by simp
        next
          case 3
          then show ?thesis
            using running_spawns [OF run1 doc D] follow going
              after [OF leaves_walk_after [OF _ running_ends [OF _ doc]]]
            by simp
        qed
      qed
    qed
  qed
qed

lemma fresh_report [simp]: "fresh_branch (report n rc oc ou st) i \<longleftrightarrow> fresh_branch st i"
  by (simp add: fresh_branch_def)

lemma leaves_continue:
  assumes run: "running cfg k st" and i: "fresh_branch st i" and doc: "document_bounded cfg"
    and node: "br_node b \<in> set (doc_nodes (cfg_document cfg))" and d: "decision_ok cfg d"
  shows "leaves_walk cfg k st (continue_branch cfg i b d st)"
proof -
  note after = leaves_walk_after [OF walk_le_report]
  show ?thesis
    using after [OF running_ends [OF _ doc]] after [OF leaves_after_fail [OF _ doc]]
      after [OF leaves_follow [OF _ _ doc node]] running_ends [OF run doc] run i d
    by (cases d) (auto simp: continue_branch_def split: option.split)
qed

lemma walk_wf_branch:
  assumes "walk_wf cfg k st" and "map_of (w_branches st) i = Some b"
  shows "branch_ok cfg (w_halted st) b" and "fresh_branch (take_branch st i) i"
    and "distinct (keys_of (w_branches st))"
  using assms map_of_SomeD [OF assms(2)] by (auto simp: walk_wf_def fresh_branch_def take_branch_def)

text \<open>A suspended branch goes from one \<open>await\<close> to another, its attempts not growing.\<close>

lemma walk_wf_replace:
  assumes wf: "walk_wf cfg 0 st" and b: "map_of (w_branches st) i = Some b"
    and b': "branch_ok cfg (w_halted st) b'" and left: "attempts_left b' \<le> attempts_left b"
  shows "walk_wf cfg 0 (put_branch i b' ((take_branch st i)\<lparr>w_retrying := w_retrying st + between b' - between b\<rparr>))"
  using wf b b' left walk_wf_branch(2) [OF wf b] length_delete [OF b] sum_values_delete [OF b, of between]
    sum_values_delete [OF b, of attempts_left] set_delete_subset [of i "w_branches st"]
  by (auto simp: walk_wf_def take_branch_def put_branch_def fresh_branch_def)

lemma put_branch_sum:
  "sum_values f (w_branches (put_branch i b' (take_branch st i))) + f b
     = f b' + sum_values f (w_branches st)"
  if "map_of (w_branches st) i = Some b" and "distinct (keys_of (w_branches st))"
  using sum_values_delete [OF that, of f] by (simp add: put_branch_def take_branch_def)

lemma put_simps [simp]:
  "w_halted (put_branch i b st) = w_halted st" "w_ends (put_branch i b st) = w_ends st"
  "w_live (put_branch i b st) = w_live st" "w_queue (put_branch i b st) = w_queue st"
  "w_reached (put_branch i b st) = w_reached st" "w_records (put_branch i b st) = w_records st"
  "w_reports (put_branch i b st) = w_reports st" "w_failure (put_branch i b st) = w_failure st"
  "w_cancelled (put_branch i b st) = w_cancelled st"
  by (simp_all add: put_branch_def)

text \<open>Which events answer an \<open>await\<close> that a branch is at: those the walk makes progress by.\<close>

fun answers :: "walk_event \<Rightarrow> phase \<Rightarrow> bool" where
  "answers (Settled i result) p \<longleftrightarrow> (case p of Executing _ \<Rightarrow> True | _ \<Rightarrow> False)"
| "answers (Timer i) p \<longleftrightarrow> (case p of Backing_Off _ \<Rightarrow> True | _ \<Rightarrow> False)"
| "answers (Resume i) p \<longleftrightarrow> (case p of Resuming _ _ \<Rightarrow> True | _ \<Rightarrow> False)"
| "answers (Continue i) p \<longleftrightarrow> (case p of Deciding _ \<Rightarrow> True | _ \<Rightarrow> False)"
| "answers (Says_Waiting i) p \<longleftrightarrow> False"
| "answers (Says_Child i child) p \<longleftrightarrow> False"
| "answers Cancel p \<longleftrightarrow> False"

fun event_branch :: "walk_event \<Rightarrow> nat option" where
  "event_branch (Settled i result) = Some i"
| "event_branch (Timer i) = Some i"
| "event_branch (Resume i) = Some i"
| "event_branch (Continue i) = Some i"
| "event_branch (Says_Waiting i) = Some i"
| "event_branch (Says_Child i child) = Some i"
| "event_branch Cancel = None"

definition progresses :: "walk_state \<Rightarrow> walk_event \<Rightarrow> bool" where
  "progresses st e = (case event_branch e of
       None \<Rightarrow> False
     | Some i \<Rightarrow> (case map_of (w_branches st) i of None \<Rightarrow> False | Some b \<Rightarrow> answers e (br_phase b)))"

text \<open>What the walk still has to pay for: stretches of suspended branches, less the records made.\<close>

definition pays :: "walk_state \<Rightarrow> walk_state \<Rightarrow> bool" where
  "pays st st' \<longleftrightarrow> sum_values stretches (w_branches st') + 4 * w_records st
       < sum_values stretches (w_branches st) + 4 * w_records st'"

lemma pays_take:
  assumes "map_of (w_branches st) i = Some b" and "distinct (keys_of (w_branches st))"
    and "walk_le (take_branch st i) st'"
  shows "pays st st'"
proof -
  have "1 \<le> stretches b" by (auto simp: stretches_def split: phase.split)
  then show ?thesis
    using sum_values_delete [OF assms(1,2), of stretches] assms(3)
    by (auto simp: pays_def walk_le_def take_branch_def)
qed

lemma put_report: "put_branch i x (report n rc oc ou s) = report n rc oc ou (put_branch i x s)"
  by (cases s) (simp add: put_branch_def report_def)

lemma failed_words_ok:
  assumes "n \<in> set (doc_nodes (cfg_document cfg))" and "attempt \<le> retry_max (gn_retry n)"
    and "retryable \<Longrightarrow> retry_max (gn_retry n) \<le> attempt"
  shows "problem_ok cfg (failed_words n attempt problem retryable)"
  using assms by (auto simp: failed_words_def)

lemma settle_wf:
  assumes wf: "walk_wf cfg 0 st" and b: "map_of (w_branches st) i = Some b" and rc: "br_phase b = Executing rc"
  shows "walk_wf cfg 0 (settle_attempt i b rc result (take_branch st i))"
proof -
  note ok = walk_wf_branch(1) [OF wf b]
  note put = walk_wf_replace [OF wf b]
  have id: "(take_branch st i)\<lparr>w_retrying := w_retrying st\<rparr> = take_branch st i"
    by (cases st) (simp add: take_branch_def)
  show ?thesis
    using ok rc put [of "b\<lparr>br_phase := Deciding d\<rparr>" for d] put [of "b\<lparr>br_phase := Backing_Off (rc_attempt rc)\<rparr>"]
    by (auto simp: settle_attempt_def branch_ok_def between_def attempts_left_def id put_report failed_words_ok
        split: step_result.split)
qed

lemma settle_le:
  assumes wf: "walk_wf cfg 0 st" and b: "map_of (w_branches st) i = Some b" and rc: "br_phase b = Executing rc"
  shows "walk_le st (settle_attempt i b rc result (take_branch st i))
     \<and> pays st (settle_attempt i b rc result (take_branch st i))"
  using rc sum_values_delete [OF b walk_wf_branch(3) [OF wf b], of stretches]
  by (auto simp: settle_attempt_def walk_le_def pays_def report_def put_branch_def take_branch_def stretches_def
      split: step_result.split)

lemma resume_wf:
  assumes wf: "walk_wf cfg 0 st" and b: "map_of (w_branches st) i = Some b" and r: "br_phase b = Resuming attempt waited"
  shows "walk_wf cfg 0 (resume_attempt i b attempt waited (take_branch st i))"
proof -
  have wf1: "walk_wf cfg 1 ((take_branch st i)\<lparr>w_retrying := w_retrying st - 1\<rparr>)"
    using wf b r length_delete [OF b] sum_values_delete [OF b, of between]
      sum_values_delete [OF b, of attempts_left] set_delete_subset [of i "w_branches st"]
    by (auto simp: walk_wf_def take_branch_def between_def)
  have fresh: "fresh_branch ((take_branch st i)\<lparr>w_retrying := x\<rparr>) i" for x
    using walk_wf_branch(2) [OF wf b] by (simp add: fresh_branch_def)
  have ok: "branch_ok cfg (w_halted st) b" by (rule walk_wf_branch(1) [OF wf b])
  have left: "w_records st + sum_values attempts_left (AList.delete i (w_branches st)) + attempts_left b
      \<le> (graph_retry_max + 1) * min graph_nodes_max (w_reached st)"
    using wf sum_values_delete [OF b walk_wf_branch(3) [OF wf b], of attempts_left]
    by (simp add: walk_wf_def)
  show ?thesis
  proof (cases waited)
    case True
    then show ?thesis
      using wf1 fresh ok r left
      by (auto simp: resume_attempt_def Let_def branch_ok_def attempts_left_def take_branch_def
          intro!: walk_wf_begin)
  next
    case False
    have "walk_wf cfg 0 (put_branch i (b\<lparr>br_phase := Deciding (Decided_Halted None)\<rparr>)
        ((take_branch st i)\<lparr>w_retrying := w_retrying st - 1\<rparr>))"
      using walk_wf_replace [OF wf b, of "b\<lparr>br_phase := Deciding (Decided_Halted None)\<rparr>"] ok r
      by (simp add: between_def attempts_left_def branch_ok_def)
    then show ?thesis using False by (simp add: resume_attempt_def Let_def)
  qed
qed

lemma resume_le:
  assumes wf: "walk_wf cfg 0 st" and b: "map_of (w_branches st) i = Some b" and r: "br_phase b = Resuming attempt waited"
  shows "walk_le st (resume_attempt i b attempt waited (take_branch st i))
     \<and> pays st (resume_attempt i b attempt waited (take_branch st i))"
  using r sum_values_delete [OF b walk_wf_branch(3) [OF wf b], of stretches]
  by (auto simp: resume_attempt_def Let_def begin_attempt_def walk_le_def pays_def report_def put_branch_def
      take_branch_def stretches_def)

definition walk_ok :: "walk_config \<Rightarrow> walk_state \<Rightarrow> bool" where
  "walk_ok cfg st \<longleftrightarrow> walk_wf cfg 0 st \<and> ended_ok cfg st"

lemma settle_simps [simp]:
  "w_live (settle_attempt i b rc result st) = w_live st" "w_ends (settle_attempt i b rc result st) = w_ends st"
  "w_queue (settle_attempt i b rc result st) = w_queue st"
  by (simp_all add: settle_attempt_def report_def split: step_result.split)

lemma resume_simps [simp]:
  "w_live (resume_attempt i b a w st) = w_live st" "w_ends (resume_attempt i b a w st) = w_ends st"
  "w_queue (resume_attempt i b a w st) = w_queue st"
  by (simp_all add: resume_attempt_def Let_def)

lemma cancel_simps [simp]:
  "w_live (cancel_walk st) = w_live st" "w_ends (cancel_walk st) = w_ends st"
  "w_queue (cancel_walk st) = w_queue st"
  by (simp_all add: cancel_walk_def halt_walk_def)

lemma ended_ok_cancel: "ended_ok cfg (cancel_walk st) = ended_ok cfg st"
  using left_waiting_joined [of "cancel_walk st" st]
  by (simp add: ended_ok_def clean_success_def true_failure_def) (simp add: cancel_walk_def halt_walk_def)

lemma live_branch: "walk_wf cfg 0 st \<Longrightarrow> map_of (w_branches st) i = Some b \<Longrightarrow> w_live st \<noteq> 0"
  by (auto simp: walk_wf_def)

lemma take_running:
  assumes ok: "walk_ok cfg st" and b: "map_of (w_branches st) i = Some b" and d: "br_phase b = Deciding d"
  shows "running cfg 0 (take_branch st i)"
proof -
  show ?thesis
    using ok live_branch [of cfg, OF _ b] walk_wf_take [of cfg, OF _ b] d by (simp add: running_def walk_ok_def ended_ok_def between_def)
qed

text \<open>One event keeps the invariant, grows the state, and pays when it answers an \<open>await\<close>.\<close>

definition step_ok :: "walk_config \<Rightarrow> walk_state \<Rightarrow> walk_event \<Rightarrow> bool" where
  "step_ok cfg st e \<longleftrightarrow> walk_ok cfg (walk_step cfg st e) \<and> walk_le st (walk_step cfg st e)
     \<and> (progresses st e \<longrightarrow> pays st (walk_step cfg st e))"

lemma step_ok_nothing: "walk_ok cfg st \<Longrightarrow> \<not> progresses st e \<Longrightarrow> walk_step cfg st e = st \<Longrightarrow> step_ok cfg st e"
  by (simp add: step_ok_def)

lemma step_ok_cancel: "walk_ok cfg st \<Longrightarrow> step_ok cfg st Cancel"
  using walk_wf_cancel [of cfg 0 st] walk_le_cancel [of st] ended_ok_cancel [of cfg st]
  by (simp add: step_ok_def walk_ok_def progresses_def)

lemma step_ok_executing:
  assumes ok: "walk_ok cfg st" and e: "event_branch e = Some i" and b: "map_of (w_branches st) i = Some b"
    and x: "br_phase b = Executing rc"
  shows "step_ok cfg st e"
proof -
  have wf: "walk_wf cfg 0 st" and ended: "ended_ok cfg st" using ok by (simp_all add: walk_ok_def)
  have child: "walk_wf cfg 0 (put_branch i (b\<lparr>br_phase := Executing (rc\<lparr>rc_child := c\<rparr>)\<rparr>) (take_branch st i))
      \<and> walk_le st (put_branch i (b\<lparr>br_phase := Executing (rc\<lparr>rc_child := c\<rparr>)\<rparr>) (take_branch st i))" for c
    using walk_wf_replace [OF wf b, of "b\<lparr>br_phase := Executing (rc\<lparr>rc_child := c\<rparr>)\<rparr>"]
      walk_wf_branch(1) [OF wf b] x sum_values_delete [OF b walk_wf_branch(3) [OF wf b], of stretches]
    by (auto simp: between_def attempts_left_def branch_ok_def put_branch_def take_branch_def
        walk_le_def stretches_def)
  show ?thesis
    using e b x ok ended live_branch [OF wf b] settle_wf [OF wf b x] settle_le [OF wf b x] walk_le_report
      child walk_le_trans [OF _ walk_le_report]
    by (cases e) (auto simp: step_ok_def walk_ok_def progresses_def ended_ok_def Let_def)
qed

lemma step_ok_backing_off:
  assumes ok: "walk_ok cfg st" and e: "event_branch e = Some i" and b: "map_of (w_branches st) i = Some b"
    and x: "br_phase b = Backing_Off attempt"
  shows "step_ok cfg st e"
proof -
  have wf: "walk_wf cfg 0 st" and ended: "ended_ok cfg st" using ok by (simp_all add: walk_ok_def)
  have timer: "walk_wf cfg 0 (put_branch i (b\<lparr>br_phase := Resuming attempt True\<rparr>) (take_branch st i))
      \<and> walk_le st (put_branch i (b\<lparr>br_phase := Resuming attempt True\<rparr>) (take_branch st i))
      \<and> pays st (put_branch i (b\<lparr>br_phase := Resuming attempt True\<rparr>) (take_branch st i))"
    using walk_wf_replace [OF wf b, of "b\<lparr>br_phase := Resuming attempt True\<rparr>"]
      walk_wf_branch(1) [OF wf b] x sum_values_delete [OF b walk_wf_branch(3) [OF wf b], of stretches]
    by (auto simp: between_def attempts_left_def branch_ok_def put_branch_def take_branch_def
        walk_le_def stretches_def pays_def)
  show ?thesis
    using e b x timer ended ok live_branch [OF wf b]
    by (cases e) (auto simp: step_ok_def walk_ok_def progresses_def ended_ok_def)
qed

lemma step_ok_deciding:
  assumes ok: "walk_ok cfg st" and doc: "document_bounded cfg" and e: "event_branch e = Some i"
    and b: "map_of (w_branches st) i = Some b" and x: "br_phase b = Deciding d"
  shows "step_ok cfg st e"
proof -
  have wf: "walk_wf cfg 0 st" using ok by (simp add: walk_ok_def)
  note keys = walk_wf_branch(3) [OF wf b]
  have "leaves_walk cfg 0 (take_branch st i) (continue_branch cfg i b d (take_branch st i))"
    using walk_wf_branch(1) [OF wf b] x
    by (intro leaves_continue [OF take_running [OF ok b x] walk_wf_branch(2) [OF wf b] doc]) (simp_all add: branch_ok_def)
  then show ?thesis
    using e b x pays_take [OF b keys] walk_le_trans [OF walk_le_take [OF b keys]] ok
    by (cases e) (auto simp: step_ok_def walk_ok_def progresses_def leaves_walk_def)
qed

lemma step_ok_all:
  assumes ok: "walk_ok cfg st" and doc: "document_bounded cfg"
  shows "step_ok cfg st e"
proof (cases "event_branch e")
  case None
  then show ?thesis using step_ok_cancel [OF ok] by (cases e) auto
next
  case (Some i)
  show ?thesis
  proof (cases "map_of (w_branches st) i")
    case None
    have "\<not> progresses st e" "walk_step cfg st e = st"
      using None Some by (cases e; simp add: progresses_def)+
    then show ?thesis by (rule step_ok_nothing [OF ok])
  next
    case b: (Some b)
    show ?thesis
    proof (cases "br_phase b")
      case (Resuming attempt waited)
      then show ?thesis
        using Some b ok live_branch [of cfg, OF _ b] resume_wf [of cfg, OF _ b Resuming]
          resume_le [of cfg, OF _ b Resuming]
        by (cases e) (auto simp: step_ok_def walk_ok_def progresses_def ended_ok_def)
    qed (use step_ok_executing step_ok_backing_off step_ok_deciding ok doc Some b in blast)+
  qed
qed

section \<open>Every run\<close>

lemma document_bounded_ok: "graph_document_ok (cfg_document cfg) \<Longrightarrow> document_bounded cfg"
  using document_ok_retry by (auto simp: document_bounded_def)

text \<open>The walk is an event machine for each configuration.\<close>

interpretation walk_machine: event_machine "walk_step cfg" "\<lambda>st. document_bounded cfg \<and> walk_ok cfg st"
  for cfg
  by unfold_locales (use step_ok_all in \<open>auto simp: step_ok_def\<close>)


lemma start_walk_ok:
  assumes doc: "document_bounded cfg"
  shows "walk_ok cfg (start_walk cfg) \<and> walk_le fresh_walk (start_walk cfg)"
proof (cases "\<exists>t. triggers_of (cfg_document cfg) = [t]")
  case True
  then obtain t where t: "triggers_of (cfg_document cfg) = [t]" by blast
  then have node: "t \<in> set (doc_nodes (cfg_document cfg))"
    by (metis filter_is_subset list.set_intros(1) subsetD triggers_of_def)
  have wf: "walk_wf cfg 0 fresh_walk" and ends: "w_ends fresh_walk = []" "w_live fresh_walk = 0"
    by (simp_all add: fresh_walk_def walk_wf_def)
  have "leaves_walk cfg 0 fresh_walk (start_branch cfg
      \<lparr>arr_carried = cfg_input cfg, arr_behind = {}, go_node = t\<rparr> fresh_walk)"
    by (rule leaves_start_branch [OF wf ends(1) doc]) (use node ends in simp_all)
  then show ?thesis by (simp add: start_walk_def t walk_ok_def leaves_walk_def)
next
  case False
  then have "start_walk cfg = end_walk (W_Failed (No_Single_Trigger (length (triggers_of (cfg_document cfg)))) True) fresh_walk"
    by (auto simp: start_walk_def split: list.split)
  moreover have "length (triggers_of (cfg_document cfg)) \<noteq> 1"
    using False by (auto simp: length_Suc_conv)
  ultimately show ?thesis
    by (simp add: walk_ok_def end_walk_def fresh_walk_def walk_wf_def ended_ok_def clean_success_def true_failure_def walk_le_def)
qed

lemma walk_run_ok:
  assumes "graph_document_ok (cfg_document cfg)"
  shows "walk_ok cfg (walk_run cfg es)"
  using walk_machine.run_inv [of cfg "start_walk cfg" es] start_walk_ok document_bounded_ok [OF assms]
  by (simp add: walk_run_def)



lemma walk_ok_idle: "walk_ok cfg st \<Longrightarrow> w_branches st = [] \<longleftrightarrow> w_ends st \<noteq> []"
  by (auto simp: walk_ok_def walk_wf_def ended_ok_def split: if_splits)

lemma records_max:
  assumes "walk_wf cfg k st"
  shows "w_records st \<le> graph_run_steps_max"
proof -
  have "w_records st \<le> (graph_retry_max + 1) * min graph_nodes_max (w_reached st)"
    using assms by (simp only: walk_wf_def) linarith
  also have "\<dots> \<le> (graph_retry_max + 1) * graph_nodes_max"
    by (rule mult_le_mono2) simp
  finally show ?thesis by (simp only: graph_run_steps_max_def mult.commute)
qed

section \<open>A run to evaluate on\<close>

definition review_config :: walk_config where
  "review_config = \<lparr>cfg_document = review_graph, cfg_input = [(js ''x'', JNum (js ''1''))],
     cfg_action = False, cfg_in_turn = False\<rparr>"

lemma review_config_ok: "graph_document_ok (cfg_document review_config)"
  by (simp add: review_config_def review_graph_ok)

text \<open>The trigger answers and is followed; both agents start.\<close>

definition review_events :: "walk_event list" where
  "review_events = [Settled 0 (trigger_executor (cfg_input review_config)), Continue 0]"

text \<open>
  Claim C1: the run ends exactly once, and exactly when its last branch does.  After any sequence of
  events the end has been reported at most once; it has been reported if and only if no branch is
  left at an \<open>await\<close>; and then no branch is queued either, so nothing of the run can still happen.
\<close>

theorem walk_ends_once:
  assumes "graph_document_ok (cfg_document cfg)"
  shows "length (w_ends (walk_run cfg es)) \<le> 1
     \<and> (w_ends (walk_run cfg es) \<noteq> [] \<longleftrightarrow> w_branches (walk_run cfg es) = [])
     \<and> (w_ends (walk_run cfg es) \<noteq> [] \<longrightarrow> w_queue (walk_run cfg es) = [] \<and> w_retrying (walk_run cfg es) = 0)"
  using walk_run_ok [OF assms, of es] walk_ok_idle [of cfg "walk_run cfg es"]
  by (auto simp: walk_ok_def walk_wf_def ended_ok_def split: if_splits)

theorem walk_ends_once_witness:
  "length (w_ends (walk_run review_config review_events)) \<le> 1"
  using walk_ends_once [OF review_config_ok, of review_events] by blast



text \<open>How many events of a run answered an \<open>await\<close>.\<close>

fun progress_count :: "walk_config \<Rightarrow> walk_state \<Rightarrow> walk_event list \<Rightarrow> nat" where
  "progress_count cfg st [] = 0"
| "progress_count cfg st (e # es) =
     (if progresses st e then 1 else 0) + progress_count cfg (walk_step cfg st e) es"

lemma progress_count_le:
  assumes "document_bounded cfg" and "walk_ok cfg st"
  shows "progress_count cfg st es + sum_values stretches (w_branches (run (walk_step cfg) st es)) + 4 * w_records st
    \<le> sum_values stretches (w_branches st) + 4 * w_records (run (walk_step cfg) st es)"
  using assms(2)
proof (induction es arbitrary: st)
  case (Cons e es)
  have ok: "step_ok cfg st e" by (rule step_ok_all [OF Cons.prems assms(1)])
  then show ?case
    using Cons.IH [of "walk_step cfg st e"] by (auto simp: step_ok_def pays_def walk_le_def)
qed simp

lemma someone_progresses:
  assumes "w_branches st \<noteq> []"
  shows "\<exists>e. progresses st e"
proof -
  obtain i b rest where br: "w_branches st = (i, b) # rest" using assms by (cases "w_branches st") auto
  show ?thesis
  proof (cases "br_phase b")
    case (Executing rc)
    then have "progresses st (Settled i (StepFail [] True))" using br by (simp add: progresses_def)
    then show ?thesis ..
  next
    case (Backing_Off a)
    then have "progresses st (Timer i)" using br by (simp add: progresses_def)
    then show ?thesis ..
  next
    case (Resuming a w)
    then have "progresses st (Resume i)" using br by (simp add: progresses_def)
    then show ?thesis ..
  next
    case (Deciding d)
    then have "progresses st (Continue i)" using br by (simp add: progresses_def)
    then show ?thesis ..
  qed
qed

text \<open>
  Claim C2: every run ends.  Of any sequence of events at most 4 * 704 = 2816 answer an \<open>await\<close> (an
  executor settling, a backoff over, a branch going on), and as long as the run has not ended there
  is one that does: whatever the document's cycles, a walk whose executors answer comes to an end.
\<close>

theorem walk_terminates:
  assumes "graph_document_ok (cfg_document cfg)"
  shows "progress_count cfg (start_walk cfg) es \<le> 4 * graph_run_steps_max
     \<and> (w_ends (walk_run cfg es) = [] \<longrightarrow> (\<exists>e. progresses (walk_run cfg es) e))"
proof -
  note doc = document_bounded_ok [OF assms]
  have "sum_values stretches (w_branches (start_walk cfg)) \<le> 4 * w_records (start_walk cfg)"
    using start_walk_ok [OF doc] by (simp add: walk_le_def fresh_walk_def)
  moreover have "w_records (walk_run cfg es) \<le> graph_run_steps_max"
    using walk_run_ok [OF assms, of es] records_max by (auto simp: walk_ok_def)
  ultimately have "progress_count cfg (start_walk cfg) es \<le> 4 * graph_run_steps_max"
    using progress_count_le [OF doc, of "start_walk cfg" es] start_walk_ok [OF doc]
    by (simp add: walk_run_def)
  then show ?thesis
    using someone_progresses [of "walk_run cfg es"] walk_ok_idle [OF walk_run_ok [OF assms, of es]] by blast
qed

theorem walk_terminates_witness:
  "progress_count review_config (start_walk review_config) review_events \<le> 4 * graph_run_steps_max"
  using walk_terminates [OF review_config_ok, of review_events] by blast




text \<open>
  A simulation's branches take turns.  Walked \<open>in-turn\<close>, at most one branch is at an
  \<open>await\<close> at any time, so the steps of two branches never interleave.
\<close>

theorem walk_in_turn:
  assumes "graph_document_ok (cfg_document cfg)" and "cfg_in_turn cfg"
  shows "length (w_branches (walk_run cfg es)) \<le> 1 \<and> w_live (walk_run cfg es) \<le> 1"
  using walk_run_ok [OF assms(1), of es] assms(2) by (simp add: walk_ok_def walk_wf_def)

theorem walk_in_turn_witness:
  "w_live (walk_run (review_config\<lparr>cfg_in_turn := True\<rparr>) review_events) \<le> 1"
  using walk_in_turn [of "review_config\<lparr>cfg_in_turn := True\<rparr>" review_events] review_config_ok by simp

lemma left_waiting_None:
  "left_waiting d st m = None \<Longrightarrow> node_by_id d j \<noteq> None \<Longrightarrow> map_of m j = None"
  by (induction m) (auto simp: Let_def split: option.splits)

text \<open>
  Claim C25: a run succeeds only with nothing left over.  When the end of a run is a success, no
  branch failed and no JOIN of the document still holds an arrival that never went on.
\<close>

theorem walk_success_leaves_nothing:
  assumes "graph_document_ok (cfg_document cfg)"
    and "w_ends (walk_run cfg es) = [W_Succeeded output]" and "node_by_id (cfg_document cfg) j \<noteq> None"
  shows "w_failure (walk_run cfg es) = None \<and> map_of (w_arrivals (walk_run cfg es)) j = None"
  using walk_run_ok [OF assms(1), of es] assms(2) left_waiting_None [OF _ assms(3)]
  by (auto simp: walk_ok_def ended_ok_def clean_success_def split: if_splits)

definition solo_config :: walk_config where
  "solo_config = \<lparr>cfg_document = \<lparr>doc_nodes = [plain_node ''t'' Trigger], doc_edges = []\<rparr>,
     cfg_input = [], cfg_action = False, cfg_in_turn = False\<rparr>"

lemma solo_config_ok: "graph_document_ok (cfg_document solo_config)"
  by (simp add: solo_config_def plain_node_def graph_document_ok_def document_issues_def Let_def node_issues_def
      graph_node_ok_def graph_node_id_ok_def graph_retry_ok_def graph_bounds)
     (simp add: js_def graph_id_char_def ident_char_def ident_start_def)

definition solo_events :: "walk_event list" where
  "solo_events = [Settled 0 (StepOk [] None None), Continue 0]"

lemma solo_succeeds: "w_ends (walk_run solo_config solo_events) = [W_Succeeded []]"
  by (simp add: walk_run_def solo_events_def solo_config_def start_walk_def triggers_of_def plain_node_def
      kind_of_def start_branch_def enter_node_def begin_attempt_def report_def put_branch_def fresh_walk_def
      Let_def graph_nodes_max_def has_executor_def settle_attempt_def take_branch_def continue_branch_def
      follow_def next_of_def branch_ended.simps entries_def finish_walk_def end_walk_def walk_result_def
      ended_nodes_def)

theorem walk_success_leaves_nothing_witness:
  "w_ends (walk_run solo_config solo_events) = [W_Succeeded []]
     \<and> map_of (w_arrivals (walk_run solo_config solo_events)) (js ''t'') = None"
proof -
  have "node_by_id (cfg_document solo_config) (js ''t'') \<noteq> None"
    by (simp add: solo_config_def plain_node_def node_by_id_def)
  then show ?thesis
    using walk_success_leaves_nothing [OF solo_config_ok solo_succeeds] solo_succeeds by blast
qed





end
