(* ===== verification/Graph_Store.thy ===== *)
theory Graph_Store
  imports Graph_Document
begin

text \<open>
  \<open>apps/hub/src/graphs/graph-rows.ts\<close> and \<open>graphs.ts\<close>: the rows of a graph, its versions, and what
  publish refuses.

  A table is the list of its rows in insertion order; a query is a filter of it.  The document column
  holds the document itself: the code writes \<open>JSON.stringify\<close> of a parsed document and reads it back
  through the same schema.  Every operation runs in one transaction, so it is one function from
  database to database; a constraint the engine refuses rolls the transaction back and is
  \<open>Insert_Threw\<close>.  Removing a graph's node, which cascades to its rows, is the catalogue's operation
  and is not modelled here.
\<close>

section \<open>Rows\<close>

type_synonym tree_id = jstr

record tree_row =
  tn_id :: tree_id
  tn_parent :: "tree_id option"
  tn_kind :: jstr
  tn_position :: nat
  tn_name :: jstr

record graph_row =
  gr_node :: tree_id
  gr_project :: tree_id
  gr_created :: nat

record version_row =
  vr_graph :: tree_id
  vr_version :: nat
  vr_document :: graph_document
  vr_updated :: nat
  vr_published :: "nat option"

record graph_db =
  db_projects :: "tree_id list"
  db_nodes :: "tree_row list"
  db_graphs :: "graph_row list"
  db_versions :: "version_row list"

definition versions_of :: "graph_db \<Rightarrow> tree_id \<Rightarrow> version_row list" where
  "versions_of db g = filter (\<lambda>r. vr_graph r = g) (db_versions db)"

definition is_draft :: "version_row \<Rightarrow> bool" where
  "is_draft r \<longleftrightarrow> vr_published r = None"

text \<open>The first row of a result, as \<open>result.rows[0]\<close> reads it.\<close>

definition first_row :: "'r list \<Rightarrow> 'r option" where
  "first_row rows = (case rows of [] \<Rightarrow> None | r # rest \<Rightarrow> Some r)"

definition node_name :: "graph_db \<Rightarrow> tree_id \<Rightarrow> jstr option" where
  "node_name db i = map_option tn_name (find (\<lambda>n. tn_id n = i) (db_nodes db))"

section \<open>Reads\<close>

text \<open>\<open>readGraph\<close>: the join with \<open>nodes\<close> is what gives the name.\<close>

definition read_graph :: "graph_db \<Rightarrow> tree_id \<Rightarrow> (tree_id \<times> tree_id \<times> jstr) option" where
  "read_graph db g =
     (case first_row (filter (\<lambda>r. gr_node r = g \<and> node_name db g \<noteq> None) (db_graphs db)) of
        None \<Rightarrow> None
      | Some r \<Rightarrow> map_option (\<lambda>name. (gr_node r, gr_project r, name)) (node_name db g))"

definition read_draft :: "graph_db \<Rightarrow> tree_id \<Rightarrow> version_row option" where
  "read_draft db g = first_row (filter is_draft (versions_of db g))"

definition read_version :: "graph_db \<Rightarrow> tree_id \<Rightarrow> nat \<Rightarrow> version_row option" where
  "read_version db g v = first_row (filter (\<lambda>r. vr_version r = v) (versions_of db g))"

definition newer :: "version_row option \<Rightarrow> version_row \<Rightarrow> version_row option" where
  "newer best r = (case best of
       None \<Rightarrow> Some r
     | Some b \<Rightarrow> if vr_version b < vr_version r then Some r else Some b)"

definition read_latest_published :: "graph_db \<Rightarrow> tree_id \<Rightarrow> version_row option" where
  "read_latest_published db g = foldl newer None (filter (\<lambda>r. \<not> is_draft r) (versions_of db g))"

definition list_published_versions :: "graph_db \<Rightarrow> tree_id \<Rightarrow> version_row list" where
  "list_published_versions db g = sort_key vr_version (filter (\<lambda>r. \<not> is_draft r) (versions_of db g))"

text \<open>\<open>readPublished\<close>: never the draft.\<close>

definition read_published :: "graph_db \<Rightarrow> tree_id \<Rightarrow> nat \<Rightarrow> graph_document option" where
  "read_published db g v =
     (case read_version db g v of
        None \<Rightarrow> None
      | Some r \<Rightarrow> if is_draft r then None else Some (vr_document r))"

section \<open>Creating and saving\<close>

datatype graph_insert = Inserted tree_id | Duplicate | No_Project | Insert_Threw

definition next_position :: "graph_db \<Rightarrow> tree_id \<Rightarrow> nat" where
  "next_position db parent =
     (case filter (\<lambda>n. tn_parent n = Some parent) (db_nodes db) of
        [] \<Rightarrow> 0
      | ns \<Rightarrow> Max (set (map tn_position ns)) + 1)"

definition graph_kind :: jstr where "graph_kind = js ''graph''"

text \<open>\<open>insertGraph\<close>; \<open>new_id\<close> is what the id generator answers, refused when a row already has it.\<close>

definition insert_graph ::
    "graph_db \<Rightarrow> tree_id \<Rightarrow> nat \<Rightarrow> tree_id \<Rightarrow> jstr \<Rightarrow> graph_db \<times> graph_insert" where
  "insert_graph db new_id now project name =
     (if project \<notin> set (db_projects db) then (db, No_Project)
      else if list_ex (\<lambda>r. gr_project r = project \<and> node_name db (gr_node r) = Some name) (db_graphs db)
      then (db, Duplicate)
      else if new_id \<in> tn_id ` set (db_nodes db) \<or> new_id \<in> gr_node ` set (db_graphs db)
      then (db, Insert_Threw)
      else (db\<lparr>
              db_nodes := db_nodes db @ [\<lparr>tn_id = new_id, tn_parent = Some project, tn_kind = graph_kind,
                tn_position = next_position db project, tn_name = name\<rparr>],
              db_graphs := db_graphs db @ [\<lparr>gr_node = new_id, gr_project = project, gr_created = now\<rparr>],
              db_versions := db_versions db @ [\<lparr>vr_graph = new_id, vr_version = 1,
                vr_document = empty_graph_document, vr_updated = now, vr_published = None\<rparr>]\<rparr>,
            Inserted new_id))"

text \<open>\<open>replaceDraft\<close>: the update touches every row of the graph that is not published.\<close>

definition replace_draft ::
    "graph_db \<Rightarrow> tree_id \<Rightarrow> graph_document \<Rightarrow> nat \<Rightarrow> graph_db \<times> nat option" where
  "replace_draft db g document updated_at =
     (db\<lparr>db_versions := map (\<lambda>r. if vr_graph r = g \<and> is_draft r
              then r\<lparr>vr_document := document, vr_updated := updated_at\<rparr> else r) (db_versions db)\<rparr>,
      map_option vr_version (read_draft db g))"

section \<open>Publishing\<close>

datatype publish_problem =
    Needs_Trigger
  | Many_Triggers nat
  | Action_Node graph_node
  | Bad_Pin graph_node tree_id nat
  | Human_Retries graph_node
  | Join_Arity graph_node nat

definition node_problem :: "graph_db \<Rightarrow> graph_document \<Rightarrow> graph_node \<Rightarrow> publish_problem option" where
  "node_problem db document n = (case gn_body n of
       Action name \<Rightarrow> Some (Action_Node n)
     | Subgraph g v \<Rightarrow> if read_published db g v = None then Some (Bad_Pin n g v) else None
     | Human approvers timeout \<Rightarrow> if retry_max (gn_retry n) > 0 then Some (Human_Retries n) else None
     | Join \<Rightarrow>
         (let incoming = length (graph_incoming document (gn_id n))
          in if incoming < 2 then Some (Join_Arity n incoming) else None)
     | Trigger \<Rightarrow> None
     | Router _ _ _ \<Rightarrow> None
     | Agent _ _ _ \<Rightarrow> None)"

fun first_problem :: "graph_db \<Rightarrow> graph_document \<Rightarrow> graph_node list \<Rightarrow> publish_problem option" where
  "first_problem db document [] = None"
| "first_problem db document (n # ns) =
     (case node_problem db document n of Some p \<Rightarrow> Some p | None \<Rightarrow> first_problem db document ns)"

definition trigger_count :: "graph_document \<Rightarrow> nat" where
  "trigger_count document = length (filter (\<lambda>n. kind_of n = KTrigger) (doc_nodes document))"

definition unpublishable :: "graph_db \<Rightarrow> graph_document \<Rightarrow> publish_problem option" where
  "unpublishable db document =
     (if trigger_count document = 0 then Some Needs_Trigger
      else if trigger_count document > 1 then Some (Many_Triggers (trigger_count document))
      else first_problem db document (doc_nodes document))"

datatype publish_outcome = Published nat | Unpublished publish_problem | Publish_Threw

text \<open>\<open>publishDraft\<close>: freeze the draft, then insert the next one as a copy of the frozen row.\<close>

definition stamp :: "tree_id \<Rightarrow> nat \<Rightarrow> nat \<Rightarrow> version_row \<Rightarrow> version_row" where
  "stamp g v now r = (if vr_graph r = g \<and> vr_version r = v then r\<lparr>vr_published := Some now\<rparr> else r)"

definition publish_draft :: "graph_db \<Rightarrow> tree_id \<Rightarrow> nat \<Rightarrow> graph_db \<times> publish_outcome option" where
  "publish_draft db g now =
     (case read_draft db g of
        None \<Rightarrow> (db, None)
      | Some draft \<Rightarrow>
          (case unpublishable db (vr_document draft) of
             Some problem \<Rightarrow> (db, Some (Unpublished problem))
           | None \<Rightarrow>
               (let stamped = map (stamp g (vr_version draft) now) (db_versions db);
                    copies = map (\<lambda>r. r\<lparr>vr_version := vr_version r + 1, vr_updated := now, vr_published := None\<rparr>)
                      (filter (\<lambda>r. vr_graph r = g \<and> vr_version r = vr_version draft) stamped)
                in if list_ex (\<lambda>r. vr_graph r = g \<and> (vr_version r = vr_version draft + 1 \<or> is_draft r)) stamped
                   then (db, Some Publish_Threw)
                   else (db\<lparr>db_versions := stamped @ copies\<rparr>, Some (Published (vr_version draft))))))"

section \<open>The feature\<close>

datatype graph_created = Created tree_id | Needs_Name | No_Such_Project | Already_Called jstr | Create_Threw

text \<open>\<open>create\<close>.\<close>

definition create_graph ::
    "graph_db \<Rightarrow> tree_id \<Rightarrow> nat \<Rightarrow> tree_id \<Rightarrow> jstr \<Rightarrow> graph_db \<times> graph_created" where
  "create_graph db new_id now project name =
     (let trimmed = js_trim name
      in if trimmed = [] then (db, Needs_Name)
         else (case insert_graph db new_id now project trimmed of
                 (db', Inserted i) \<Rightarrow> (db', Created i)
               | (db', Duplicate) \<Rightarrow> (db', Already_Called trimmed)
               | (db', No_Project) \<Rightarrow> (db', No_Such_Project)
               | (db', Insert_Threw) \<Rightarrow> (db', Create_Threw)))"

datatype graph_opened =
    Opened tree_id jstr nat graph_document "version_row list"
  | Open_No_Graph
  | Open_No_Draft

definition open_graph :: "graph_db \<Rightarrow> tree_id \<Rightarrow> graph_opened" where
  "open_graph db g =
     (case read_graph db g of
        None \<Rightarrow> Open_No_Graph
      | Some (node, project, name) \<Rightarrow>
          (case read_draft db g of
             None \<Rightarrow> Open_No_Draft
           | Some draft \<Rightarrow>
               Opened node name (vr_version draft) (vr_document draft) (list_published_versions db g)))"

definition project_of :: "graph_db \<Rightarrow> tree_id \<Rightarrow> tree_id option" where
  "project_of db g = (case read_graph db g of None \<Rightarrow> None | Some (node, project, name) \<Rightarrow> Some project)"

definition latest_published :: "graph_db \<Rightarrow> tree_id \<Rightarrow> (nat \<times> graph_document) option" where
  "latest_published db g =
     (case read_latest_published db g of None \<Rightarrow> None | Some r \<Rightarrow> Some (vr_version r, vr_document r))"

text \<open>The operations that write; a saved document is one the schema parsed at the wire.\<close>

datatype graph_op =
    Create_Op tree_id nat tree_id jstr
  | Save_Op tree_id graph_document nat
  | Publish_Op tree_id nat

fun graph_op_step :: "graph_db \<Rightarrow> graph_op \<Rightarrow> graph_db" where
  "graph_op_step db (Create_Op new_id now project name) = fst (create_graph db new_id now project name)"
| "graph_op_step db (Save_Op g document now) =
     (if graph_document_ok document then fst (replace_draft db g document now) else db)"
| "graph_op_step db (Publish_Op g now) = fst (publish_draft db g now)"

end
