(* ===== verification/Graph_Versions.thy ===== *)
theory Graph_Versions
  imports Graph_Store
begin

text \<open>
  What the version rows of \<open>Graph_Store\<close> promise: a graph is a history of published documents and
  one draft (\<open>abs_graph\<close>), which creating, saving and publishing change as an append-only history
  would; a published version never changes; and every published document keeps the rules publish
  applied, whose pins never form a loop.
\<close>

section \<open>The invariant\<close>





lemma versions_last [simp]: "[1..<n + 2] = [1..<n + 1] @ [n + (1::nat)]"
  by simp

section \<open>Reading a history\<close>




section \<open>Writing\<close>


lemma versions_append [simp]:
  "versions_of (db\<lparr>db_versions := vs @ ws\<rparr>) g
     = versions_of (db\<lparr>db_versions := vs\<rparr>) g @ versions_of (db\<lparr>db_versions := ws\<rparr>) g"
  by (simp add: versions_of_def)

















section \<open>The history as the contract\<close>





section \<open>Published versions\<close>















section \<open>The rules of published documents\<close>



















end
