(* ===== verification/Version_Order.thy ===== *)
theory Version_Order
  imports Json "HOL-Library.List_Lexorder" "HOL-Library.Product_Lexorder"
begin

text \<open>
  \<open>packages/release/src/version-order.ts\<close>: which of two released versions is newer; and the grammar of
  a release version of \<open>versions-manifest.ts\<close>.

  The abstract order is a linear order on \<open>version_key\<close>: the three numbers, then the prerelease
  identifiers, a release after all of its prereleases.  \<open>compare_versions\<close> is the code's comparison;
  on release versions it is that order.  \<open>Number\<close> of a run of digits is its value as a natural number,
  which is exact below \<open>2 ^ 53\<close>.
\<close>

section \<open>The code's comparison\<close>

definition js_number :: "jstr \<Rightarrow> nat" where
  "js_number s = digits_value 0 s"

text \<open>\<open>/^(0|[1-9]\d*)$/\<close> and \<open>/^\d+$/\<close>.\<close>

definition number_text :: "jstr \<Rightarrow> bool" where
  "number_text s \<longleftrightarrow> s = [48] \<or> (s \<noteq> [] \<and> hd s \<noteq> 48 \<and> list_all digit_char s)"

definition all_digits :: "jstr \<Rightarrow> bool" where
  "all_digits s \<longleftrightarrow> s \<noteq> [] \<and> list_all digit_char s"

text \<open>\<open>text.split(d, 1)[0]\<close>, and the text after the first \<open>d\<close> where there is one.\<close>

definition before :: "jchar \<Rightarrow> jstr \<Rightarrow> jstr" where
  "before d s = takeWhile (\<lambda>c. c \<noteq> d) s"

definition after :: "jchar \<Rightarrow> jstr \<Rightarrow> jstr option" where
  "after d s = (case dropWhile (\<lambda>c. c \<noteq> d) s of [] \<Rightarrow> None | c # rest \<Rightarrow> Some rest)"

type_synonym parsed_version = "nat list \<times> jstr list option"

definition parse_version :: "jstr \<Rightarrow> parsed_version option" where
  "parse_version version =
     (let without_build = before c_plus version;
          core = before c_minus without_build;
          parts = js_split c_dot core
      in if length parts \<noteq> 3 \<or> \<not> list_all number_text parts then None
         else (case after c_minus without_build of
                 None \<Rightarrow> Some (map js_number parts, None)
               | Some tail \<Rightarrow>
                   if tail = [] \<or> list_ex (\<lambda>one. one = []) (js_split c_dot tail) then None
                   else Some (map js_number parts, Some (js_split c_dot tail))))"

fun compare_numbers :: "nat list \<Rightarrow> nat list \<Rightarrow> int" where
  "compare_numbers (a # as) (b # bs) = (if a \<noteq> b then int a - int b else compare_numbers as bs)"
| "compare_numbers as bs = 0"

text \<open>\<open>a < b\<close> of JavaScript strings: by code unit, a proper prefix first.\<close>

fun js_less :: "jstr \<Rightarrow> jstr \<Rightarrow> bool" where
  "js_less [] [] = False"
| "js_less [] (d # ds) = True"
| "js_less (c # cs) [] = False"
| "js_less (c # cs) (d # ds) \<longleftrightarrow> c < d \<or> (c = d \<and> js_less cs ds)"

fun compare_prerelease :: "jstr list \<Rightarrow> jstr list \<Rightarrow> int" where
  "compare_prerelease [] [] = 0"
| "compare_prerelease [] (b # bs) = - 1"
| "compare_prerelease (a # as) [] = 1"
| "compare_prerelease (a # as) (b # bs) =
     (if a = b then compare_prerelease as bs
      else if all_digits a \<and> all_digits b then int (js_number a) - int (js_number b)
      else if all_digits a then - 1
      else if all_digits b then 1
      else if js_less a b then - 1 else 1)"

definition compare_versions :: "jstr \<Rightarrow> jstr \<Rightarrow> int option" where
  "compare_versions left right =
     (case (parse_version left, parse_version right) of
        (Some (as, a), Some (bs, b)) \<Rightarrow>
          Some (if compare_numbers as bs \<noteq> 0 then compare_numbers as bs
                else (case (a, b) of
                        (None, None) \<Rightarrow> 0
                      | (None, Some _) \<Rightarrow> 1
                      | (Some _, None) \<Rightarrow> - 1
                      | (Some x, Some y) \<Rightarrow> compare_prerelease x y))
      | _ \<Rightarrow> None)"

definition is_newer_version :: "jstr \<Rightarrow> jstr \<Rightarrow> bool" where
  "is_newer_version candidate installed =
     (case compare_versions candidate installed of None \<Rightarrow> False | Some order \<Rightarrow> order > 0)"

section \<open>Release versions\<close>

text \<open>The expression \<open>SEMVER\<close>: numbers without leading zeroes, also as prerelease identifiers.\<close>

definition word_char :: "jchar \<Rightarrow> bool" where
  "word_char c \<longleftrightarrow> digit_char c \<or> (65 \<le> c \<and> c \<le> 90) \<or> (97 \<le> c \<and> c \<le> 122) \<or> c = c_minus"

definition build_ident :: "jstr \<Rightarrow> bool" where
  "build_ident s \<longleftrightarrow> s \<noteq> [] \<and> list_all word_char s"

definition pre_ident :: "jstr \<Rightarrow> bool" where
  "pre_ident s \<longleftrightarrow> build_ident s \<and> (all_digits s \<longrightarrow> number_text s)"

definition is_release_version :: "jstr \<Rightarrow> bool" where
  "is_release_version v \<longleftrightarrow>
     length (js_split c_dot (before c_minus (before c_plus v))) = 3
     \<and> list_all number_text (js_split c_dot (before c_minus (before c_plus v)))
     \<and> (case after c_minus (before c_plus v) of
          None \<Rightarrow> True | Some tail \<Rightarrow> list_all pre_ident (js_split c_dot tail))
     \<and> (case after c_plus v of
          None \<Rightarrow> True | Some build \<Rightarrow> list_all build_ident (js_split c_dot build))"

section \<open>The abstract order\<close>

datatype ident = Numeric nat | Alpha jstr

instantiation ident :: linorder
begin

fun less_eq_ident :: "ident \<Rightarrow> ident \<Rightarrow> bool" where
  "less_eq_ident (Numeric m) (Numeric n) \<longleftrightarrow> m \<le> n"
| "less_eq_ident (Numeric m) (Alpha t) \<longleftrightarrow> True"
| "less_eq_ident (Alpha s) (Numeric n) \<longleftrightarrow> False"
| "less_eq_ident (Alpha s) (Alpha t) \<longleftrightarrow> s \<le> t"

definition less_ident :: "ident \<Rightarrow> ident \<Rightarrow> bool" where
  "less_ident x y \<longleftrightarrow> x \<le> y \<and> \<not> y \<le> (x :: ident)"

instance
proof
  fix x y z :: ident
  show "x < y \<longleftrightarrow> x \<le> y \<and> \<not> y \<le> x" by (simp add: less_ident_def)
  show "x \<le> x" by (cases x) simp_all
  show "x \<le> y \<Longrightarrow> y \<le> z \<Longrightarrow> x \<le> z" by (cases x; cases y; cases z) auto
  show "x \<le> y \<Longrightarrow> y \<le> x \<Longrightarrow> x = y" by (cases x; cases y) auto
  show "x \<le> y \<or> y \<le> x" by (cases x; cases y) auto
qed

end

lemma ident_less [simp]:
  "Numeric m < Numeric n \<longleftrightarrow> m < n" "Numeric m < Alpha t" "\<not> Alpha s < Numeric n"
  "Alpha s < Alpha t \<longleftrightarrow> s < t"
  by (auto simp: less_ident_def)

text \<open>The tail of a version: the release itself comes after all of its prereleases.\<close>

datatype version_tail = Pre "ident list" | Final

instantiation version_tail :: linorder
begin

fun less_eq_version_tail :: "version_tail \<Rightarrow> version_tail \<Rightarrow> bool" where
  "less_eq_version_tail (Pre s) (Pre t) \<longleftrightarrow> s \<le> t"
| "less_eq_version_tail (Pre s) Final \<longleftrightarrow> True"
| "less_eq_version_tail Final (Pre t) \<longleftrightarrow> False"
| "less_eq_version_tail Final Final \<longleftrightarrow> True"

definition less_version_tail :: "version_tail \<Rightarrow> version_tail \<Rightarrow> bool" where
  "less_version_tail x y \<longleftrightarrow> x \<le> y \<and> \<not> y \<le> (x :: version_tail)"

instance
proof
  fix x y z :: version_tail
  show "x < y \<longleftrightarrow> x \<le> y \<and> \<not> y \<le> x" by (simp add: less_version_tail_def)
  show "x \<le> x" by (cases x) simp_all
  show "x \<le> y \<Longrightarrow> y \<le> z \<Longrightarrow> x \<le> z" by (cases x; cases y; cases z) auto
  show "x \<le> y \<Longrightarrow> y \<le> x \<Longrightarrow> x = y" by (cases x; cases y) auto
  show "x \<le> y \<or> y \<le> x" by (cases x; cases y) auto
qed

end

lemma tail_less [simp]:
  "Pre s < Pre t \<longleftrightarrow> s < t" "Pre s < Final" "\<not> Final < u"
  by (auto simp: less_version_tail_def) (cases u; simp)

type_synonym version_key = "nat list \<times> version_tail"

definition ident_of :: "jstr \<Rightarrow> ident" where
  "ident_of s = (if all_digits s then Numeric (js_number s) else Alpha s)"

definition tail_of :: "jstr list option \<Rightarrow> version_tail" where
  "tail_of t = (case t of None \<Rightarrow> Final | Some idents \<Rightarrow> Pre (map ident_of idents))"

text \<open>The key of a release version: everything but its build metadata.\<close>

definition version_key :: "jstr \<Rightarrow> version_key" where
  "version_key v = (case parse_version v of None \<Rightarrow> ([], Final) | Some (ns, t) \<Rightarrow> (ns, tail_of t))"

section \<open>The comparison is the order\<close>

definition agrees :: "int \<Rightarrow> 'a::linorder \<Rightarrow> 'a \<Rightarrow> bool" where
  "agrees k x y \<longleftrightarrow> (k < 0 \<longleftrightarrow> x < y) \<and> (k = 0 \<longleftrightarrow> x = y)"

lemma agrees_pos: "agrees k x y \<Longrightarrow> k > 0 \<longleftrightarrow> y < x"
  by (auto simp: agrees_def)

text \<open>A number without leading zeroes is known by its value.\<close>

lemma digits_value_acc: "digits_value n s = n * 10 ^ length s + digits_value 0 s"
proof (induction s arbitrary: n)
  case (Cons c s)
  show ?case
    using Cons [of "10 * n + (c - 48)"] Cons [of "c - 48"] by (simp add: algebra_simps)
qed simp

lemma digits_value_snoc: "digits_value n (s @ [c]) = 10 * digits_value n s + (c - 48)"
  by (induction s arbitrary: n) simp_all

lemma js_number_snoc: "js_number (s @ [c]) = 10 * js_number s + (c - 48)"
  by (simp add: js_number_def digits_value_snoc)

lemma number_text_snoc:
  assumes "number_text (s @ [c])" and "s \<noteq> []"
  shows "number_text s" and "digit_char c" and "js_number s \<noteq> 0"
proof -
  have d: "list_all digit_char s" "hd s \<noteq> 48" and c: "digit_char c"
    using assms by (auto simp: number_text_def)
  show "number_text s" "digit_char c" using d c assms(2) by (auto simp: number_text_def)
  obtain h t where s: "s = h # t" using assms(2) by (cases s) auto
  then have "0 < h - 48" using d by (auto simp: digit_char_def)
  then show "js_number s \<noteq> 0"
    using digits_value_acc [of "h - 48" t] by (simp add: js_number_def s)
qed

lemma number_text_zero: "number_text (s @ [c]) \<Longrightarrow> s = [] \<longleftrightarrow> js_number s = 0"
  using number_text_snoc(3) [of s c] by (cases "s = []") (simp_all add: js_number_def)

lemma number_text_single: "number_text [c] \<Longrightarrow> digit_char c"
  by (auto simp: number_text_def digit_char_def)

lemma last_digit: "10 * a + x = 10 * b + y \<Longrightarrow> x < 10 \<Longrightarrow> y < 10 \<Longrightarrow> a = b \<and> x = (y :: nat)"
  by presburger

lemma js_number_inject:
  assumes "number_text s" and "number_text t" and "js_number s = js_number t"
  shows "s = t"
  using assms
proof (induction s arbitrary: t rule: rev_induct)
  case Nil
  then show ?case by (simp add: number_text_def)
next
  case (snoc c s)
  have "t \<noteq> []" using snoc.prems(2) by (auto simp: number_text_def)
  then obtain u d where t: "t = u @ [d]" by (metis append_butlast_last_id)
  have c: "digit_char c" using number_text_snoc(2) [OF snoc.prems(1)] number_text_single snoc.prems(1) by (cases "s = []") auto
  have d: "digit_char d" using number_text_snoc(2) [of u d] number_text_single snoc.prems(2) t by (cases "u = []") auto
  have eq: "10 * js_number s + (c - 48) = 10 * js_number u + (d - 48)"
    using snoc.prems(3) by (simp add: t js_number_snoc)
  have small: "c - 48 < 10" "d - 48 < 10" using c d by (auto simp: digit_char_def)
  have same: "js_number s = js_number u \<and> c - 48 = d - 48" by (rule last_digit [OF eq small])
  then have "c = d" using c d by (auto simp: digit_char_def)
  moreover have "s = u"
  proof (cases "s = [] \<or> u = []")
    case True
    then show ?thesis
      using same number_text_zero [of s c] number_text_zero [of u d] snoc.prems(1,2) t by auto
  next
    case False
    then show ?thesis
      using snoc.IH [of u] same number_text_snoc(1) [of s c] number_text_snoc(1) [of u d] snoc.prems t by simp
  qed
  ultimately show ?case by (simp add: t)
qed

lemma js_less_iff [simp]: "js_less s t \<longleftrightarrow> s < t"
  by (induction s t rule: js_less.induct) auto

lemma ident_of_inject:
  assumes "pre_ident a" and "pre_ident b"
  shows "ident_of a = ident_of b \<longleftrightarrow> a = b"
  using assms js_number_inject [of a b] by (auto simp: ident_of_def pre_ident_def)

lemma compare_prerelease_agrees:
  assumes "list_all pre_ident as" and "list_all pre_ident bs"
  shows "agrees (compare_prerelease as bs) (map ident_of as) (map ident_of bs)"
  using assms
proof (induction as bs rule: compare_prerelease.induct)
  case (4 a as b bs)
  show ?case
  proof (cases "a = b")
    case True
    then show ?thesis using 4 by (simp add: agrees_def)
  next
    case False
    then have "ident_of a \<noteq> ident_of b" using 4 by (simp add: ident_of_inject)
    then show ?thesis using False by (auto simp: agrees_def ident_of_def)
  qed
qed (simp_all add: agrees_def)

lemma compare_numbers_agrees:
  "length as = length bs \<Longrightarrow> agrees (compare_numbers as bs) as bs"
  by (induction as bs rule: compare_numbers.induct) (auto simp: agrees_def)

lemma release_parses:
  assumes "is_release_version v"
  obtains ns t where "parse_version v = Some (ns, t)" "length ns = 3"
    "\<And>idents. t = Some idents \<Longrightarrow> list_all pre_ident idents \<and> idents \<noteq> []"
proof -
  let ?parts = "js_split c_dot (before c_minus (before c_plus v))"
  have parts: "length ?parts = 3" "list_all number_text ?parts"
    using assms by (simp_all add: is_release_version_def)
  show ?thesis
  proof (cases "after c_minus (before c_plus v)")
    case None
    then show ?thesis
      using that [of "map js_number ?parts" None] parts by (simp add: parse_version_def Let_def)
  next
    case (Some tail)
    have idents: "list_all pre_ident (js_split c_dot tail)"
      using assms Some by (simp add: is_release_version_def)
    then have "tail \<noteq> []" "\<not> list_ex (\<lambda>one. one = []) (js_split c_dot tail)"
      by (auto simp: pre_ident_def build_ident_def list_all_iff list_ex_iff)
    then show ?thesis
      using that [of "map js_number ?parts" "Some (js_split c_dot tail)"] parts Some idents
      by (simp add: parse_version_def Let_def)
  qed
qed

text \<open>Two texts with the same key differ in their build metadata at most.\<close>

lemma before_after: "before d s @ (case after d s of None \<Rightarrow> [] | Some rest \<Rightarrow> d # rest) = s"
proof (cases "dropWhile (\<lambda>c. c \<noteq> d) s")
  case Nil
  have "takeWhile (\<lambda>c. c \<noteq> d) s = s"
    using takeWhile_dropWhile_id [of "\<lambda>c. c \<noteq> d" s] unfolding Nil by simp
  then show ?thesis unfolding before_def after_def Nil by simp
next
  case (Cons c rest)
  then have "c = d" using hd_dropWhile [of "\<lambda>c. c \<noteq> d" s] by simp
  then show ?thesis
    using Cons takeWhile_dropWhile_id [of "\<lambda>c. c \<noteq> d" s] by (simp add: before_def after_def)
qed

lemma map_inject_on:
  "list_all P xs \<Longrightarrow> list_all P ys \<Longrightarrow> (\<And>x y. P x \<Longrightarrow> P y \<Longrightarrow> f x = f y \<Longrightarrow> x = y) \<Longrightarrow> map f xs = map f ys \<longleftrightarrow> xs = ys"
proof (induction xs arbitrary: ys)
  case (Cons x xs)
  then show ?case by (cases ys) auto
qed (auto simp: eq_commute)

lemma js_split_inject: "js_split d s = js_split d t \<longleftrightarrow> s = t"
  by (metis js_join_split)

lemma map_option_inject: "map_option (js_split d) x = map_option (js_split d) y \<longleftrightarrow> x = y"
  by (cases x; cases y) (auto simp: js_split_inject)

lemma version_key_text:
  assumes a: "is_release_version a" and b: "is_release_version b"
  shows "version_key a = version_key b \<longleftrightarrow> before c_plus a = before c_plus b"
proof
  assume "before c_plus a = before c_plus b"
  then show "version_key a = version_key b" by (simp add: version_key_def parse_version_def)
next
  assume key: "version_key a = version_key b"
  let ?p = "\<lambda>v. js_split c_dot (before c_minus (before c_plus v))"
  let ?t = "\<lambda>v. map_option (js_split c_dot) (after c_minus (before c_plus v))"
  have parse: "parse_version v = Some (map js_number (?p v), ?t v)
      \<and> list_all number_text (?p v) \<and> (\<forall>is. ?t v = Some is \<longrightarrow> list_all pre_ident is)"
    if v: "is_release_version v" for v
  proof -
    have "\<not> list_ex (\<lambda>one. one = []) is" if "list_all pre_ident is" for "is"
      using that by (auto simp: pre_ident_def build_ident_def list_all_iff list_ex_iff)
    moreover have "\<not> list_all pre_ident (js_split c_dot [])" by (simp add: pre_ident_def build_ident_def)
    ultimately show ?thesis
      using v by (auto simp: is_release_version_def parse_version_def Let_def split: option.splits)
  qed
  have parts: "?p a = ?p b"
    using key parse [OF a] parse [OF b] js_number_inject
      map_inject_on [of number_text "?p a" "?p b" js_number]
    by (simp add: version_key_def)
  have tails: "?t a = ?t b"
  proof -
    have "tail_of (?t a) = tail_of (?t b)" using key parse [OF a] parse [OF b] by (simp add: version_key_def)
    then show ?thesis
      using parse [OF a] parse [OF b] ident_of_inject map_inject_on [of pre_ident _ _ ident_of]
      by (auto simp: tail_of_def split: option.splits)
  qed
  show "before c_plus a = before c_plus b"
    using parts [unfolded js_split_inject] tails [unfolded map_option_inject] by (metis before_after)
qed

text \<open>Every number of a version is one \<open>Number\<close> reads exactly.\<close>

definition exact_version :: "jstr \<Rightarrow> bool" where
  "exact_version v \<longleftrightarrow> (case parse_version v of
       None \<Rightarrow> True
     | Some (ns, t) \<Rightarrow> list_all (\<lambda>n. n < 2 ^ 53) ns
         \<and> (case t of None \<Rightarrow> True
              | Some idents \<Rightarrow> list_all (\<lambda>i. all_digits i \<longrightarrow> js_number i < 2 ^ 53) idents))"

lemma compare_release:
  assumes "is_release_version a" and "is_release_version b"
  shows "\<exists>k. compare_versions a b = Some k \<and> agrees k (version_key a) (version_key b)"
proof -
  obtain ns s where a: "parse_version a = Some (ns, s)" "length ns = 3"
      "\<And>idents. s = Some idents \<Longrightarrow> list_all pre_ident idents \<and> idents \<noteq> []"
    using release_parses [OF assms(1)] by blast
  obtain ms t where b: "parse_version b = Some (ms, t)" "length ms = 3"
      "\<And>idents. t = Some idents \<Longrightarrow> list_all pre_ident idents \<and> idents \<noteq> []"
    using release_parses [OF assms(2)] by blast
  define tails :: int where "tails = (case (s, t) of (None, None) \<Rightarrow> 0 | (None, Some _) \<Rightarrow> 1
      | (Some _, None) \<Rightarrow> - 1 | (Some x, Some y) \<Rightarrow> compare_prerelease x y)"
  have tails: "agrees tails (tail_of s) (tail_of t)"
    using compare_prerelease_agrees a(3) b(3)
    by (cases s; cases t) (auto simp: tails_def tail_of_def agrees_def)
  have numbers: "agrees (compare_numbers ns ms) ns ms"
    by (rule compare_numbers_agrees) (simp add: a(2) b(2))
  define k where "k = (if compare_numbers ns ms \<noteq> 0 then compare_numbers ns ms else tails)"
  have "agrees k (version_key a) (version_key b)"
    using tails numbers by (auto simp: k_def agrees_def version_key_def a(1) b(1))
  moreover have "compare_versions a b = Some k"
    by (cases s; cases t) (auto simp: compare_versions_def a(1) b(1) k_def tails_def)
  ultimately show ?thesis by blast
qed

text \<open>
  Claim C37: comparing releases is one linear order.  On release versions the comparison always has an
  answer, negative, zero or positive exactly as the first key is before, equal to or after the second:
  by the three numbers, then a prerelease before its release, then the prerelease identifiers one by
  one, numbers before words and a shorter list first.  Two releases compare as the same exactly when their
  texts differ in build metadata at most.  (Numbers are below \<open>2 ^ 53\<close>, where \<open>Number\<close> is exact.)
\<close>

theorem compare_versions_is_order:
  assumes "is_release_version a" and "is_release_version b" and "exact_version a" and "exact_version b"
  shows "\<exists>k. compare_versions a b = Some k
     \<and> (k < 0 \<longleftrightarrow> version_key a < version_key b)
     \<and> (k = 0 \<longleftrightarrow> version_key a = version_key b)
     \<and> (k > 0 \<longleftrightarrow> version_key b < version_key a)
     \<and> (k = 0 \<longleftrightarrow> before c_plus a = before c_plus b)"
  using compare_release [OF assms(1,2)] version_key_text [OF assms(1,2)] agrees_pos
  by (auto simp: agrees_def)

lemmas version_eval = is_release_version_def exact_version_def parse_version_def before_def after_def
  number_text_def all_digits_def digit_char_def pre_ident_def build_ident_def word_char_def js_number_def
  js_def Let_def

theorem compare_versions_is_order_witness:
  "\<exists>k. compare_versions (js ''1.5.0-rc.1'') (js ''1.5.0'') = Some k
     \<and> (k < 0 \<longleftrightarrow> version_key (js ''1.5.0-rc.1'') < version_key (js ''1.5.0''))"
proof -
  have "is_release_version (js ''1.5.0-rc.1'')" "is_release_version (js ''1.5.0'')"
    and "exact_version (js ''1.5.0-rc.1'')" "exact_version (js ''1.5.0'')"
    by (simp_all add: version_eval)
  then show ?thesis using compare_versions_is_order by blast
qed

text \<open>
  Outside the grammar the comparison is no order: \<open>parse\<close> takes a prerelease number with a leading
  zero, and then \<open>1.0.0-01.5\<close> is the same release as \<open>1.0.0-1.6\<close> and as \<open>1.0.0-1.5\<close>, though the last
  two are not the same.
\<close>

lemma compare_leading_zero:
  "compare_versions (js ''1.0.0-01.5'') (js ''1.0.0-1.6'') = Some 0"
  "compare_versions (js ''1.0.0-01.5'') (js ''1.0.0-1.5'') = Some 0"
  "compare_versions (js ''1.0.0-1.6'') (js ''1.0.0-1.5'') = Some 1"
  by (simp_all add: compare_versions_def version_eval)

end
