(* ===== verification/Release_Pins.thy ===== *)
theory Release_Pins
  imports Version_Order
begin

text \<open>
  \<open>packages/release/src/pin.ts\<close> and \<open>versions-manifest.ts\<close>: what a pin names, which release a series
  resolves to, and the entry of a component that a release publishes.

  \<open>newest_by\<close> and \<open>sort_newest\<close> are the two ways the code uses a comparison; the locale
  \<open>release_order\<close> says what they promise for a comparison that is a linear order of keys, and it is
  interpreted on \<open>compare_versions\<close>.
\<close>

section \<open>Using a comparison\<close>

text \<open>\<open>(compare(one, best) ?? 0) > 0\<close>, and the loop (or reduce) that keeps the newest.\<close>

definition beats :: "('a \<Rightarrow> 'a \<Rightarrow> int option) \<Rightarrow> 'a \<Rightarrow> 'a \<Rightarrow> bool" where
  "beats compare one best = (case compare one best of None \<Rightarrow> False | Some k \<Rightarrow> k > 0)"

fun newest_by :: "('a \<Rightarrow> 'a \<Rightarrow> int option) \<Rightarrow> 'a option \<Rightarrow> 'a list \<Rightarrow> 'a option" where
  "newest_by compare best [] = best"
| "newest_by compare best (one # rest) =
     (case best of
        None \<Rightarrow> newest_by compare (Some one) rest
      | Some b \<Rightarrow> newest_by compare (Some (if beats compare one b then one else b)) rest)"

text \<open>\<open>sort\<close> with the comparison negated: stable, newest first.\<close>

fun insert_newest :: "('a \<Rightarrow> 'a \<Rightarrow> int option) \<Rightarrow> 'a \<Rightarrow> 'a list \<Rightarrow> 'a list" where
  "insert_newest compare x [] = [x]"
| "insert_newest compare x (y # ys) =
     (if beats compare y x then y # insert_newest compare x ys else x # y # ys)"

fun sort_newest :: "('a \<Rightarrow> 'a \<Rightarrow> int option) \<Rightarrow> 'a list \<Rightarrow> 'a list" where
  "sort_newest compare [] = []"
| "sort_newest compare (x # xs) = insert_newest compare x (sort_newest compare xs)"

lemma set_insert_newest [simp]: "set (insert_newest compare x ys) = insert x (set ys)"
  by (induction ys) auto

lemma set_sort_newest [simp]: "set (sort_newest compare xs) = set xs"
  by (induction xs) auto

locale release_order =
  fixes compare :: "'a \<Rightarrow> 'a \<Rightarrow> int option"
    and valid :: "'a \<Rightarrow> bool"
    and key :: "'a \<Rightarrow> 'k::linorder"
  assumes compare_key: "valid a \<Longrightarrow> valid b \<Longrightarrow> beats compare a b \<longleftrightarrow> key b < key a"
begin

lemma newest_some:
  assumes "valid b" and "\<forall>x \<in> set xs. valid x"
  shows "\<exists>r. newest_by compare (Some b) xs = Some r \<and> r \<in> insert b (set xs) \<and> (\<forall>x \<in> insert b (set xs). key x \<le> key r)"
  using assms
proof (induction xs arbitrary: b)
  case (Cons x xs)
  let ?c = "if beats compare x b then x else b"
  have beat: "beats compare x b \<longleftrightarrow> key b < key x" using Cons.prems compare_key by simp
  have c: "valid ?c" using Cons.prems by simp
  obtain r where r: "newest_by compare (Some ?c) xs = Some r" "r \<in> insert ?c (set xs)"
      "\<forall>y \<in> insert ?c (set xs). key y \<le> key r"
    using Cons.IH [OF c] Cons.prems(2) by auto
  have "key b \<le> key ?c" "key x \<le> key ?c" using beat by auto
  then show ?case using r by (auto intro: order_trans split: if_splits)
qed simp

lemma newest_none:
  assumes "\<forall>x \<in> set xs. valid x"
  shows "newest_by compare None xs = None \<longleftrightarrow> xs = []"
    and "newest_by compare None xs = Some r \<Longrightarrow> r \<in> set xs \<and> (\<forall>x \<in> set xs. key x \<le> key r)"
proof -
  show "newest_by compare None xs = None \<longleftrightarrow> xs = []"
    using assms newest_some [of "hd xs" "tl xs"] by (cases xs) auto
  show "newest_by compare None xs = Some r \<Longrightarrow> r \<in> set xs \<and> (\<forall>x \<in> set xs. key x \<le> key r)"
    using assms newest_some [of "hd xs" "tl xs"] by (cases xs) auto
qed

lemma mset_sort_newest: "length (sort_newest compare xs) = length xs"
proof -
  have "length (insert_newest compare x ys) = Suc (length ys)" for x ys
    by (induction ys) auto
  then show ?thesis by (induction xs) auto
qed

lemma sorted_newest:
  "\<forall>x \<in> set xs. valid x \<Longrightarrow> sorted_wrt (\<lambda>x y. key y \<le> key x) (sort_newest compare xs)"
proof (induction xs)
  case (Cons x xs)
  have "sorted_wrt (\<lambda>x y. key y \<le> key x) ys \<Longrightarrow> \<forall>y \<in> set (x # ys). valid y
      \<Longrightarrow> sorted_wrt (\<lambda>x y. key y \<le> key x) (insert_newest compare x ys)" for ys
    by (induction ys) (auto simp: compare_key intro: order_trans)
  then show ?case using Cons by simp
qed simp

end

section \<open>The releases are such an order\<close>

interpretation versions: release_order compare_versions "\<lambda>v. is_release_version v \<and> exact_version v" version_key
proof unfold_locales
  show "beats compare_versions a b \<longleftrightarrow> version_key b < version_key a"
    if "is_release_version a \<and> exact_version a" and "is_release_version b \<and> exact_version b" for a b
    using compare_release [of a b] that by (auto simp: beats_def dest: agrees_pos)
qed

section \<open>Pins\<close>

datatype pin = Exact jstr | Series jstr

text \<open>\<open>SERIES\<close>: a major, or a major and a minor, with no leading zeroes.\<close>

definition series_text :: "jstr \<Rightarrow> bool" where
  "series_text word \<longleftrightarrow> length (js_split c_dot word) \<le> 2 \<and> list_all number_text (js_split c_dot word)"


text \<open>The pattern of a series: its text, a dot, and one or two numbers up to the end.\<close>

definition in_series :: "jstr \<Rightarrow> jstr \<Rightarrow> bool" where
  "in_series series version \<longleftrightarrow>
     take (length series + 1) version = series @ [c_dot]
     \<and> (let rest = js_split c_dot (drop (length series + 1) version)
        in length rest = (if c_dot \<in> set series then 1 else 2) \<and> list_all number_text rest)"

definition newest_in_series :: "jstr list \<Rightarrow> jstr \<Rightarrow> jstr option" where
  "newest_in_series versions series =
     (if \<not> series_text series then None
      else newest_by compare_versions None (filter (in_series series) versions))"

text \<open>\<open>resolvePin\<close>; an absent entry lists no release.\<close>

definition resolve_pin :: "pin \<Rightarrow> jstr list \<Rightarrow> jstr option" where
  "resolve_pin p releases = (case p of
       Exact version \<Rightarrow> Some version
     | Series series \<Rightarrow> newest_in_series releases series)"








section \<open>The entry of a component\<close>

text \<open>The legs of the protocol a release speaks, and one component's line of the manifest.\<close>

record release_protocol =
  leg_client :: "nat option"
  leg_server :: "nat option"

record versions_entry =
  entry_current :: jstr
  entry_releases :: "(jstr \<times> release_protocol) list"

definition protocol_ok :: "release_protocol \<Rightarrow> bool" where
  "protocol_ok p \<longleftrightarrow> leg_client p \<noteq> Some 0 \<and> leg_server p \<noteq> Some 0"

definition entry_ok :: "versions_entry \<Rightarrow> bool" where
  "entry_ok e \<longleftrightarrow> is_release_version (entry_current e)
     \<and> list_all (\<lambda>(v, p). is_release_version v \<and> protocol_ok p) (entry_releases e)
     \<and> distinct (keys_of (entry_releases e))
     \<and> entry_current e \<in> set (keys_of (entry_releases e))"

definition current_release :: "versions_entry \<Rightarrow> (jstr \<times> release_protocol) option" where
  "current_release e = (case map_of (entry_releases e) (entry_current e) of
       None \<Rightarrow> None | Some p \<Rightarrow> Some (entry_current e, p))"

definition is_prerelease :: "jstr \<Rightarrow> bool" where
  "is_prerelease version \<longleftrightarrow> c_minus \<in> set (before c_plus version)"

definition newest_installable :: "jstr list \<Rightarrow> jstr option" where
  "newest_installable versions =
     (let released = filter (\<lambda>v. \<not> is_prerelease v) versions
      in newest_by compare_versions None (if released \<noteq> [] then released else versions))"

definition sort_releases :: "(jstr \<times> release_protocol) list \<Rightarrow> (jstr \<times> release_protocol) list" where
  "sort_releases releases = sort_newest (\<lambda>a b. compare_versions (fst a) (fst b)) releases"

text \<open>
  \<open>updateVersionsManifest\<close> for one component: \<open>previous\<close> is its entry, if it had one.  \<open>None\<close> is the
  throw of a schema that refuses the release or the entry.
\<close>

definition update_entry ::
    "versions_entry option \<Rightarrow> jstr \<Rightarrow> release_protocol \<Rightarrow> versions_entry option" where
  "update_entry previous version protocol =
     (if \<not> is_release_version version \<or> \<not> protocol_ok protocol then None
      else
        (let before = (case previous of None \<Rightarrow> [] | Some e \<Rightarrow> entry_releases e);
             releases = sort_releases (AList.update version protocol before)
         in case newest_installable (keys_of releases) of
              None \<Rightarrow> None
            | Some current \<Rightarrow>
                (let e = \<lparr>entry_current = current, entry_releases = releases\<rparr>
                 in if entry_ok e then Some e else None)))"

interpretation listed: release_order "\<lambda>(a :: jstr \<times> release_protocol) b. compare_versions (fst a) (fst b)"
    "\<lambda>r. is_release_version (fst r) \<and> exact_version (fst r)" "\<lambda>r. version_key (fst r)"
proof unfold_locales
  show "beats (\<lambda>a b. compare_versions (fst a) (fst b)) a b \<longleftrightarrow> version_key (fst b) < version_key (fst a)"
    if "is_release_version (fst a) \<and> exact_version (fst a)" and "is_release_version (fst b) \<and> exact_version (fst b)"
    for a b :: "jstr \<times> release_protocol"
    using versions.compare_key [OF that] by (simp add: beats_def)
qed

lemma map_fst_insert: "distinct (keys_of (insert_newest compare x ys)) \<longleftrightarrow> fst x \<notin> fst ` set ys \<and> distinct (keys_of ys)"
  by (induction ys) auto

lemma distinct_sort_releases [simp]: "distinct (keys_of (sort_releases rs)) \<longleftrightarrow> distinct (keys_of rs)"
  unfolding sort_releases_def by (induction rs) (auto simp: map_fst_insert)

lemma set_sort_releases [simp]: "set (sort_releases rs) = set rs"
  by (simp add: sort_releases_def)

definition entry_exact :: "versions_entry \<Rightarrow> bool" where
  "entry_exact e \<longleftrightarrow> list_all (\<lambda>(v, p). exact_version v) (entry_releases e)"

text \<open>The choice of what is current, over any list of releases.\<close>

lemma newest_installable_spec:
  assumes valid: "\<forall>v \<in> set vs. is_release_version v \<and> exact_version v" and ne: "vs \<noteq> []"
  shows "\<exists>c. newest_installable vs = Some c \<and> c \<in> set vs
     \<and> (is_prerelease c \<longrightarrow> (\<forall>v \<in> set vs. is_prerelease v))
     \<and> (\<forall>v \<in> set vs. is_prerelease v \<longrightarrow> is_prerelease c \<longrightarrow> version_key v \<le> version_key c)
     \<and> (\<forall>v \<in> set vs. \<not> is_prerelease v \<longrightarrow> version_key v \<le> version_key c)"
proof -
  let ?released = "filter (\<lambda>v. \<not> is_prerelease v) vs"
  let ?cs = "if ?released \<noteq> [] then ?released else vs"
  have cs: "\<forall>v \<in> set ?cs. is_release_version v \<and> exact_version v" "?cs \<noteq> []"
    using valid ne by auto
  obtain c where c: "newest_by compare_versions None ?cs = Some c"
    using versions.newest_none(1) [OF cs(1)] cs(2) by blast
  have "c \<in> set ?cs" "\<forall>v \<in> set ?cs. version_key v \<le> version_key c"
    using versions.newest_none(2) [OF cs(1) c] by simp_all
  then show ?thesis
    using c by (intro exI [of _ c]) (auto simp: newest_installable_def Let_def filter_empty_conv split: if_splits)
qed

lemma update_entry_spec:
  assumes prev: "\<And>e. previous = Some e \<Longrightarrow> entry_ok e \<and> entry_exact e"
    and v: "is_release_version version" "exact_version version" and p: "protocol_ok protocol"
  obtains e where "update_entry previous version protocol = Some e" "entry_ok e" "entry_exact e"
    "map_of (entry_releases e) = (case previous of None \<Rightarrow> Map.empty | Some e0 \<Rightarrow> map_of (entry_releases e0))(version \<mapsto> protocol)"
    "sorted_wrt (\<lambda>a b. version_key (fst b) \<le> version_key (fst a)) (entry_releases e)"
    "newest_installable (keys_of (entry_releases e)) = Some (entry_current e)"
proof -
  define old where "old = (case previous of None \<Rightarrow> [] | Some e \<Rightarrow> entry_releases e)"
  define new where "new = AList.update version protocol old"
  let ?rs = "sort_releases new"
  have d: "distinct (keys_of old)" using prev by (auto simp: old_def entry_ok_def split: option.split)
  have old: "\<forall>(w, q) \<in> set old. is_release_version w \<and> exact_version w \<and> protocol_ok q"
    using prev by (auto simp: old_def entry_ok_def entry_exact_def list_all_iff split: option.split)
  have dn: "distinct (keys_of new)" unfolding new_def by (rule distinct_update [OF d])
  have new_set: "set new \<subseteq> insert (version, protocol) (set old)"
    unfolding new_def by (induction old) auto
  then have all: "\<forall>(w, q) \<in> set new. is_release_version w \<and> exact_version w \<and> protocol_ok q"
    using old v p by blast
  have ne: "keys_of ?rs \<noteq> []"
  proof -
    have "map_of new version = Some protocol" by (simp add: new_def)
    then have "new \<noteq> []" by auto
    then show ?thesis by (metis list.map_disc_iff set_empty set_sort_releases)
  qed
  obtain c where c: "newest_installable (keys_of ?rs) = Some c" "c \<in> set (keys_of ?rs)"
    using newest_installable_spec [OF _ ne] all by (auto simp: split_beta)
  define e where "e = \<lparr>entry_current = c, entry_releases = ?rs\<rparr>"
  have ok: "entry_ok e"
    using all c(2) dn by (auto simp: e_def entry_ok_def list_all_iff)
  have upd: "update_entry previous version protocol = Some e"
    using v(1) p c(1) ok by (simp add: update_entry_def old_def [symmetric] new_def [symmetric] e_def Let_def)
  have "map_of ?rs = map_of new"
    by (subst map_of_inject_set) (use dn in simp_all)
  then have "map_of (entry_releases e) = (case previous of None \<Rightarrow> Map.empty | Some e0 \<Rightarrow> map_of (entry_releases e0))(version \<mapsto> protocol)"
    by (simp add: e_def new_def old_def split: option.split)
  moreover have "sorted_wrt (\<lambda>a b. version_key (fst b) \<le> version_key (fst a)) (entry_releases e)"
    unfolding e_def sort_releases_def by simp (rule listed.sorted_newest, use all in auto)
  ultimately show ?thesis
    using that [OF upd ok] c(1) all by (auto simp: e_def entry_exact_def list_all_iff)
qed

text \<open>
  Claim C36: publishing a release keeps the component's history.  From an entry the schema accepts,
  publishing a release always yields an entry the schema accepts: it lists every release it listed
  before, with its protocol, and the new one; newest first; it calls current a listed release that no
  plain release is newer than, and a prerelease only when nothing else was ever published.  So a patch
  to an older line never moves \<open>current\<close> backwards, and reading the current release always answers.
\<close>

theorem publishing_keeps_history:
  assumes prev: "\<And>e. previous = Some e \<Longrightarrow> entry_ok e \<and> entry_exact e"
    and v: "is_release_version version" "exact_version version" and p: "protocol_ok protocol"
  shows "\<exists>e. update_entry previous version protocol = Some e \<and> entry_ok e
     \<and> map_of (entry_releases e)
         = (case previous of None \<Rightarrow> Map.empty | Some e0 \<Rightarrow> map_of (entry_releases e0))(version \<mapsto> protocol)
     \<and> sorted_wrt (\<lambda>a b. version_key (fst b) \<le> version_key (fst a)) (entry_releases e)
     \<and> (\<forall>w \<in> set (keys_of (entry_releases e)). \<not> is_prerelease w \<longrightarrow>
          \<not> is_prerelease (entry_current e) \<and> version_key w \<le> version_key (entry_current e))
     \<and> (\<exists>q. current_release e = Some (entry_current e, q))
     \<and> (\<forall>e0. previous = Some e0 \<and> \<not> is_prerelease (entry_current e0) \<longrightarrow>
          version_key (entry_current e0) \<le> version_key (entry_current e))"
proof -
  obtain e where e: "update_entry previous version protocol = Some e" "entry_ok e" "entry_exact e"
      "map_of (entry_releases e) = (case previous of None \<Rightarrow> Map.empty | Some e0 \<Rightarrow> map_of (entry_releases e0))(version \<mapsto> protocol)"
      "sorted_wrt (\<lambda>a b. version_key (fst b) \<le> version_key (fst a)) (entry_releases e)"
      "newest_installable (keys_of (entry_releases e)) = Some (entry_current e)"
    using update_entry_spec [OF prev v p] by blast
  have valid: "\<forall>w \<in> set (keys_of (entry_releases e)). is_release_version w \<and> exact_version w"
    using e(2,3) by (auto simp: entry_ok_def entry_exact_def list_all_iff)
  have ne: "keys_of (entry_releases e) \<noteq> []" using e(2) by (auto simp: entry_ok_def)
  have newest: "\<forall>w \<in> set (keys_of (entry_releases e)). \<not> is_prerelease w \<longrightarrow>
      \<not> is_prerelease (entry_current e) \<and> version_key w \<le> version_key (entry_current e)"
    using newest_installable_spec [OF valid ne] e(6) by auto
  have "\<exists>q. current_release e = Some (entry_current e, q)"
  proof -
    have "entry_current e \<in> dom (map_of (entry_releases e))"
      using e(2) by (simp add: entry_ok_def dom_map_of_conv_image_fst)
    then show ?thesis by (auto simp: current_release_def)
  qed
  moreover have "version_key (entry_current e0) \<le> version_key (entry_current e)"
    if "previous = Some e0 \<and> \<not> is_prerelease (entry_current e0)" for e0
  proof -
    have "entry_current e0 \<in> dom (map_of (entry_releases e0))"
      using prev that by (simp add: entry_ok_def dom_map_of_conv_image_fst)
    then have "entry_current e0 \<in> dom (map_of (entry_releases e))" using that by (simp add: e(4))
    then show ?thesis using newest that by (auto simp: dom_map_of_conv_image_fst)
  qed
  ultimately show ?thesis using e newest by blast
qed

theorem publishing_keeps_history_witness:
  "\<exists>e. update_entry None (js ''1.2.1'') \<lparr>leg_client = Some 40, leg_server = Some 39\<rparr> = Some e \<and> entry_ok e"
proof -
  have "is_release_version (js ''1.2.1'')" "exact_version (js ''1.2.1'')"
    by (simp_all add: version_eval)
  then show ?thesis
    using publishing_keeps_history [of None "js ''1.2.1''" "\<lparr>leg_client = Some 40, leg_server = Some 39\<rparr>"]
    by (auto simp: protocol_ok_def)
qed

end
