(* ===== verification/Scrollback.thy ===== *)
theory Scrollback
  imports Prelude
begin

text \<open>
  \<open>packages/pty/src/scrollback.ts\<close>: the bounded replay buffer of terminal output.

  A chunk is a list of bytes, opaque to the buffer.  The abstract contract is the locale \<open>replay\<close>: what
  a buffer holds is a suffix of everything appended, in whole chunks, and \<open>dropped\<close> counts the bytes of
  the rest.
\<close>

type_synonym chunk = "nat list"

record scrollback =
  sb_chunks :: "chunk list"
  sb_bytes :: nat
  sb_dropped :: nat

definition create_scrollback :: scrollback where
  "create_scrollback = \<lparr>sb_chunks = [], sb_bytes = 0, sb_dropped = 0\<rparr>"

text \<open>The loop that throws the oldest chunks away; it never throws the last one.\<close>

function evict :: "nat \<Rightarrow> scrollback \<Rightarrow> scrollback" where
  "evict max_bytes sb =
     (if max_bytes < sb_bytes sb \<and> 1 < length (sb_chunks sb)
      then evict max_bytes \<lparr>sb_chunks = tl (sb_chunks sb),
             sb_bytes = sb_bytes sb - length (hd (sb_chunks sb)),
             sb_dropped = sb_dropped sb + length (hd (sb_chunks sb))\<rparr>
      else sb)"
  by pat_completeness auto
termination by (relation "measure (\<lambda>(m, sb). length (sb_chunks sb))") auto

declare evict.simps [simp del]

definition append_chunk :: "nat \<Rightarrow> scrollback \<Rightarrow> chunk \<Rightarrow> scrollback" where
  "append_chunk max_bytes sb chunk =
     (if chunk = [] then sb
      else evict max_bytes (sb\<lparr>sb_chunks := sb_chunks sb @ [chunk], sb_bytes := sb_bytes sb + length chunk\<rparr>))"

text \<open>The contract of a replay buffer: \<open>kept\<close> is what a reader is given, \<open>lost\<close> how much is gone.\<close>

locale replay =
  fixes step :: "'s \<Rightarrow> chunk \<Rightarrow> 's" and inv :: "'s \<Rightarrow> bool"
    and kept :: "'s \<Rightarrow> chunk list" and lost :: "'s \<Rightarrow> nat"
  assumes inv_step: "inv s \<Longrightarrow> inv (step s c)"
    and kept_step: "inv s \<Longrightarrow> \<exists>gone. kept s @ (if c = [] then [] else [c]) = gone @ kept (step s c)
          \<and> lost (step s c) = lost s + length (concat gone)"
begin

text \<open>What is kept after any output is the end of the non-empty chunks, and the rest is counted.\<close>

lemma kept_run:
  assumes "inv s"
  shows "\<exists>gone. kept s @ filter (\<lambda>c. c \<noteq> []) cs = gone @ kept (run step s cs)
     \<and> lost (run step s cs) = lost s + length (concat gone)"
  using assms
proof (induction cs arbitrary: s)
  case Nil
  show ?case by (intro exI [of _ "[]"]) simp
next
  case (Cons c cs)
  obtain g1 where g1: "kept s @ (if c = [] then [] else [c]) = g1 @ kept (step s c)"
      "lost (step s c) = lost s + length (concat g1)"
    using kept_step [OF Cons.prems] by blast
  obtain g2 where g2: "kept (step s c) @ filter (\<lambda>c. c \<noteq> []) cs = g2 @ kept (run step (step s c) cs)"
      "lost (run step (step s c) cs) = lost (step s c) + length (concat g2)"
    using Cons.IH [OF inv_step [OF Cons.prems]] by blast
  have "kept s @ filter (\<lambda>c. c \<noteq> []) (c # cs) = (kept s @ (if c = [] then [] else [c])) @ filter (\<lambda>c. c \<noteq> []) cs"
    by simp
  also have "\<dots> = (g1 @ g2) @ kept (run step (step s c) cs)"
    unfolding g1(1) using g2(1) by simp
  finally show ?case using g1(2) g2(2) by (intro exI [of _ "g1 @ g2"]) simp
qed

lemma inv_run: "inv s \<Longrightarrow> inv (run step s cs)"
  by (induction cs arbitrary: s) (auto intro: inv_step)

end

definition scrollback_ok :: "nat \<Rightarrow> scrollback \<Rightarrow> bool" where
  "scrollback_ok max_bytes sb \<longleftrightarrow> sb_bytes sb = length (concat (sb_chunks sb))
     \<and> list_all (\<lambda>c. c \<noteq> []) (sb_chunks sb)
     \<and> (sb_bytes sb \<le> max_bytes \<or> length (sb_chunks sb) \<le> 1)
     \<and> (sb_chunks sb = [] \<longrightarrow> sb_dropped sb = 0)"

text \<open>The loop: a prefix goes, as short as the bound allows, and the last chunk never.\<close>

lemma evict_spec:
  assumes "sb_bytes sb = length (concat (sb_chunks sb))" and "sb_chunks sb \<noteq> []"
  shows "\<exists>gone. sb_chunks sb = gone @ sb_chunks (evict m sb)
     \<and> sb_bytes (evict m sb) = length (concat (sb_chunks (evict m sb)))
     \<and> sb_dropped (evict m sb) = sb_dropped sb + length (concat gone)
     \<and> sb_chunks (evict m sb) \<noteq> []
     \<and> (sb_bytes (evict m sb) \<le> m \<or> length (sb_chunks (evict m sb)) = 1)
     \<and> (gone \<noteq> [] \<longrightarrow> m < length (last gone) + sb_bytes (evict m sb))"
  using assms
proof (induction m sb rule: evict.induct)
  case (1 m sb)
  show ?case
  proof (cases "m < sb_bytes sb \<and> 1 < length (sb_chunks sb)")
    case False
    have "length (sb_chunks sb) = 1" if "\<not> sb_bytes sb \<le> m"
      using that False "1.prems"(2) by (cases "sb_chunks sb") auto
    then show ?thesis
      using False "1.prems" by (subst (1 2 3 4 5 6 7 8) evict.simps) auto
  next
    case True
    obtain c cs where cs: "sb_chunks sb = c # cs" "cs \<noteq> []"
      using True by (cases "sb_chunks sb") auto
    let ?sb = "\<lparr>sb_chunks = tl (sb_chunks sb), sb_bytes = sb_bytes sb - length (hd (sb_chunks sb)),
             sb_dropped = sb_dropped sb + length (hd (sb_chunks sb))\<rparr>"
    define r where "r = evict m ?sb"
    have step: "evict m sb = r" using True by (subst evict.simps) (simp add: r_def)
    have "sb_bytes ?sb = length (concat (sb_chunks ?sb))" "sb_chunks ?sb \<noteq> []"
      using "1.prems"(1) cs by simp_all
    then obtain gone where g: "sb_chunks ?sb = gone @ sb_chunks r" "sb_bytes r = length (concat (sb_chunks r))"
        "sb_dropped r = sb_dropped ?sb + length (concat gone)" "sb_chunks r \<noteq> []"
        "sb_bytes r \<le> m \<or> length (sb_chunks r) = 1"
        "gone \<noteq> [] \<longrightarrow> m < length (last gone) + sb_bytes r"
      using "1.IH" [OF True] unfolding r_def [symmetric] by blast
    have all: "cs = gone @ sb_chunks r" using g(1) cs(1) by simp
    have bytes: "sb_bytes sb = length c + length (concat gone) + sb_bytes r"
      using "1.prems"(1) cs(1) g(2) all by simp
    show ?thesis
      unfolding step
      by (intro exI [of _ "c # gone"]) (use g cs all bytes True in auto)
  qed
qed

lemma append_spec:
  assumes ok: "scrollback_ok m sb"
  shows "scrollback_ok m (append_chunk m sb c)"
    and "\<exists>gone. sb_chunks sb @ (if c = [] then [] else [c]) = gone @ sb_chunks (append_chunk m sb c)
      \<and> sb_dropped (append_chunk m sb c) = sb_dropped sb + length (concat gone)"
proof -
  let ?sb = "sb\<lparr>sb_chunks := sb_chunks sb @ [c], sb_bytes := sb_bytes sb + length c\<rparr>"
  have "scrollback_ok m (append_chunk m sb c) \<and>
     (\<exists>gone. sb_chunks sb @ (if c = [] then [] else [c]) = gone @ sb_chunks (append_chunk m sb c)
      \<and> sb_dropped (append_chunk m sb c) = sb_dropped sb + length (concat gone))"
  proof (cases "c = []")
    case True
    then show ?thesis using ok by (auto simp: append_chunk_def intro: exI [of _ "[]"])
  next
    case False
    then have run: "append_chunk m sb c = evict m ?sb" by (simp add: append_chunk_def)
    define r where "r = evict m ?sb"
    have "sb_bytes ?sb = length (concat (sb_chunks ?sb))" "sb_chunks ?sb \<noteq> []"
      using ok by (simp_all add: scrollback_ok_def)
    then obtain gone where g: "sb_chunks sb @ [c] = gone @ sb_chunks r"
        "sb_bytes r = length (concat (sb_chunks r))"
        "sb_dropped r = sb_dropped sb + length (concat gone)" "sb_chunks r \<noteq> []"
        "sb_bytes r \<le> m \<or> length (sb_chunks r) = 1"
      using evict_spec [of ?sb m] unfolding r_def [symmetric] by auto
    have "list_all (\<lambda>c. c \<noteq> []) (gone @ sb_chunks r)"
      unfolding g(1) [symmetric] using ok False by (simp add: scrollback_ok_def)
    then show ?thesis
      using g False unfolding run r_def [symmetric] by (auto simp: scrollback_ok_def intro: exI [of _ gone])
  qed
  then show "scrollback_ok m (append_chunk m sb c)"
    and "\<exists>gone. sb_chunks sb @ (if c = [] then [] else [c]) = gone @ sb_chunks (append_chunk m sb c)
      \<and> sb_dropped (append_chunk m sb c) = sb_dropped sb + length (concat gone)"
    by simp_all
qed

interpretation buffer: replay "append_chunk m" "scrollback_ok m" sb_chunks sb_dropped for m
  by unfold_locales (use append_spec in blast)+

text \<open>
  A client replays the end of the output, in whole chunks.  After any output, what the
  buffer holds is a suffix of the non-empty chunks appended; \<open>dropped\<close> is exactly the number of bytes
  before it and \<open>bytes\<close> the number of bytes in it; it is within the cap or a single chunk; and it is
  empty only of a session that has printed nothing.
\<close>

theorem scrollback_replays_suffix:
  shows "\<exists>gone. filter (\<lambda>c. c \<noteq> []) printed = gone @ sb_chunks (run (append_chunk max_bytes) create_scrollback printed)
     \<and> sb_dropped (run (append_chunk max_bytes) create_scrollback printed) = length (concat gone)
     \<and> sb_bytes (run (append_chunk max_bytes) create_scrollback printed)
         = length (concat (sb_chunks (run (append_chunk max_bytes) create_scrollback printed)))
     \<and> (sb_bytes (run (append_chunk max_bytes) create_scrollback printed) \<le> max_bytes
         \<or> length (sb_chunks (run (append_chunk max_bytes) create_scrollback printed)) = 1)
     \<and> (sb_chunks (run (append_chunk max_bytes) create_scrollback printed) = [])
         = (filter (\<lambda>c. c \<noteq> []) printed = [])"
proof -
  let ?final = "run (append_chunk max_bytes) create_scrollback printed"
  have fresh: "scrollback_ok max_bytes create_scrollback"
    by (simp add: scrollback_ok_def create_scrollback_def)
  obtain gone where g: "filter (\<lambda>c. c \<noteq> []) printed = gone @ sb_chunks ?final" "sb_dropped ?final = length (concat gone)"
    using buffer.kept_run [OF fresh, of printed] by (auto simp: create_scrollback_def)
  have ok: "scrollback_ok max_bytes ?final" by (rule buffer.inv_run [OF fresh])
  have "gone = []" if "sb_chunks ?final = []"
  proof -
    have "concat gone = []" using ok g(2) that by (simp add: scrollback_ok_def)
    moreover have "\<forall>c \<in> set gone. c \<noteq> []"
    proof
      fix c assume "c \<in> set gone"
      then have "c \<in> set (filter (\<lambda>c. c \<noteq> []) printed)" by (simp add: g(1))
      then show "c \<noteq> []" by simp
    qed
    ultimately show ?thesis by (cases gone) auto
  qed
  moreover have "sb_chunks ?final = [] \<or> length (sb_chunks ?final) \<noteq> 0" by simp
  ultimately show ?thesis
    using g ok
    by (intro exI [of _ gone]) (auto simp: scrollback_ok_def le_Suc_eq)
qed

end
