(* ===== verification/Terminal_Manager.thy ===== *)
theory Terminal_Manager
  imports Scrollback "HOL-Library.Product_Lexorder"
begin

text \<open>
  \<open>apps/server/src/terminal/terminal-manager.ts\<close> over the runs of \<open>packages/pty/src/pty-supervisor.ts\<close>: the
  agents one server holds.

  The \<open>n\<close>-th run launched has number \<open>n\<close>, which stands for its id: \<open>tg_records\<close> holds the record and the
  run of each, shared by the map of open terminals and the set of closing ones, which are lists of
  numbers in insertion order.  A listener is known by the number of the watch that brought it.  The
  promise of \<open>whenExited\<close> is settled where the exit is reported: what awaits it runs before any other
  event.  \<open>tm_printed\<close>, \<open>tg_signals\<close>, \<open>tg_written\<close> and \<open>tg_sized\<close> are what the pseudoterminals saw.
\<close>

section \<open>State\<close>

datatype session_status = Working | Awaiting_Permission | Awaiting_Input | Idle | Unknown_Status

datatype session_pause = Not_Paused | Pause_Requested | Paused

datatype pty_signal = Sighup | Sigterm | Sigkill

record pty_exit =
  px_code :: nat
  px_signal :: "nat option"

record terminal =
  tm_store :: jstr
  tm_session :: "jstr option"
  tm_status :: session_status
  tm_pause :: session_pause
  tm_watchers :: "(jstr \<times> nat) list"
  tm_unwatched :: "nat option"
  tm_input :: "nat option"
  tm_terminating :: bool
  tm_pid :: nat
  tm_started :: nat
  tm_exit :: "pty_exit option"
  tm_buffer :: scrollback
  tm_listeners :: "nat list"
  tm_printed :: "chunk list"

record manager =
  tg_cap :: nat
  tg_scrollback :: nat
  tg_records :: "terminal list"
  tg_open :: "nat list"
  tg_closing :: "nat list"
  tg_starts :: "(jstr \<times> (jstr \<times> nat) list) list"
  tg_sealed :: bool
  tg_kills :: "nat list"
  tg_signals :: "(nat \<times> pty_signal) list"
  tg_written :: "(nat \<times> jstr) list"
  tg_sized :: "(nat \<times> nat \<times> nat) list"
  tg_watches :: nat

definition default_terminal_cap :: nat where "default_terminal_cap = 8"

definition create_manager :: "nat \<Rightarrow> nat \<Rightarrow> manager" where
  "create_manager cap scrollback =
     \<lparr>tg_cap = cap, tg_scrollback = scrollback, tg_records = [], tg_open = [], tg_closing = [], tg_starts = [],
      tg_sealed = False, tg_kills = [], tg_signals = [], tg_written = [], tg_sized = [], tg_watches = 0\<rparr>"

abbreviation rec_of :: "manager \<Rightarrow> nat \<Rightarrow> terminal" where
  "rec_of m i \<equiv> tg_records m ! i"

definition update_record :: "nat \<Rightarrow> (terminal \<Rightarrow> terminal) \<Rightarrow> manager \<Rightarrow> manager" where
  "update_record i f m = m\<lparr>tg_records := (tg_records m)[i := f (rec_of m i)]\<rparr>"

definition live :: "manager \<Rightarrow> nat \<Rightarrow> bool" where
  "live m i \<longleftrightarrow> tm_exit (rec_of m i) = None"

section \<open>Who holds a session\<close>

definition live_holder_of :: "manager \<Rightarrow> jstr \<Rightarrow> jstr \<Rightarrow> nat option" where
  "live_holder_of m store session =
     find (\<lambda>i. tm_store (rec_of m i) = store \<and> tm_session (rec_of m i) = Some session \<and> live m i)
       (tg_open m @ tg_closing m)"

section \<open>Ending a process\<close>

definition kill_run :: "nat \<Rightarrow> pty_signal \<Rightarrow> manager \<Rightarrow> manager" where
  "kill_run i sig m = (if \<not> live m i then m else m\<lparr>tg_signals := tg_signals m @ [(i, sig)]\<rparr>)"

definition terminate :: "nat \<Rightarrow> manager \<Rightarrow> manager" where
  "terminate i m =
     (if tm_terminating (rec_of m i) then m
      else
        (let m1 = update_record i (\<lambda>t. t\<lparr>tm_terminating := True\<rparr>) m
         in if \<not> live m i then m1
            else (let m2 = kill_run i Sighup m1 in m2\<lparr>tg_kills := tg_kills m2 @ [i]\<rparr>)))"

definition drop_starts :: "nat \<Rightarrow> (jstr \<times> (jstr \<times> nat) list) list \<Rightarrow> (jstr \<times> (jstr \<times> nat) list) list" where
  "drop_starts i starts =
     filter (\<lambda>(g, held). held \<noteq> []) (map (\<lambda>(g, held). (g, filter (\<lambda>(s, j). j \<noteq> i) held)) starts)"

definition close_terminal :: "nat \<Rightarrow> manager \<Rightarrow> manager" where
  "close_terminal i m =
     (let m1 = terminate i m;
          m2 = (if live m1 i then m1\<lparr>tg_closing := set_add i (tg_closing m1)\<rparr> else m1)
      in m2\<lparr>tg_open := removeAll i (tg_open m2), tg_starts := drop_starts i (tg_starts m2)\<rparr>)"

section \<open>Making room\<close>

definition rank :: "terminal \<Rightarrow> nat" where
  "rank t = (if tm_exit t = None then 1 else 0)"

definition eviction_key :: "terminal \<Rightarrow> nat \<times> nat" where
  "eviction_key t = (rank t, case tm_unwatched t of None \<Rightarrow> 0 | Some since \<Rightarrow> since)"

definition evictable :: "manager \<Rightarrow> nat list" where
  "evictable m =
     sort_key (\<lambda>i. eviction_key (rec_of m i)) (filter (\<lambda>i. tm_watchers (rec_of m i) = []) (tg_open m))"

lemma open_close_terminal [simp]: "tg_open (close_terminal i m) = removeAll i (tg_open m)"
  by (simp add: close_terminal_def terminate_def kill_run_def update_record_def Let_def)

lemma set_evictable: "set (evictable m) = {i \<in> set (tg_open m). tm_watchers (rec_of m i) = []}"
  by (simp add: evictable_def)

function make_room :: "manager \<Rightarrow> manager \<times> bool" where
  "make_room m =
     (if tg_cap m \<le> length (tg_open m)
      then (case evictable m of
              [] \<Rightarrow> (m, False)
            | oldest # rest \<Rightarrow> make_room (close_terminal oldest m))
      else (m, True))"
  by pat_completeness auto
termination
proof (relation "measure (\<lambda>m. length (tg_open m))")
  fix m :: manager and oldest rest
  assume "evictable m = oldest # rest"
  then have "oldest \<in> set (tg_open m)" using set_evictable [of m] by auto
  then show "(close_terminal oldest m, m) \<in> measure (\<lambda>m. length (tg_open m))"
    by (simp add: length_removeAll_less)
qed simp

declare make_room.simps [simp del]

section \<open>Opening\<close>

datatype open_outcome =
    Opened nat
  | Adapter_Refused
  | Server_Sealed
  | Already_Running nat
  | Cap_Reached
  | Launch_Failed

definition track :: "jstr \<Rightarrow> jstr option \<Rightarrow> nat \<Rightarrow> nat \<Rightarrow> terminal" where
  "track store session pid now =
     \<lparr>tm_store = store, tm_session = session, tm_status = Unknown_Status, tm_pause = Not_Paused, tm_watchers = [],
      tm_unwatched = Some now, tm_input = None, tm_terminating = False, tm_pid = pid, tm_started = now,
      tm_exit = None, tm_buffer = create_scrollback, tm_listeners = [], tm_printed = []\<rparr>"

text \<open>
  \<open>spawn\<close> has no session, \<open>resume\<close> has one.  \<open>launchable\<close> is the adapter's yes; \<open>launched\<close> is the pid, or
  \<open>None\<close> where the machine said no.
\<close>

definition open_terminal :: "jstr \<Rightarrow> jstr option \<Rightarrow> bool \<Rightarrow> nat option \<Rightarrow> nat \<Rightarrow> manager \<Rightarrow> manager \<times> open_outcome" where
  "open_terminal store session launchable launched now m =
     (if \<not> launchable then (m, Adapter_Refused)
      else if tg_sealed m then (m, Server_Sealed)
      else
        (case (case session of None \<Rightarrow> None | Some s \<Rightarrow> live_holder_of m store s) of
           Some held \<Rightarrow> (m, Already_Running held)
         | None \<Rightarrow>
             (case make_room m of
                (m1, room) \<Rightarrow>
                  if \<not> room then (m1, Cap_Reached)
                  else
                    (case launched of
                       None \<Rightarrow> (m1, Launch_Failed)
                     | Some pid \<Rightarrow>
                         (let i = length (tg_records m1)
                          in (m1\<lparr>tg_records := tg_records m1 @ [track store session pid now],
                                 tg_open := tg_open m1 @ [i]\<rparr>, Opened i))))))"

definition open_refusal :: "manager \<Rightarrow> open_outcome option" where
  "open_refusal m =
     (if tg_sealed m then Some Server_Sealed
      else if length (tg_open m) < tg_cap m then None
      else if list_ex (\<lambda>i. tm_watchers (rec_of m i) = []) (tg_open m) then None
      else Some Cap_Reached)"

datatype bind_outcome = Bound | No_Terminal | Held_By nat

definition bind_session :: "nat \<Rightarrow> jstr \<Rightarrow> manager \<Rightarrow> manager \<times> bind_outcome" where
  "bind_session i session m =
     (if i \<notin> set (tg_open m) then (m, No_Terminal)
      else
        (case live_holder_of m (tm_store (rec_of m i)) session of
           Some held \<Rightarrow>
             if held \<noteq> i then (m, Held_By held)
             else (update_record i (\<lambda>t. t\<lparr>tm_session := Some session\<rparr>) m, Bound)
         | None \<Rightarrow> (update_record i (\<lambda>t. t\<lparr>tm_session := Some session\<rparr>) m, Bound)))"

section \<open>Starts\<close>

definition held_starts :: "manager \<Rightarrow> jstr \<Rightarrow> (jstr \<times> nat) list" where
  "held_starts m g = (case map_of (tg_starts m) g of None \<Rightarrow> [] | Some held \<Rightarrow> held)"

definition note_start :: "nat \<Rightarrow> jstr \<Rightarrow> jstr \<Rightarrow> manager \<Rightarrow> manager" where
  "note_start i start g m =
     (if i \<notin> set (tg_open m) then m
      else m\<lparr>tg_starts := AList.update g (AList.update start i (held_starts m g)) (tg_starts m)\<rparr>)"

section \<open>Status, input and pauses\<close>

definition stoppable :: "session_status \<Rightarrow> bool" where
  "stoppable s \<longleftrightarrow> s \<noteq> Working"

definition at_boundary :: "session_status \<Rightarrow> bool" where
  "at_boundary s \<longleftrightarrow> s \<noteq> Working \<and> s \<noteq> Unknown_Status"

definition observe_status :: "jstr \<Rightarrow> jstr \<Rightarrow> session_status \<Rightarrow> manager \<Rightarrow> manager" where
  "observe_status store session status m =
     (case live_holder_of m store session of
        None \<Rightarrow> m
      | Some i \<Rightarrow>
          update_record i (\<lambda>t. t\<lparr>tm_status := status, tm_pause :=
            (if tm_pause t = Pause_Requested \<and> at_boundary status then Paused
             else if tm_pause t = Paused \<and> status = Working then Pause_Requested
             else tm_pause t)\<rparr>) m)"

definition note_input :: "nat \<Rightarrow> nat \<Rightarrow> manager \<Rightarrow> manager" where
  "note_input i now m =
     (if i \<notin> set (tg_open m) then m else update_record i (\<lambda>t. t\<lparr>tm_input := Some now\<rparr>) m)"

datatype stop_outcome = Taken | Unknown_Terminal | Mid_Turn | Has_Exited

definition stop_terminal :: "nat \<Rightarrow> manager \<Rightarrow> manager \<times> stop_outcome" where
  "stop_terminal i m =
     (if i \<notin> set (tg_open m) then (m, Unknown_Terminal)
      else if \<not> stoppable (tm_status (rec_of m i)) then (m, Mid_Turn)
      else (terminate i m, Taken))"

definition pause_terminal :: "nat \<Rightarrow> manager \<Rightarrow> manager \<times> stop_outcome" where
  "pause_terminal i m =
     (if i \<notin> set (tg_open m) then (m, Unknown_Terminal)
      else if \<not> live m i then (m, Has_Exited)
      else if tm_pause (rec_of m i) = Not_Paused
      then (update_record i (\<lambda>t. t\<lparr>tm_pause :=
              (if at_boundary (tm_status t) then Paused else Pause_Requested)\<rparr>) m, Taken)
      else (m, Taken))"

definition unpause_terminal :: "nat \<Rightarrow> manager \<Rightarrow> manager \<times> stop_outcome" where
  "unpause_terminal i m =
     (if i \<notin> set (tg_open m) then (m, Unknown_Terminal)
      else if \<not> live m i then (m, Has_Exited)
      else (update_record i (\<lambda>t. t\<lparr>tm_pause := Not_Paused\<rparr>) m, Taken))"

definition seal :: "manager \<Rightarrow> manager" where
  "seal m = m\<lparr>tg_sealed := True\<rparr>"

definition close_all :: "manager \<Rightarrow> manager" where
  "close_all m = foldl (\<lambda>m i. close_terminal i m) m (tg_open m)"

section \<open>Watching\<close>

definition attach_watcher :: "jstr \<Rightarrow> terminal \<Rightarrow> terminal" where
  "attach_watcher w t =
     t\<lparr>tm_watchers := AList.update w (case map_of (tm_watchers t) w of None \<Rightarrow> 1 | Some n \<Rightarrow> n + 1) (tm_watchers t)\<rparr>"

definition drop_watcher :: "jstr \<Rightarrow> nat \<Rightarrow> terminal \<Rightarrow> terminal" where
  "drop_watcher w now t =
     (let t1 = t\<lparr>tm_watchers := AList.delete w (tm_watchers t)\<rparr>
      in if tm_watchers t1 = [] then t1\<lparr>tm_unwatched := Some now\<rparr> else t1)"

definition detach_watcher :: "jstr \<Rightarrow> nat \<Rightarrow> terminal \<Rightarrow> terminal" where
  "detach_watcher w now t =
     (case map_of (tm_watchers t) w of
        None \<Rightarrow> t
      | Some n \<Rightarrow>
          if 1 < n then t\<lparr>tm_watchers := AList.update w (n - 1) (tm_watchers t)\<rparr> else drop_watcher w now t)"

text \<open>\<open>watch\<close> returns the number its detach is known by.\<close>

definition watch_terminal :: "nat \<Rightarrow> jstr \<Rightarrow> manager \<Rightarrow> manager \<times> nat" where
  "watch_terminal i w m =
     (let n = tg_watches m
      in ((update_record i (\<lambda>t. (attach_watcher w t)\<lparr>tm_listeners := tm_listeners t @ [n], tm_unwatched := None\<rparr>) m)
            \<lparr>tg_watches := n + 1\<rparr>, n))"

definition unwatch_terminal :: "nat \<Rightarrow> nat \<Rightarrow> jstr \<Rightarrow> nat \<Rightarrow> manager \<Rightarrow> manager" where
  "unwatch_terminal i n w now m =
     update_record i (\<lambda>t. detach_watcher w now (t\<lparr>tm_listeners := removeAll n (tm_listeners t)\<rparr>)) m"

definition release_one :: "jstr \<Rightarrow> nat \<Rightarrow> terminal \<Rightarrow> terminal" where
  "release_one w now t = (if map_of (tm_watchers t) w = None then t else drop_watcher w now t)"

definition release_watcher :: "jstr \<Rightarrow> nat \<Rightarrow> manager \<Rightarrow> manager" where
  "release_watcher w now m = foldl (\<lambda>m i. update_record i (release_one w now) m) m (tg_open m)"

section \<open>What the pseudoterminals report\<close>

definition pty_prints :: "nat \<Rightarrow> chunk \<Rightarrow> manager \<Rightarrow> manager" where
  "pty_prints i chunk m =
     update_record i (\<lambda>t. t\<lparr>tm_buffer := append_chunk (tg_scrollback m) (tm_buffer t) chunk,
       tm_printed := tm_printed t @ [chunk]\<rparr>) m"

definition pty_exits :: "nat \<Rightarrow> pty_exit \<Rightarrow> manager \<Rightarrow> manager" where
  "pty_exits i ended m =
     (update_record i (\<lambda>t. t\<lparr>tm_exit := Some ended\<rparr>) m)
       \<lparr>tg_closing := removeAll i (tg_closing m), tg_kills := removeAll i (tg_kills m)\<rparr>"

definition kill_timer_fires :: "nat \<Rightarrow> manager \<Rightarrow> manager" where
  "kill_timer_fires i m =
     (if i \<notin> set (tg_kills m) then m else kill_run i Sigkill (m\<lparr>tg_kills := remove1 i (tg_kills m)\<rparr>))"

definition write_run :: "nat \<Rightarrow> jstr \<Rightarrow> manager \<Rightarrow> manager" where
  "write_run i data m = (if \<not> live m i then m else m\<lparr>tg_written := tg_written m @ [(i, data)]\<rparr>)"

definition resize_run :: "nat \<Rightarrow> nat \<Rightarrow> nat \<Rightarrow> manager \<Rightarrow> manager" where
  "resize_run i cols rows m = (if \<not> live m i then m else m\<lparr>tg_sized := tg_sized m @ [(i, cols, rows)]\<rparr>)"

end
