(* ===== verification/Terminal_Once.thy ===== *)
theory Terminal_Once
  imports Terminal_Manager
begin

text \<open>
  The invariant of the terminal manager: every live process is held, one per session, none past the cap,
  and whatever is told to end is hung up and then killed.
\<close>

section \<open>Fields\<close>

lemma update_simps [simp]:
  "tg_cap (update_record i f m) = tg_cap m" "tg_scrollback (update_record i f m) = tg_scrollback m"
  "tg_open (update_record i f m) = tg_open m" "tg_closing (update_record i f m) = tg_closing m"
  "tg_starts (update_record i f m) = tg_starts m" "tg_sealed (update_record i f m) = tg_sealed m"
  "tg_kills (update_record i f m) = tg_kills m" "tg_signals (update_record i f m) = tg_signals m"
  "tg_written (update_record i f m) = tg_written m" "tg_watches (update_record i f m) = tg_watches m"
  "length (tg_records (update_record i f m)) = length (tg_records m)"
  by (simp_all add: update_record_def)

lemma rec_update:
  "rec_of (update_record i f m) j = (if j = i \<and> i < length (tg_records m) then f (rec_of m j) else rec_of m j)"
  by (cases "i < length (tg_records m)") (auto simp: update_record_def list_update_beyond)

lemma kill_run_simps [simp]:
  "tg_records (kill_run i s m) = tg_records m" "tg_open (kill_run i s m) = tg_open m"
  "tg_closing (kill_run i s m) = tg_closing m" "tg_starts (kill_run i s m) = tg_starts m"
  "tg_kills (kill_run i s m) = tg_kills m" "tg_cap (kill_run i s m) = tg_cap m"
  "tg_watches (kill_run i s m) = tg_watches m" "tg_sealed (kill_run i s m) = tg_sealed m"
  "tg_scrollback (kill_run i s m) = tg_scrollback m"
  "set (tg_signals (kill_run i s m)) = set (tg_signals m) \<union> (if live m i then {(i, s)} else {})"
  by (simp_all add: kill_run_def)

text \<open>Ending a process changes a record only by saying so.\<close>

definition ended_record :: "terminal \<Rightarrow> terminal" where
  "ended_record t = t\<lparr>tm_terminating := True\<rparr>"

lemma ended_record_simps [simp]:
  "tm_store (ended_record t) = tm_store t" "tm_session (ended_record t) = tm_session t" "tm_exit (ended_record t) = tm_exit t"
  "tm_watchers (ended_record t) = tm_watchers t" "tm_unwatched (ended_record t) = tm_unwatched t"
  "tm_terminating (ended_record t)" "tm_listeners (ended_record t) = tm_listeners t" "tm_buffer (ended_record t) = tm_buffer t"
  "tm_printed (ended_record t) = tm_printed t"
  by (simp_all add: ended_record_def)

lemma terminate_simps [simp]:
  "tg_open (terminate i m) = tg_open m" "tg_closing (terminate i m) = tg_closing m"
  "tg_starts (terminate i m) = tg_starts m" "tg_cap (terminate i m) = tg_cap m" "tg_watches (terminate i m) = tg_watches m"
  "tg_sealed (terminate i m) = tg_sealed m" "tg_scrollback (terminate i m) = tg_scrollback m"
  "length (tg_records (terminate i m)) = length (tg_records m)"
  by (simp_all add: terminate_def Let_def)

lemma rec_terminate:
  "rec_of (terminate i m) j = (if j = i \<and> i < length (tg_records m) then ended_record (rec_of m j) else rec_of m j)"
  by (auto simp: terminate_def Let_def rec_update ended_record_def)

lemma close_simps [simp]:
  "tg_cap (close_terminal i m) = tg_cap m" "tg_watches (close_terminal i m) = tg_watches m"
  "tg_sealed (close_terminal i m) = tg_sealed m" "tg_scrollback (close_terminal i m) = tg_scrollback m"
  "length (tg_records (close_terminal i m)) = length (tg_records m)"
  "tg_starts (close_terminal i m) = drop_starts i (tg_starts m)"
  by (simp_all add: close_terminal_def Let_def)

lemma rec_close:
  "rec_of (close_terminal i m) j = (if j = i \<and> i < length (tg_records m) then ended_record (rec_of m j) else rec_of m j)"
  by (simp add: close_terminal_def Let_def rec_terminate)

lemma live_simps [simp]:
  "live (terminate i m) = live m" "live (close_terminal i m) = live m" "live (kill_run i s m) = live m"
  by (auto simp: live_def rec_terminate rec_close fun_eq_iff)

lemma close_closing:
  "set (tg_closing (close_terminal i m)) = set (tg_closing m) \<union> (if live m i then {i} else {})"
  "distinct (tg_closing (close_terminal i m)) = distinct (tg_closing m)"
  by (auto simp: close_terminal_def Let_def)

lemma close_signals:
  "tg_signals (close_terminal i m) = tg_signals (terminate i m)" "tg_kills (close_terminal i m) = tg_kills (terminate i m)"
  by (simp_all add: close_terminal_def Let_def)

section \<open>The invariant\<close>

definition held_ok :: "manager \<Rightarrow> bool" where
  "held_ok m \<longleftrightarrow> distinct (tg_open m) \<and> distinct (tg_closing m) \<and> set (tg_open m) \<inter> set (tg_closing m) = {}
     \<and> set (tg_open m) \<union> set (tg_closing m) \<subseteq> {..<length (tg_records m)}
     \<and> (\<forall>i \<in> set (tg_closing m). live m i \<and> tm_terminating (rec_of m i))
     \<and> (\<forall>i < length (tg_records m). live m i \<longrightarrow> i \<in> set (tg_open m) \<union> set (tg_closing m))
     \<and> length (tg_open m) \<le> tg_cap m"

definition one_live_ok :: "manager \<Rightarrow> bool" where
  "one_live_ok m \<longleftrightarrow>
     (\<forall>i < length (tg_records m). \<forall>j < length (tg_records m). live m i \<longrightarrow> live m j \<longrightarrow>
        tm_store (rec_of m i) = tm_store (rec_of m j) \<longrightarrow> tm_session (rec_of m i) = tm_session (rec_of m j) \<longrightarrow>
        tm_session (rec_of m i) \<noteq> None \<longrightarrow> i = j)"

definition starts_ok :: "manager \<Rightarrow> bool" where
  "starts_ok m \<longleftrightarrow> distinct (map fst (tg_starts m))
     \<and> (\<forall>(g, held) \<in> set (tg_starts m). held \<noteq> [] \<and> snd ` set held \<subseteq> set (tg_open m))"

definition watched_ok :: "terminal \<Rightarrow> bool" where
  "watched_ok t \<longleftrightarrow> distinct (map fst (tm_watchers t)) \<and> (\<forall>(w, n) \<in> set (tm_watchers t). 0 < n)
     \<and> (tm_unwatched t = None \<longleftrightarrow> tm_watchers t \<noteq> [])"

definition kills_ok :: "manager \<Rightarrow> bool" where
  "kills_ok m \<longleftrightarrow>
     (\<forall>i < length (tg_records m). live m i \<longrightarrow> tm_terminating (rec_of m i) \<longrightarrow>
        (i, Sighup) \<in> set (tg_signals m) \<and> (i \<in> set (tg_kills m) \<or> (i, Sigkill) \<in> set (tg_signals m)))"

definition manager_ok :: "manager \<Rightarrow> bool" where
  "manager_ok m \<longleftrightarrow> held_ok m \<and> one_live_ok m \<and> starts_ok m \<and> kills_ok m \<and> (\<forall>t \<in> set (tg_records m). watched_ok t)"

lemma manager_okI:
  "held_ok m \<Longrightarrow> one_live_ok m \<Longrightarrow> starts_ok m \<Longrightarrow> kills_ok m \<Longrightarrow>
     (\<And>i. i < length (tg_records m) \<Longrightarrow> watched_ok (rec_of m i)) \<Longrightarrow> manager_ok m"
  by (auto simp: manager_ok_def in_set_conv_nth)

lemma manager_okD:
  assumes "manager_ok m"
  shows "held_ok m" "one_live_ok m" "starts_ok m" "kills_ok m" "i < length (tg_records m) \<Longrightarrow> watched_ok (rec_of m i)"
  using assms by (auto simp: manager_ok_def)

lemma open_known: "manager_ok m \<Longrightarrow> i \<in> set (tg_open m) \<Longrightarrow> i < length (tg_records m)"
  using manager_okD(1) by (fastforce simp: held_ok_def)

text \<open>A change of a record that is no birth, death or naming.\<close>

definition same_life :: "terminal \<Rightarrow> terminal \<Rightarrow> bool" where
  "same_life t u \<longleftrightarrow> tm_store u = tm_store t \<and> tm_session u = tm_session t \<and> tm_exit u = tm_exit t
     \<and> tm_terminating u = tm_terminating t"

lemma update_ok:
  assumes ok: "manager_ok m" and same: "\<And>t. same_life t (f t)" and w: "\<And>t. watched_ok t \<Longrightarrow> watched_ok (f t)"
  shows "manager_ok (update_record i f m)"
proof (rule manager_okI)
  have r: "tm_store (rec_of (update_record i f m) j) = tm_store (rec_of m j)"
      "tm_session (rec_of (update_record i f m) j) = tm_session (rec_of m j)"
      "tm_exit (rec_of (update_record i f m) j) = tm_exit (rec_of m j)"
      "tm_terminating (rec_of (update_record i f m) j) = tm_terminating (rec_of m j)" for j
    using same by (simp_all add: rec_update same_life_def)
  then have l: "live (update_record i f m) = live m" by (simp add: live_def fun_eq_iff)
  show "held_ok (update_record i f m)" "one_live_ok (update_record i f m)" "starts_ok (update_record i f m)"
      "kills_ok (update_record i f m)"
    using manager_okD(1-4) [OF ok]
    by (simp_all add: held_ok_def one_live_ok_def starts_ok_def kills_ok_def r l)
  show "watched_ok (rec_of (update_record i f m) j)" if "j < length (tg_records (update_record i f m))" for j
    using that manager_okD(5) [OF ok, of j] w by (auto simp: rec_update)
qed

lemma create_manager_ok: "manager_ok (create_manager cap scrollback)"
  by (rule manager_okI)
    (simp_all add: create_manager_def held_ok_def one_live_ok_def starts_ok_def kills_ok_def)

section \<open>Ending\<close>

lemma ended_kills:
  "set (tg_signals m) \<subseteq> set (tg_signals (terminate i m))" "set (tg_kills m) \<subseteq> set (tg_kills (terminate i m))"
  "\<not> tm_terminating (rec_of m i) \<Longrightarrow> live m i \<Longrightarrow>
     (i, Sighup) \<in> set (tg_signals (terminate i m)) \<and> i \<in> set (tg_kills (terminate i m))"
  by (auto simp: terminate_def Let_def kill_run_def live_def rec_update)

lemma kills_terminate: "kills_ok m \<Longrightarrow> kills_ok (terminate i m)"
  unfolding kills_ok_def
proof (intro allI impI)
  fix j
  assume old: "\<forall>j < length (tg_records m). live m j \<longrightarrow> tm_terminating (rec_of m j) \<longrightarrow>
      (j, Sighup) \<in> set (tg_signals m) \<and> (j \<in> set (tg_kills m) \<or> (j, Sigkill) \<in> set (tg_signals m))"
    and j: "j < length (tg_records (terminate i m))" "live (terminate i m) j" "tm_terminating (rec_of (terminate i m) j)"
  show "(j, Sighup) \<in> set (tg_signals (terminate i m))
      \<and> (j \<in> set (tg_kills (terminate i m)) \<or> (j, Sigkill) \<in> set (tg_signals (terminate i m)))"
  proof (cases "tm_terminating (rec_of m j)")
    case True
    then show ?thesis using old j ended_kills(1,2) [of m i] by auto
  next
    case False
    then have "j = i" using j(3) by (auto simp: rec_terminate split: if_splits)
    then show ?thesis using ended_kills(3) [of m i] False j(2) by simp
  qed
qed

lemma life_simps:
  "tm_store (rec_of (terminate i m) j) = tm_store (rec_of m j)" "tm_session (rec_of (terminate i m) j) = tm_session (rec_of m j)"
  "tm_store (rec_of (close_terminal i m) j) = tm_store (rec_of m j)"
  "tm_session (rec_of (close_terminal i m) j) = tm_session (rec_of m j)"
  by (simp_all add: rec_terminate rec_close)

lemma one_live_cong:
  "length (tg_records g) = length (tg_records m) \<Longrightarrow> live g = live m \<Longrightarrow>
     (\<And>i. tm_store (rec_of g i) = tm_store (rec_of m i)) \<Longrightarrow> (\<And>i. tm_session (rec_of g i) = tm_session (rec_of m i)) \<Longrightarrow>
     one_live_ok g = one_live_ok m"
  by (simp add: one_live_ok_def)

lemma one_live_terminate [simp]: "one_live_ok (terminate i m) = one_live_ok m"
  by (rule one_live_cong) (simp_all add: life_simps)

lemma watched_ended [simp]: "watched_ok (ended_record t) = watched_ok t"
  by (simp add: watched_ok_def)

lemma terminate_ok:
  assumes ok: "manager_ok m"
  shows "manager_ok (terminate i m)"
proof (rule manager_okI)
  show "held_ok (terminate i m)" using manager_okD(1) [OF ok] by (auto simp: held_ok_def rec_terminate)
  show "starts_ok (terminate i m)" using manager_okD(3) [OF ok] by (simp add: starts_ok_def)
  show "watched_ok (rec_of (terminate i m) j)" if "j < length (tg_records (terminate i m))" for j
    using that manager_okD(5) [OF ok, of j] by (auto simp: rec_terminate)
qed (use manager_okD(2,4) [OF ok] kills_terminate in simp_all)

lemma drop_starts_ok:
  assumes "distinct (map fst starts)" and "\<forall>(g, held) \<in> set starts. held \<noteq> [] \<and> snd ` set held \<subseteq> A"
  shows "distinct (map fst (drop_starts i starts))
     \<and> (\<forall>(g, held) \<in> set (drop_starts i starts). held \<noteq> [] \<and> snd ` set held \<subseteq> A - {i})"
proof -
  have "distinct (map fst (map (\<lambda>(g, held). (g, filter (\<lambda>(s, j). j \<noteq> i) held)) starts))"
    using assms(1) by (simp add: comp_def case_prod_unfold)
  then have "distinct (map fst (drop_starts i starts))" unfolding drop_starts_def by (rule distinct_map_filter)
  moreover have "held \<noteq> [] \<and> snd ` set held \<subseteq> A - {i}" if mem: "(g, held) \<in> set (drop_starts i starts)" for g held
  proof -
    obtain held0 where "(g, held0) \<in> set starts" "held = filter (\<lambda>(s, j). j \<noteq> i) held0" "held \<noteq> []"
      using mem by (fastforce simp: drop_starts_def)
    then show ?thesis using assms(2) by fastforce
  qed
  ultimately show ?thesis by blast
qed

lemma close_terminal_ok:
  assumes ok: "manager_ok m" and i: "i \<in> set (tg_open m)"
  shows "manager_ok (close_terminal i m)"
proof (rule manager_okI)
  have len: "i < length (tg_records m)" by (rule open_known [OF ok i])
  note h = manager_okD(1) [OF ok]
  have "length (removeAll i (tg_open m)) \<le> tg_cap m"
    using h le_trans [OF length_removeAll_less_eq [of i "tg_open m"]] by (simp add: held_ok_def)
  then show "held_ok (close_terminal i m)"
    using h i len by (auto simp: held_ok_def close_closing rec_close distinct_removeAll)
  show "starts_ok (close_terminal i m)"
    using manager_okD(3) [OF ok] drop_starts_ok [of "tg_starts m" "set (tg_open m)" i] by (simp add: starts_ok_def)
  have "one_live_ok (close_terminal i m) = one_live_ok m" by (rule one_live_cong) (simp_all add: life_simps)
  then show "one_live_ok (close_terminal i m)" using manager_okD(2) [OF ok] by simp
  have "kills_ok (terminate i m)" by (rule kills_terminate [OF manager_okD(4) [OF ok]])
  then show "kills_ok (close_terminal i m)" by (simp add: kills_ok_def close_signals rec_terminate rec_close)
  show "watched_ok (rec_of (close_terminal i m) j)" if "j < length (tg_records (close_terminal i m))" for j
    using that manager_okD(5) [OF ok, of j] by (auto simp: rec_close)
qed

lemma make_room_induct [consumes 1, case_names room full evict]:
  assumes "manager_ok m"
    and "\<And>m. manager_ok m \<Longrightarrow> length (tg_open m) < tg_cap m \<Longrightarrow> P m (m, True)"
    and "\<And>m. manager_ok m \<Longrightarrow> tg_cap m \<le> length (tg_open m) \<Longrightarrow> evictable m = [] \<Longrightarrow> P m (m, False)"
    and "\<And>m oldest rest. manager_ok m \<Longrightarrow> tg_cap m \<le> length (tg_open m) \<Longrightarrow> evictable m = oldest # rest \<Longrightarrow>
      P (close_terminal oldest m) (make_room (close_terminal oldest m)) \<Longrightarrow> P m (make_room (close_terminal oldest m))"
  shows "P m (make_room m)"
  using assms(1)
proof (induction m rule: make_room.induct)
  case (1 m)
  show ?case
  proof (cases "tg_cap m \<le> length (tg_open m)")
    case True
    show ?thesis
    proof (cases "evictable m")
      case Nil
      then show ?thesis using assms(3) [OF 1(2) True Nil] True by (simp add: make_room.simps [of m])
    next
      case (Cons oldest rest)
      then have "oldest \<in> set (tg_open m)" using set_evictable [of m] by auto
      from 1(1) [OF True Cons close_terminal_ok [OF 1(2) this]] show ?thesis
        using assms(4) [OF 1(2) True Cons] True Cons by (simp add: make_room.simps [of m])
    qed
  qed (use assms(2) [OF 1(2)] in \<open>simp add: make_room.simps [of m]\<close>)
qed

lemma make_room_ok: "manager_ok m \<Longrightarrow> manager_ok (fst (make_room m))"
  by (induction rule: make_room_induct) simp_all

lemma make_room_same:
  "manager_ok m \<Longrightarrow> live (fst (make_room m)) = live m \<and> tg_cap (fst (make_room m)) = tg_cap m
     \<and> tg_sealed (fst (make_room m)) = tg_sealed m \<and> tg_watches (fst (make_room m)) = tg_watches m
     \<and> length (tg_records (fst (make_room m))) = length (tg_records m)
     \<and> tm_store (rec_of (fst (make_room m)) i) = tm_store (rec_of m i)
     \<and> tm_session (rec_of (fst (make_room m)) i) = tm_session (rec_of m i)
     \<and> (snd (make_room m) \<longrightarrow> length (tg_open (fst (make_room m))) < tg_cap m)"
  by (induction rule: make_room_induct) (simp_all add: rec_close)

section \<open>The other operations\<close>

lemma holder_None:
  assumes "manager_ok m" and "live_holder_of m store session = None" and "i < length (tg_records m)" and "live m i"
  shows "\<not> (tm_store (rec_of m i) = store \<and> tm_session (rec_of m i) = Some session)"
proof -
  have "i \<in> set (tg_open m @ tg_closing m)" using manager_okD(1) [OF assms(1)] assms(3,4) by (auto simp: held_ok_def)
  then show ?thesis using assms(2,4) unfolding live_holder_of_def find_None_iff by blast
qed

lemma holder_Some:
  assumes "manager_ok m" and "live_holder_of m store session = Some i"
  shows "i < length (tg_records m)" "live m i" "tm_store (rec_of m i) = store" "tm_session (rec_of m i) = Some session"
proof -
  have "i \<in> set (tg_open m @ tg_closing m)" and "live m i" "tm_store (rec_of m i) = store" "tm_session (rec_of m i) = Some session"
    using find_Some_in [OF assms(2) [unfolded live_holder_of_def]] by auto
  then show "i < length (tg_records m)" "live m i" "tm_store (rec_of m i) = store" "tm_session (rec_of m i) = Some session"
    using manager_okD(1) [OF assms(1)] by (auto simp: held_ok_def)
qed

lemma add_record_ok:
  assumes ok: "manager_ok m" and room: "length (tg_open m) < tg_cap m" and t: "t = track store session pid now"
    and free: "\<And>s i. session = Some s \<Longrightarrow> i < length (tg_records m) \<Longrightarrow> live m i \<Longrightarrow>
      \<not> (tm_store (rec_of m i) = store \<and> tm_session (rec_of m i) = Some s)"
  shows "manager_ok (m\<lparr>tg_records := tg_records m @ [t], tg_open := tg_open m @ [length (tg_records m)]\<rparr>)"
    (is "manager_ok ?m")
proof (rule manager_okI)
  have r: "rec_of ?m i = (if i < length (tg_records m) then rec_of m i else t)" if "i < length (tg_records ?m)" for i
    using that by (auto simp: nth_append less_Suc_eq)
  have new: "tm_exit t = None" "tm_store t = store" "tm_session t = session" "\<not> tm_terminating t" "watched_ok t"
    by (simp_all add: t track_def watched_ok_def)
  have l: "live ?m i = (if i < length (tg_records m) then live m i else True)" if "i < length (tg_records ?m)" for i
    unfolding live_def r [OF that] by (simp add: new(1))
  note h = manager_okD(1) [OF ok]
  have known: "i < length (tg_records m)" if "i \<in> set (tg_open m) \<union> set (tg_closing m)" for i
    using that h by (auto simp: held_ok_def)
  show "held_ok ?m"
    unfolding held_ok_def
  proof (intro conjI ballI allI impI)
    show "distinct (tg_open ?m)" "distinct (tg_closing ?m)" using h known by (auto simp: held_ok_def)
    show "set (tg_open ?m) \<inter> set (tg_closing ?m) = {}" using h known by (auto simp: held_ok_def)
    show "set (tg_open ?m) \<union> set (tg_closing ?m) \<subseteq> {..<length (tg_records ?m)}" using known by fastforce
    show "live ?m i" "tm_terminating (rec_of ?m i)" if "i \<in> set (tg_closing ?m)" for i
      using that h known [of i] l [of i] r [of i] by (auto simp: held_ok_def)
    show "i \<in> set (tg_open ?m) \<union> set (tg_closing ?m)" if "i < length (tg_records ?m)" "live ?m i" for i
      using that h l [of i] by (auto simp: held_ok_def less_Suc_eq)
    show "length (tg_open ?m) \<le> tg_cap ?m" using room by simp
  qed
  show "one_live_ok ?m"
    unfolding one_live_ok_def
  proof (intro allI impI)
    fix i j
    assume ij: "i < length (tg_records ?m)" "j < length (tg_records ?m)" "live ?m i" "live ?m j"
      and same: "tm_store (rec_of ?m i) = tm_store (rec_of ?m j)" "tm_session (rec_of ?m i) = tm_session (rec_of ?m j)"
      "tm_session (rec_of ?m i) \<noteq> None"
    have old: "i = j" if "i < length (tg_records m)" "j < length (tg_records m)"
      using that ij same manager_okD(2) [OF ok] by (simp add: one_live_ok_def l nth_append)
    have clash: False if "k < length (tg_records m)" "live m k" "tm_store (rec_of m k) = store" "tm_session (rec_of m k) = session"
        "session \<noteq> None" for k
      using that free by auto
    show "i = j"
      using ij same old clash [of i] clash [of j] new
      by (cases "i < length (tg_records m)"; cases "j < length (tg_records m)") (auto simp: l nth_append less_Suc_eq)
  qed
  show "starts_ok ?m" using manager_okD(3) [OF ok] by (fastforce simp: starts_ok_def)
  show "kills_ok ?m" using manager_okD(4) [OF ok] new by (auto simp: kills_ok_def l nth_append less_Suc_eq)
  show "watched_ok (rec_of ?m i)" if "i < length (tg_records ?m)" for i
    using manager_okD(5) [OF ok, of i] new r [OF that] by simp
qed

lemma open_ok:
  assumes ok: "manager_ok m"
  shows "manager_ok (fst (open_terminal store session launchable launched now m))"
proof -
  obtain m1 room where room: "make_room m = (m1, room)" by (cases "make_room m")
  have ok1: "manager_ok m1" using make_room_ok [OF ok] room by simp
  have same: "live m1 = live m" "length (tg_records m1) = length (tg_records m)" "tg_cap m1 = tg_cap m"
    "room \<longrightarrow> length (tg_open m1) < tg_cap m"
    using make_room_same [OF ok, of 0] room by simp_all
  have rec: "tm_store (rec_of m1 i) = tm_store (rec_of m i)" "tm_session (rec_of m1 i) = tm_session (rec_of m i)" for i
    using make_room_same [OF ok, of i] room by simp_all
  have "manager_ok (m1\<lparr>tg_records := tg_records m1 @ [track store session pid now], tg_open := tg_open m1 @ [length (tg_records m1)]\<rparr>)"
    if "room" "(case session of None \<Rightarrow> None | Some s \<Rightarrow> live_holder_of m store s) = None" for pid
    by (rule add_record_ok [OF ok1 _ refl]) (use that same rec holder_None [OF ok] in \<open>auto split: option.splits\<close>)
  then show ?thesis
    using ok ok1 by (auto simp: open_terminal_def room Let_def split: option.split)
qed

lemma bind_ok:
  assumes ok: "manager_ok m"
  shows "manager_ok (fst (bind_session i session m))"
proof -
  let ?f = "\<lambda>t. t\<lparr>tm_session := Some session\<rparr>"
  let ?m = "update_record i ?f m"
  have "manager_ok ?m" if i: "i \<in> set (tg_open m)"
    and free: "live_holder_of m (tm_store (rec_of m i)) session = None \<or> live_holder_of m (tm_store (rec_of m i)) session = Some i"
  proof (rule manager_okI)
    have len: "i < length (tg_records m)" by (rule open_known [OF ok i])
    have l: "live ?m = live m" by (simp add: live_def rec_update fun_eq_iff)
    have r: "tm_store (rec_of ?m j) = tm_store (rec_of m j)" "tm_terminating (rec_of ?m j) = tm_terminating (rec_of m j)"
      "tm_session (rec_of ?m j) = (if j = i then Some session else tm_session (rec_of m j))" for j
      using len by (simp_all add: rec_update)
    have clash: "j = i" if "j < length (tg_records m)" "live m j" "tm_store (rec_of m j) = tm_store (rec_of m i)"
        "tm_session (rec_of m j) = Some session" for j
    proof (cases "live_holder_of m (tm_store (rec_of m i)) session")
      case None
      then show ?thesis using holder_None [OF ok None that(1,2)] that by blast
    next
      case (Some k)
      then have k: "k = i" using free by simp
      show ?thesis using manager_okD(2) [OF ok] holder_Some [OF ok Some] that unfolding k one_live_ok_def by (metis option.distinct(1))
    qed
    show "held_ok ?m" "starts_ok ?m" "kills_ok ?m"
      using manager_okD(1,3,4) [OF ok] by (simp_all add: held_ok_def starts_ok_def kills_ok_def l r)
    show "one_live_ok ?m"
      unfolding one_live_ok_def
    proof (intro allI impI)
      fix a b
      assume ab: "a < length (tg_records ?m)" "b < length (tg_records ?m)" "live ?m a" "live ?m b"
        and same: "tm_store (rec_of ?m a) = tm_store (rec_of ?m b)" "tm_session (rec_of ?m a) = tm_session (rec_of ?m b)"
        "tm_session (rec_of ?m a) \<noteq> None"
      have other: "d = i" if "c = i" "d < length (tg_records m)" "live m d"
          "tm_store (rec_of ?m c) = tm_store (rec_of ?m d)" "tm_session (rec_of ?m c) = tm_session (rec_of ?m d)" for c d
        using that clash [of d] by (cases "d = i") (simp_all add: r)
      show "a = b"
      proof (cases "a = i \<or> b = i")
        case True
        then show ?thesis using other [of a b] other [of b a] ab same by (auto simp: l)
      next
        case False
        then show ?thesis using ab same manager_okD(2) [OF ok] by (simp add: l r one_live_ok_def)
      qed
    qed
    show "watched_ok (rec_of ?m j)" if "j < length (tg_records ?m)" for j
      using that manager_okD(5) [OF ok, of j] by (auto simp: rec_update watched_ok_def)
  qed
  then show ?thesis using ok by (auto simp: bind_session_def split: option.split)
qed

text \<open>There is never more than one terminal too many, so one eviction is all it takes.\<close>

lemma make_room_once:
  assumes ok: "manager_ok m"
  shows "make_room m =
     (if length (tg_open m) < tg_cap m then (m, True)
      else (case evictable m of [] \<Rightarrow> (m, False) | oldest # rest \<Rightarrow> (close_terminal oldest m, True)))"
proof (cases "length (tg_open m) < tg_cap m \<or> evictable m = []")
  case True
  then show ?thesis by (auto simp: make_room.simps [of m])
next
  case False
  then obtain oldest rest where e: "evictable m = oldest # rest" by (cases "evictable m") auto
  then have i: "oldest \<in> set (tg_open m)" using set_evictable [of m] by auto
  have "length (removeAll oldest (tg_open m)) < tg_cap m"
    using length_removeAll_less [OF i] manager_okD(1) [OF ok] by (simp add: held_ok_def)
  then have "make_room (close_terminal oldest m) = (close_terminal oldest m, True)"
    by (simp add: make_room.simps [of "close_terminal oldest m"])
  then show ?thesis using False e by (simp add: make_room.simps [of m])
qed

lemma note_start_ok: "manager_ok m \<Longrightarrow> manager_ok (note_start i start g m)"
proof (cases "i \<in> set (tg_open m)")
  case True
  assume ok: "manager_ok m"
  let ?m = "note_start i start g m"
  have s: "tg_starts ?m = AList.update g (AList.update start i (held_starts m g)) (tg_starts m)"
    and fields: "tg_records ?m = tg_records m" "tg_open ?m = tg_open m" "tg_closing ?m = tg_closing m" "tg_cap ?m = tg_cap m"
      "tg_kills ?m = tg_kills m" "tg_signals ?m = tg_signals m"
    using True by (simp_all add: note_start_def)
  have upd: "snd ` set (AList.update start i held) \<subseteq> insert i (snd ` set held)" for held :: "(jstr \<times> nat) list"
    by (induction held) auto
  have "snd ` set (held_starts m g) \<subseteq> set (tg_open m)"
    using manager_okD(3) [OF ok] by (fastforce simp: held_starts_def starts_ok_def dest: map_of_SomeD split: option.split)
  then have new: "snd ` set (AList.update start i (held_starts m g)) \<subseteq> set (tg_open m)"
    using upd [of "held_starts m g"] True by blast
  have ne: "AList.update start i (held_starts m g) \<noteq> []" by (cases "held_starts m g") auto
  have sub: "set (AList.update g h starts) \<subseteq> insert (g, h) (set starts)" for h and starts :: "(jstr \<times> (jstr \<times> nat) list) list"
    by (induction starts) auto
  have old: "distinct (map fst (tg_starts m))" "\<forall>(g, held) \<in> set (tg_starts m). held \<noteq> [] \<and> snd ` set held \<subseteq> set (tg_open m)"
    using manager_okD(3) [OF ok] by (simp_all add: starts_ok_def)
  have "\<forall>(g, held) \<in> set (AList.update g (AList.update start i (held_starts m g)) (tg_starts m)).
      held \<noteq> [] \<and> snd ` set held \<subseteq> set (tg_open m)"
  proof clarify
    fix g' held
    assume "(g', held) \<in> set (AList.update g (AList.update start i (held_starts m g)) (tg_starts m))"
    then have "(g', held) = (g, AList.update start i (held_starts m g)) \<or> (g', held) \<in> set (tg_starts m)" using sub by blast
    then show "held \<noteq> [] \<and> snd ` set held \<subseteq> set (tg_open m)" using old(2) ne new by fastforce
  qed
  then have "starts_ok ?m"
    using distinct_update [OF old(1)] unfolding starts_ok_def s fields by blast
  moreover have "live ?m = live m" by (simp add: live_def fields fun_eq_iff)
  ultimately show ?thesis
    using manager_okD(1,2,4) [OF ok] ok
    by (simp add: manager_ok_def held_ok_def one_live_ok_def kills_ok_def fields)
qed (simp add: note_start_def)

lemma observe_ok: "manager_ok m \<Longrightarrow> manager_ok (observe_status store session status m)"
  by (auto simp: observe_status_def same_life_def watched_ok_def intro!: update_ok split: option.split)

lemma small_updates_ok:
  assumes "manager_ok m"
  shows "manager_ok (note_input i now m)" "manager_ok (fst (pause_terminal i m))" "manager_ok (fst (unpause_terminal i m))"
    "manager_ok (fst (stop_terminal i m))" "manager_ok (pty_prints i chunk m)"
  using assms
  by (auto simp: note_input_def pause_terminal_def unpause_terminal_def stop_terminal_def pty_prints_def same_life_def watched_ok_def
      intro!: update_ok terminate_ok)

lemma watched_attach:
  assumes "watched_ok t"
  shows "watched_ok ((attach_watcher w t)\<lparr>tm_listeners := ls, tm_unwatched := None\<rparr>)"
proof -
  have "AList.update w n ws \<noteq> []" for n and ws :: "(jstr \<times> nat) list" by (cases ws) auto
  moreover have "set (AList.update w n ws) \<subseteq> insert (w, n) (set ws)" for n and ws :: "(jstr \<times> nat) list"
    by (induction ws) auto
  ultimately show ?thesis
    using assms by (fastforce simp: watched_ok_def attach_watcher_def distinct_update split: option.split)
qed

lemma watched_drop: "watched_ok t \<Longrightarrow> map_of (tm_watchers t) w \<noteq> None \<Longrightarrow> watched_ok (drop_watcher w now t)"
proof -
  assume t: "watched_ok t" and w: "map_of (tm_watchers t) w \<noteq> None"
  then have "tm_watchers t \<noteq> []" by auto
  then show ?thesis using t set_delete_subset [of w "tm_watchers t"]
    by (auto simp: watched_ok_def drop_watcher_def Let_def)
qed

lemma watched_detach: "watched_ok t \<Longrightarrow> watched_ok (detach_watcher w now t)"
proof (cases "map_of (tm_watchers t) w")
  case (Some n)
  assume t: "watched_ok t"
  have "set (AList.update w k ws) \<subseteq> insert (w, k) (set ws)" "AList.update w k ws \<noteq> []" for k and ws :: "(jstr \<times> nat) list"
    by (induction ws) auto
  then have "watched_ok (t\<lparr>tm_watchers := AList.update w (n - 1) (tm_watchers t)\<rparr>)" if "1 < n"
    using that t Some by (fastforce simp: watched_ok_def distinct_update)
  then show ?thesis using watched_drop [OF t] Some by (simp add: detach_watcher_def)
qed (simp add: detach_watcher_def)

lemma watch_same_life:
  "same_life t ((attach_watcher w t)\<lparr>tm_listeners := ls, tm_unwatched := u\<rparr>)"
  "same_life t (detach_watcher w now (t\<lparr>tm_listeners := ls\<rparr>))" "same_life t (release_one w now t)"
  by (auto simp: same_life_def attach_watcher_def detach_watcher_def drop_watcher_def release_one_def Let_def split: option.split)

lemma bump_watches_ok [simp]: "manager_ok (m\<lparr>tg_watches := n\<rparr>) = manager_ok m"
  by (simp add: manager_ok_def held_ok_def one_live_ok_def starts_ok_def kills_ok_def live_def)

lemma watch_ok: "manager_ok m \<Longrightarrow> manager_ok (fst (watch_terminal i w m))"
  by (auto simp: watch_terminal_def Let_def watch_same_life watched_attach intro!: update_ok)

lemma unwatch_ok: "manager_ok m \<Longrightarrow> manager_ok (unwatch_terminal i n w now m)"
  unfolding unwatch_terminal_def
  by (rule update_ok, assumption, rule watch_same_life, rule watched_detach, simp add: watched_ok_def)

lemma release_ok: "manager_ok m \<Longrightarrow> manager_ok (release_watcher w now m)"
proof -
  have one: "manager_ok (update_record i (release_one w now) m)" if "manager_ok m" for i m
    using that by (rule update_ok) (simp_all only: watch_same_life, auto simp: release_one_def intro: watched_drop)
  have "manager_ok (foldl (\<lambda>m i. update_record i (release_one w now) m) m ks)" if "manager_ok m" for m ks
    using that by (induction ks arbitrary: m) (auto intro: one)
  then show "manager_ok m \<Longrightarrow> manager_ok (release_watcher w now m)" by (simp add: release_watcher_def)
qed

lemma exits_ok:
  assumes ok: "manager_ok m"
  shows "manager_ok (pty_exits i ended m)"
proof (rule manager_okI)
  let ?m = "pty_exits i ended m"
  have fields: "tg_open ?m = tg_open m" "tg_closing ?m = removeAll i (tg_closing m)" "tg_cap ?m = tg_cap m"
    "tg_starts ?m = tg_starts m" "tg_signals ?m = tg_signals m" "tg_kills ?m = removeAll i (tg_kills m)"
    "length (tg_records ?m) = length (tg_records m)"
    by (simp_all add: pty_exits_def)
  have r: "tm_store (rec_of ?m j) = tm_store (rec_of m j)" "tm_session (rec_of ?m j) = tm_session (rec_of m j)"
    "tm_terminating (rec_of ?m j) = tm_terminating (rec_of m j)" "watched_ok (rec_of ?m j) = watched_ok (rec_of m j)" for j
    by (simp_all add: pty_exits_def rec_update watched_ok_def)
  have l: "live ?m j \<longleftrightarrow> live m j \<and> \<not> (j = i \<and> i < length (tg_records m))" for j
    by (auto simp: live_def pty_exits_def rec_update)
  have dead: "live ?m j \<Longrightarrow> j < length (tg_records m) \<Longrightarrow> live m j \<and> j \<noteq> i" for j by (simp add: l)
  note h = manager_okD(1) [OF ok]
  show "held_ok ?m"
    unfolding held_ok_def fields r
  proof (intro conjI ballI allI impI)
    show "live ?m j" "tm_terminating (rec_of m j)" if "j \<in> set (removeAll i (tg_closing m))" for j
      using that h by (auto simp: held_ok_def l)
    show "j \<in> set (tg_open m) \<union> set (removeAll i (tg_closing m))" if "j < length (tg_records m)" "live ?m j" for j
      using h dead [OF that(2,1)] that(1) by (auto simp: held_ok_def)
  qed (use h in \<open>auto simp: held_ok_def distinct_removeAll\<close>)
  show "one_live_ok ?m"
    using manager_okD(2) [OF ok] unfolding one_live_ok_def fields r by (simp add: l)
  show "starts_ok ?m" using manager_okD(3) [OF ok] by (simp add: starts_ok_def fields)
  show "kills_ok ?m"
    using manager_okD(4) [OF ok] dead unfolding kills_ok_def fields r by auto
  show "watched_ok (rec_of ?m j)" if "j < length (tg_records ?m)" for j
    using that manager_okD(5) [OF ok, of j] by (simp add: r fields)
qed

lemma seal_ok: "manager_ok m \<Longrightarrow> manager_ok (seal m)"
  by (simp add: seal_def manager_ok_def held_ok_def one_live_ok_def starts_ok_def kills_ok_def live_def)

lemma write_ok: "manager_ok m \<Longrightarrow> manager_ok (write_run i data m)"
  by (simp add: write_run_def manager_ok_def held_ok_def one_live_ok_def starts_ok_def kills_ok_def live_def)

lemma resize_ok: "manager_ok m \<Longrightarrow> manager_ok (resize_run i cols rows m)"
  by (simp add: resize_run_def manager_ok_def held_ok_def one_live_ok_def starts_ok_def kills_ok_def live_def)

lemma kill_timer_ok:
  assumes ok: "manager_ok m"
  shows "manager_ok (kill_timer_fires i m)"
proof -
  have "kills_ok (kill_timer_fires i m)"
    unfolding kills_ok_def
  proof (intro allI impI)
    fix j
    assume j: "j < length (tg_records (kill_timer_fires i m))" "live (kill_timer_fires i m) j"
      "tm_terminating (rec_of (kill_timer_fires i m) j)"
    have "tg_records (kill_timer_fires i m) = tg_records m" by (simp add: kill_timer_fires_def)
    then have "j < length (tg_records m)" "live m j" "tm_terminating (rec_of m j)"
      using j by (simp_all add: live_def)
    then have "(j, Sighup) \<in> set (tg_signals m) \<and> (j \<in> set (tg_kills m) \<or> (j, Sigkill) \<in> set (tg_signals m))"
      using manager_okD(4) [OF ok] by (simp add: kills_ok_def)
    then show "(j, Sighup) \<in> set (tg_signals (kill_timer_fires i m))
        \<and> (j \<in> set (tg_kills (kill_timer_fires i m)) \<or> (j, Sigkill) \<in> set (tg_signals (kill_timer_fires i m)))"
      using \<open>live m j\<close> by (cases "j = i") (auto simp: kill_timer_fires_def live_def)
  qed
  moreover have "held_ok (kill_timer_fires i m)" "one_live_ok (kill_timer_fires i m)" "starts_ok (kill_timer_fires i m)"
      "tg_records (kill_timer_fires i m) = tg_records m"
    using manager_okD(1-3) [OF ok]
    by (simp_all add: kill_timer_fires_def kill_run_def held_ok_def one_live_ok_def starts_ok_def live_def)
  ultimately show ?thesis using ok by (simp add: manager_ok_def)
qed

lemma close_all_ok:
  assumes ok: "manager_ok m"
  shows "manager_ok (close_all m)" "tg_open (close_all m) = []"
proof -
  have "manager_ok (foldl (\<lambda>m i. close_terminal i m) m ks)
      \<and> tg_open (foldl (\<lambda>m i. close_terminal i m) m ks) = filter (\<lambda>i. i \<notin> set ks) (tg_open m)"
    if "manager_ok m" "distinct ks" "set ks \<subseteq> set (tg_open m)" for m ks
    using that
  proof (induction ks arbitrary: m)
    case (Cons i ks)
    have "set ks \<subseteq> set (tg_open (close_terminal i m))" using Cons.prems by auto
    from Cons.IH [OF close_terminal_ok [OF Cons.prems(1)] _ this] show ?case
      using Cons.prems by (auto simp: removeAll_filter_not_eq intro: filter_cong)
  qed simp
  from this [OF ok _ order.refl] show "manager_ok (close_all m)" "tg_open (close_all m) = []"
    using manager_okD(1) [OF ok] by (simp_all add: close_all_def held_ok_def)
qed

end
