(* ===== verification/Terminal_Streams.thy ===== *)
theory Terminal_Streams
  imports Terminal_Once
begin

text \<open>
  \<open>apps/server/src/terminal/terminal-streams.ts\<close>: what one hub connection watches, with the parts of
  \<open>apps/server/src/hub/hub-connection.ts\<close> that give it a grant, take its output and end it, and one server
  as a machine: a terminal manager, the connections by name, and every event that reaches either.

  A target is its own key: \<open>keyOf\<close> writes the two kinds apart and \<open>sessionRefKey\<close> is the JSON of a pair.
  \<open>byTarget\<close> holds the streams themselves; here it holds the number of the terminal, which names one
  stream of the connection, since a stream leaves \<open>streams\<close> only when its last target left \<open>byTarget\<close>
  (\<open>targets_ok\<close>, proved of every run).  \<open>sm_base\<close>, \<open>sm_replay\<close>, \<open>sm_lost\<close> and \<open>sm_offered\<close> record what
  a stream was given, for stating what it missed; no operation reads them.
\<close>

section \<open>State\<close>

datatype target = By_Start jstr | By_Session jstr jstr

record stream =
  sm_targets :: "target list"
  sm_dropped :: nat
  sm_watch :: nat
  sm_base :: nat
  sm_replay :: "chunk list"
  sm_lost :: nat
  sm_offered :: "(chunk \<times> nat \<times> bool) list"

record terminal_output =
  ot_store :: jstr
  ot_session :: "jstr option"
  ot_start :: "jstr option"
  ot_chunk :: chunk
  ot_dropped :: nat

record terminal_attachment =
  at_store :: jstr
  at_session :: "jstr option"
  at_start :: "jstr option"
  at_lost :: nat
  at_replay :: "chunk list"

datatype connection_state = Awaiting_Handshake | Authorizing | Established | Closed

record connection =
  cn_state :: connection_state
  cn_grant :: "jstr option"
  cn_streams :: "nat \<Rightarrow> stream option"
  cn_by_target :: "(target \<times> nat) list"
  cn_identified :: "jstr list"
  cn_sent :: "terminal_output list"
  cn_tags :: "(jstr \<times> jstr option) list"

definition create_connection :: connection where
  "create_connection =
     \<lparr>cn_state = Awaiting_Handshake, cn_grant = None, cn_streams = Map.empty, cn_by_target = [], cn_identified = [],
      cn_sent = [], cn_tags = []\<rparr>"

section \<open>Addressing a terminal\<close>

definition starts_of :: "manager \<Rightarrow> connection \<Rightarrow> (jstr \<times> nat) list" where
  "starts_of m c = (case cn_grant c of None \<Rightarrow> [] | Some g \<Rightarrow> held_starts m g)"

definition start_id_of :: "manager \<Rightarrow> connection \<Rightarrow> nat \<Rightarrow> jstr option" where
  "start_id_of m c i = map_option fst (find (\<lambda>(start, held). held = i) (starts_of m c))"

definition resolve :: "manager \<Rightarrow> connection \<Rightarrow> target \<Rightarrow> nat option" where
  "resolve m c target =
     (case target of
        By_Start start \<Rightarrow>
          (case map_of (starts_of m c) start of
             None \<Rightarrow> None
           | Some i \<Rightarrow> if i \<in> set (tg_open m) then Some i else None)
      | By_Session store session \<Rightarrow>
          (let held = filter (\<lambda>i. tm_store (rec_of m i) = store \<and> tm_session (rec_of m i) = Some session) (tg_open m)
           in (case find (live m) held of
                 Some i \<Rightarrow> Some i
               | None \<Rightarrow> (case held of [] \<Rightarrow> None | i # rest \<Rightarrow> Some i))))"

section \<open>Giving a watch back\<close>

definition give_back :: "jstr \<Rightarrow> nat \<Rightarrow> target \<Rightarrow> manager \<times> connection \<Rightarrow> manager \<times> connection" where
  "give_back w now key = (\<lambda>(m, c).
     case map_of (cn_by_target c) key of
       None \<Rightarrow> (m, c)
     | Some i \<Rightarrow>
         (let c1 = c\<lparr>cn_by_target := AList.delete key (cn_by_target c)\<rparr>
          in (case cn_streams c i of
                None \<Rightarrow> (m, c1)
              | Some s \<Rightarrow>
                  (let left = removeAll key (sm_targets s)
                   in if left \<noteq> [] then (m, c1\<lparr>cn_streams := (cn_streams c)(i \<mapsto> s\<lparr>sm_targets := left\<rparr>)\<rparr>)
                      else (unwatch_terminal i (sm_watch s) w now m,
                            c1\<lparr>cn_streams := (cn_streams c)(i := None)\<rparr>)))))"

definition detach_all :: "jstr \<Rightarrow> nat \<Rightarrow> manager \<times> connection \<Rightarrow> manager \<times> connection" where
  "detach_all w now = (\<lambda>(m, c). foldl (\<lambda>mc key. give_back w now key mc) (m, c) (keys_of (cn_by_target c)))"

section \<open>Subscribing\<close>

definition attachment_of :: "manager \<Rightarrow> connection \<Rightarrow> nat \<Rightarrow> chunk list \<Rightarrow> nat \<Rightarrow> terminal_attachment" where
  "attachment_of m c i history dropped =
     \<lparr>at_store = tm_store (rec_of m i), at_session = tm_session (rec_of m i), at_start = start_id_of m c i,
      at_lost = dropped, at_replay = history\<rparr>"

definition attach_target ::
  "jstr \<Rightarrow> target \<Rightarrow> nat \<Rightarrow> manager \<times> connection \<Rightarrow> (manager \<times> connection) \<times> terminal_attachment" where
  "attach_target w key i = (\<lambda>(m, c).
     let history = sb_chunks (tm_buffer (rec_of m i));
         dropped = sb_dropped (tm_buffer (rec_of m i))
     in (case cn_streams c i of
           Some s \<Rightarrow>
             (let c1 = c\<lparr>cn_streams := (cn_streams c)(i \<mapsto> s\<lparr>sm_targets := set_add key (sm_targets s)\<rparr>),
                         cn_by_target := AList.update key i (cn_by_target c)\<rparr>
              in ((m, c1), attachment_of m c1 i history dropped))
         | None \<Rightarrow>
             (case watch_terminal i w m of
                (m1, n) \<Rightarrow>
                  (let s = \<lparr>sm_targets = [key], sm_dropped = 0, sm_watch = n, sm_base = length (tm_printed (rec_of m i)),
                            sm_replay = history, sm_lost = dropped, sm_offered = []\<rparr>;
                       c1 = c\<lparr>cn_streams := (cn_streams c)(i \<mapsto> s),
                              cn_by_target := AList.update key i (cn_by_target c)\<rparr>
                   in ((m1, c1), attachment_of m1 c1 i history dropped)))))"

definition subscribe ::
  "jstr \<Rightarrow> nat \<Rightarrow> target \<Rightarrow> manager \<times> connection \<Rightarrow> (manager \<times> connection) \<times> terminal_attachment option" where
  "subscribe w now target = (\<lambda>(m, c).
     case resolve m c target of
       None \<Rightarrow> ((m, c), None)
     | Some i \<Rightarrow>
         (let moved = (case map_of (cn_by_target c) target of None \<Rightarrow> False | Some j \<Rightarrow> j \<noteq> i);
              (mc, attached) = attach_target w target i (if moved then give_back w now target (m, c) else (m, c))
          in (mc, Some attached)))"

datatype stream_outcome = Stream_Ok | No_Such_Terminal | Not_Watching | Session_Ended | Session_Paused

definition unsubscribe :: "jstr \<Rightarrow> nat \<Rightarrow> target \<Rightarrow> manager \<times> connection \<Rightarrow> (manager \<times> connection) \<times> stream_outcome" where
  "unsubscribe w now target = (\<lambda>(m, c).
     if map_of (cn_by_target c) target = None then ((m, c), Not_Watching)
     else (give_back w now target (m, c), Stream_Ok))"

section \<open>Typing and sizing\<close>

definition write_target :: "nat \<Rightarrow> target \<Rightarrow> jstr \<Rightarrow> manager \<times> connection \<Rightarrow> manager \<times> stream_outcome" where
  "write_target now target data = (\<lambda>(m, c).
     case resolve m c target of
       None \<Rightarrow> (m, No_Such_Terminal)
     | Some i \<Rightarrow>
         if \<not> live m i then (m, Session_Ended)
         else if tm_pause (rec_of m i) = Paused then (m, Session_Paused)
         else (note_input i now (write_run i data m), Stream_Ok))"

definition resize_target :: "target \<Rightarrow> nat \<Rightarrow> nat \<Rightarrow> manager \<times> connection \<Rightarrow> manager \<times> stream_outcome" where
  "resize_target target cols rows = (\<lambda>(m, c).
     case resolve m c target of
       None \<Rightarrow> (m, No_Such_Terminal)
     | Some i \<Rightarrow> if \<not> live m i then (m, Session_Ended) else (resize_run i cols rows m, Stream_Ok))"

section \<open>Starts\<close>

definition note_own_start :: "nat \<Rightarrow> jstr \<Rightarrow> manager \<times> connection \<Rightarrow> manager" where
  "note_own_start i start = (\<lambda>(m, c). case cn_grant c of None \<Rightarrow> m | Some g \<Rightarrow> note_start i start g m)"

text \<open>The loop over the grant's starts: the tags to report, and the starts now identified.\<close>

fun start_tags :: "manager \<Rightarrow> jstr \<Rightarrow> (jstr \<times> nat) list \<Rightarrow> jstr list \<Rightarrow> (jstr \<times> jstr option) list \<times> jstr list" where
  "start_tags m store [] identified = ([], identified)"
| "start_tags m store ((start, i) # rest) identified =
     (if i \<notin> set (tg_open m) then start_tags m store rest identified
      else if start \<in> set identified \<or> tm_store (rec_of m i) \<noteq> store then start_tags m store rest identified
      else
        (let session = tm_session (rec_of m i);
             (tags, identified') =
               start_tags m store rest (if session \<noteq> None then set_add start identified else identified)
         in ((start, session) # tags, identified')))"

definition take_start_tags :: "manager \<Rightarrow> jstr \<Rightarrow> connection \<Rightarrow> connection" where
  "take_start_tags m store c =
     (let (tags, identified) = start_tags m store (starts_of m c) (cn_identified c)
      in c\<lparr>cn_identified := identified, cn_tags := cn_tags c @ tags\<rparr>)"

section \<open>Output\<close>

text \<open>\<open>sendOutput\<close>: \<open>behind\<close> is the socket holding more than it may.\<close>

definition send_output :: "bool \<Rightarrow> terminal_output \<Rightarrow> connection \<Rightarrow> connection \<times> bool" where
  "send_output behind out c =
     (if cn_state c \<noteq> Established then (c, False)
      else if behind then (c, False)
      else (c\<lparr>cn_sent := cn_sent c @ [out]\<rparr>, True))"

text \<open>The listener of a stream.\<close>

definition offer_chunk :: "manager \<Rightarrow> nat \<Rightarrow> chunk \<Rightarrow> bool \<Rightarrow> connection \<Rightarrow> connection" where
  "offer_chunk m i chunk behind c =
     (case cn_streams c i of
        None \<Rightarrow> c
      | Some s \<Rightarrow>
          if sm_watch s \<notin> set (tm_listeners (rec_of m i)) then c
          else
            (case send_output behind
                \<lparr>ot_store = tm_store (rec_of m i), ot_session = tm_session (rec_of m i), ot_start = start_id_of m c i,
                 ot_chunk = chunk, ot_dropped = sm_dropped s\<rparr> c of
               (c1, sent) \<Rightarrow>
                 c1\<lparr>cn_streams := (cn_streams c1)(i \<mapsto>
                   s\<lparr>sm_dropped := (if sent then sm_dropped s else sm_dropped s + 1),
                     sm_offered := sm_offered s @ [(chunk, sm_dropped s, sent)]\<rparr>)\<rparr>))"

section \<open>One server\<close>

record terminal_server =
  sv_manager :: manager
  sv_connections :: "jstr \<Rightarrow> connection option"
  sv_past :: "jstr list"

datatype server_event =
    Opens jstr "jstr option" bool "nat option" nat
  | Binds nat jstr
  | Observes jstr jstr session_status
  | Stops nat
  | Pauses nat
  | Unpauses nat
  | Seals
  | Closes_All
  | Prints nat chunk "jstr list"
  | Exits nat pty_exit
  | Kill_Due nat
  | Connects jstr
  | Asks_Handshake jstr
  | Handshakes jstr jstr
  | Subscribes jstr target nat
  | Unsubscribes jstr target nat
  | Writes jstr target jstr nat
  | Resizes jstr target nat nat
  | Starts jstr nat jstr
  | Takes_Tags jstr jstr
  | Refuses jstr nat
  | Disconnects jstr nat

definition create_server :: "nat \<Rightarrow> nat \<Rightarrow> terminal_server" where
  "create_server cap scrollback =
     \<lparr>sv_manager = create_manager cap scrollback, sv_connections = Map.empty, sv_past = []\<rparr>"

text \<open>A frame reaches the streams of a connection that is established.\<close>

definition on_connection :: "jstr \<Rightarrow> (manager \<times> connection \<Rightarrow> manager \<times> connection) \<Rightarrow> terminal_server \<Rightarrow> terminal_server" where
  "on_connection w f sv =
     (case sv_connections sv w of
        None \<Rightarrow> sv
      | Some c \<Rightarrow>
          if cn_state c \<noteq> Established then sv
          else (case f (sv_manager sv, c) of
                  (m, c1) \<Rightarrow> sv\<lparr>sv_manager := m, sv_connections := (sv_connections sv)(w \<mapsto> c1)\<rparr>))"

definition connects :: "jstr \<Rightarrow> terminal_server \<Rightarrow> terminal_server" where
  "connects w sv =
     (if w \<in> set (sv_past sv) then sv
      else sv\<lparr>sv_connections := (sv_connections sv)(w \<mapsto> create_connection), sv_past := sv_past sv @ [w]\<rparr>)"

text \<open>A second handshake is refused: \<open>Refuses\<close>.\<close>

definition asks_handshake :: "jstr \<Rightarrow> terminal_server \<Rightarrow> terminal_server" where
  "asks_handshake w sv =
     (case sv_connections sv w of
        None \<Rightarrow> sv
      | Some c \<Rightarrow>
          if cn_state c \<noteq> Awaiting_Handshake then sv
          else sv\<lparr>sv_connections := (sv_connections sv)(w \<mapsto> c\<lparr>cn_state := Authorizing\<rparr>)\<rparr>)"

definition handshakes :: "jstr \<Rightarrow> jstr \<Rightarrow> terminal_server \<Rightarrow> terminal_server" where
  "handshakes w g sv =
     (case sv_connections sv w of
        None \<Rightarrow> sv
      | Some c \<Rightarrow>
          if cn_state c \<noteq> Authorizing then sv
          else sv\<lparr>sv_connections := (sv_connections sv)(w \<mapsto> c\<lparr>cn_state := Established, cn_grant := Some g\<rparr>)\<rparr>)"

text \<open>
  \<open>leave\<close> is set once the connection is in the audience, and takes effect once; its hook is the
  manager's \<open>release\<close>.  A connection that was refused has left already.
\<close>

definition leave_audience :: "jstr \<Rightarrow> nat \<Rightarrow> connection \<Rightarrow> manager \<Rightarrow> manager" where
  "leave_audience w now c m = (if cn_state c = Established then release_watcher w now m else m)"

definition refuses :: "jstr \<Rightarrow> nat \<Rightarrow> terminal_server \<Rightarrow> terminal_server" where
  "refuses w now sv =
     (case sv_connections sv w of
        None \<Rightarrow> sv
      | Some c \<Rightarrow>
          sv\<lparr>sv_manager := leave_audience w now c (sv_manager sv),
             sv_connections := (sv_connections sv)(w \<mapsto> c\<lparr>cn_state := Closed\<rparr>)\<rparr>)"

definition disconnects :: "jstr \<Rightarrow> nat \<Rightarrow> terminal_server \<Rightarrow> terminal_server" where
  "disconnects w now sv =
     (case sv_connections sv w of
        None \<Rightarrow> sv
      | Some c \<Rightarrow>
          (case detach_all w now (sv_manager sv, c) of
             (m, c1) \<Rightarrow>
               sv\<lparr>sv_manager := leave_audience w now c m,
                  sv_connections := (sv_connections sv)(w \<mapsto> c1\<lparr>cn_state := Closed\<rparr>)\<rparr>))"

text \<open>A spawn is awaited, so the connection that asked may have closed when it is told.\<close>

definition starts_session :: "jstr \<Rightarrow> nat \<Rightarrow> jstr \<Rightarrow> terminal_server \<Rightarrow> terminal_server" where
  "starts_session w i start sv =
     (case sv_connections sv w of
        None \<Rightarrow> sv
      | Some c \<Rightarrow> sv\<lparr>sv_manager := note_own_start i start (sv_manager sv, c)\<rparr>)"

text \<open>What a pseudoterminal prints goes into the buffer and then to whoever listens.\<close>

definition prints :: "nat \<Rightarrow> chunk \<Rightarrow> jstr list \<Rightarrow> terminal_server \<Rightarrow> terminal_server" where
  "prints i chunk behind sv =
     (if length (tg_records (sv_manager sv)) \<le> i then sv
      else
        (let m = pty_prints i chunk (sv_manager sv)
         in sv\<lparr>sv_manager := m, sv_connections := (\<lambda>w.
              map_option (offer_chunk m i chunk (w \<in> set behind)) (sv_connections sv w))\<rparr>))"

definition on_manager :: "(manager \<Rightarrow> manager) \<Rightarrow> terminal_server \<Rightarrow> terminal_server" where
  "on_manager f sv = sv\<lparr>sv_manager := f (sv_manager sv)\<rparr>"

definition server_step :: "terminal_server \<Rightarrow> server_event \<Rightarrow> terminal_server" where
  "server_step sv e =
     (case e of
        Opens store session launchable launched now \<Rightarrow>
          on_manager (\<lambda>m. fst (open_terminal store session launchable launched now m)) sv
      | Binds i session \<Rightarrow> on_manager (\<lambda>m. fst (bind_session i session m)) sv
      | Observes store session status \<Rightarrow> on_manager (observe_status store session status) sv
      | Stops i \<Rightarrow> on_manager (\<lambda>m. fst (stop_terminal i m)) sv
      | Pauses i \<Rightarrow> on_manager (\<lambda>m. fst (pause_terminal i m)) sv
      | Unpauses i \<Rightarrow> on_manager (\<lambda>m. fst (unpause_terminal i m)) sv
      | Seals \<Rightarrow> on_manager seal sv
      | Closes_All \<Rightarrow> on_manager close_all sv
      | Prints i chunk behind \<Rightarrow> prints i chunk behind sv
      | Exits i ended \<Rightarrow> on_manager (\<lambda>m. if i < length (tg_records m) \<and> live m i then pty_exits i ended m else m) sv
      | Kill_Due i \<Rightarrow> on_manager (kill_timer_fires i) sv
      | Connects w \<Rightarrow> connects w sv
      | Asks_Handshake w \<Rightarrow> asks_handshake w sv
      | Handshakes w g \<Rightarrow> handshakes w g sv
      | Subscribes w target now \<Rightarrow> on_connection w (\<lambda>mc. fst (subscribe w now target mc)) sv
      | Unsubscribes w target now \<Rightarrow> on_connection w (\<lambda>mc. fst (unsubscribe w now target mc)) sv
      | Writes w target data now \<Rightarrow> on_connection w (\<lambda>(m, c). (fst (write_target now target data (m, c)), c)) sv
      | Resizes w target cols rows \<Rightarrow> on_connection w (\<lambda>(m, c). (fst (resize_target target cols rows (m, c)), c)) sv
      | Starts w i start \<Rightarrow> starts_session w i start sv
      | Takes_Tags w store \<Rightarrow> on_connection w (\<lambda>(m, c). (m, take_start_tags m store c)) sv
      | Refuses w now \<Rightarrow> refuses w now sv
      | Disconnects w now \<Rightarrow> disconnects w now sv)"

end
