(* ===== verification/Terminal_Watches.thy ===== *)
theory Terminal_Watches
  imports Terminal_Streams
begin

text \<open>
  The invariant of a server's connections over its terminals: who is counted on a terminal is who has a
  stream on it, every stream was given all its terminal printed, and what a buffer holds is the end of it.
\<close>

section \<open>What the manager's own operations leave alone\<close>

definition watch_part :: "terminal \<Rightarrow> (jstr \<times> nat) list \<times> nat list \<times> chunk list \<times> scrollback" where
  "watch_part t = (tm_watchers t, tm_listeners t, tm_printed t, tm_buffer t)"

definition same_watch :: "manager \<Rightarrow> manager \<Rightarrow> bool" where
  "same_watch m k \<longleftrightarrow> tg_watches k = tg_watches m \<and> tg_scrollback k = tg_scrollback m
     \<and> length (tg_records m) \<le> length (tg_records k)
     \<and> (\<forall>i < length (tg_records m). watch_part (rec_of k i) = watch_part (rec_of m i))
     \<and> (\<forall>i. length (tg_records m) \<le> i \<longrightarrow> i < length (tg_records k) \<longrightarrow> watch_part (rec_of k i) = ([], [], [], create_scrollback))
     \<and> set (tg_open k) \<subseteq> set (tg_open m) \<union> {length (tg_records m)..}"

lemma same_watchI:
  assumes "tg_watches k = tg_watches m" "tg_scrollback k = tg_scrollback m" "length (tg_records k) = length (tg_records m)"
    and "\<And>i. i < length (tg_records m) \<Longrightarrow> watch_part (rec_of k i) = watch_part (rec_of m i)"
    and "set (tg_open k) \<subseteq> set (tg_open m)"
  shows "same_watch m k"
  using assms by (auto simp: same_watch_def)

lemma same_watch_refl [simp]: "same_watch m m"
  by (rule same_watchI) simp_all

lemma same_watch_trans:
  assumes a: "same_watch m k" and b: "same_watch k l"
  shows "same_watch m l"
  unfolding same_watch_def
proof (intro conjI allI impI)
  show "watch_part (rec_of l i) = watch_part (rec_of m i)" if "i < length (tg_records m)" for i
    using that a b by (simp add: same_watch_def)
  show "watch_part (rec_of l i) = ([], [], [], create_scrollback)" if "length (tg_records m) \<le> i" "i < length (tg_records l)" for i
    using that a b by (cases "i < length (tg_records k)") (simp_all add: same_watch_def)
  show "set (tg_open l) \<subseteq> set (tg_open m) \<union> {length (tg_records m)..}"
  proof
    fix i
    assume "i \<in> set (tg_open l)"
    then have "i \<in> set (tg_open k) \<or> length (tg_records k) \<le> i" using b by (auto simp: same_watch_def)
    then show "i \<in> set (tg_open m) \<union> {length (tg_records m)..}" using a by (auto simp: same_watch_def)
  qed
qed (use a b in \<open>simp_all add: same_watch_def\<close>)

lemma same_watch_update: "(\<And>t. watch_part (f t) = watch_part t) \<Longrightarrow> same_watch m (update_record i f m)"
  by (rule same_watchI) (simp_all add: rec_update)

lemma same_watch_close: "same_watch m (terminate i m)" "same_watch m (close_terminal i m)"
  by (rule same_watchI; auto simp: rec_terminate rec_close watch_part_def)+

lemma same_watch_room: "manager_ok m \<Longrightarrow> same_watch m (fst (make_room m))"
  by (induction rule: make_room_induct) (auto intro: same_watch_trans same_watch_close)

lemma same_watch_open: 
  assumes ok: "manager_ok m"
  shows "same_watch m (fst (open_terminal store session launchable launched now m))"
proof -
  obtain m1 room where room: "make_room m = (m1, room)" by (cases "make_room m")
  then have one: "same_watch m m1" using same_watch_room [OF ok] by simp
  have "same_watch m1 (m1\<lparr>tg_records := tg_records m1 @ [track store session pid now], tg_open := tg_open m1 @ [length (tg_records m1)]\<rparr>)" for pid session
    by (auto simp: same_watch_def nth_append watch_part_def track_def)
  then have "same_watch m (m1\<lparr>tg_records := tg_records m1 @ [track store session pid now], tg_open := tg_open m1 @ [length (tg_records m1)]\<rparr>)" for pid session
    by (rule same_watch_trans [OF one])
  then show ?thesis using one by (simp add: open_terminal_def room Let_def split: option.split)
qed

lemma same_watch_bind: "same_watch m (fst (bind_session i session m))"
  by (auto simp: bind_session_def watch_part_def intro!: same_watch_update split: option.split)

lemma same_watch_note: "same_watch m (note_start i start g m)"
  by (rule same_watchI) (simp_all add: note_start_def)

lemma same_watch_small:
  "same_watch m (observe_status store session status m)" "same_watch m (note_input i now m)"
  "same_watch m (fst (pause_terminal i m))" "same_watch m (fst (unpause_terminal i m))" "same_watch m (fst (stop_terminal i m))"
  by (auto simp: observe_status_def note_input_def pause_terminal_def unpause_terminal_def stop_terminal_def watch_part_def
      intro!: same_watch_update same_watch_close split: option.split)

lemma same_watch_runs:
  "same_watch m (kill_run i s m)" "same_watch m (write_run i data m)" "same_watch m (resize_run i cols rows m)"
  "same_watch m (kill_timer_fires i m)" "same_watch m (seal m)"
  by (rule same_watchI; simp add: kill_run_def write_run_def resize_run_def kill_timer_fires_def seal_def)+

lemma same_watch_exits: "same_watch m (pty_exits i ended m)"
  by (rule same_watchI) (simp_all add: pty_exits_def rec_update watch_part_def)

lemma same_watch_close_all: "same_watch m (close_all m)"
proof -
  have "same_watch m (foldl (\<lambda>m i. close_terminal i m) m ks)" for m ks
    by (induction ks arbitrary: m) (auto intro: same_watch_trans same_watch_close)
  then show ?thesis by (simp add: close_all_def)
qed

section \<open>Who is counted\<close>

text \<open>\<open>W w i\<close> is the watch connection \<open>w\<close> has on terminal \<open>i\<close>; \<open>away w\<close> says it has left the audience.\<close>

definition counts_ok :: "manager \<Rightarrow> (jstr \<Rightarrow> nat \<Rightarrow> nat option) \<Rightarrow> (jstr \<Rightarrow> bool) \<Rightarrow> bool" where
  "counts_ok m W away \<longleftrightarrow>
     (\<forall>w i n. W w i = Some n \<longrightarrow> i < length (tg_records m) \<and> n < tg_watches m \<and> n \<in> set (tm_listeners (rec_of m i)))
   \<and> (\<forall>i < length (tg_records m). \<forall>n \<in> set (tm_listeners (rec_of m i)). \<exists>w. W w i = Some n)
   \<and> (\<forall>v w i n. W v i = Some n \<longrightarrow> W w i = Some n \<longrightarrow> v = w)
   \<and> (\<forall>i < length (tg_records m). \<forall>w n. map_of (tm_watchers (rec_of m i)) w = Some n \<longrightarrow>
        n = 1 \<and> W w i \<noteq> None \<and> (away w \<longrightarrow> i \<notin> set (tg_open m)))
   \<and> (\<forall>w i. W w i \<noteq> None \<longrightarrow> \<not> away w \<longrightarrow> map_of (tm_watchers (rec_of m i)) w \<noteq> None)"

lemma counts_okD:
  assumes "counts_ok m W away"
  shows "W w i = Some n \<Longrightarrow> i < length (tg_records m)" "W w i = Some n \<Longrightarrow> n < tg_watches m"
    "W w i = Some n \<Longrightarrow> n \<in> set (tm_listeners (rec_of m i))"
    "i < length (tg_records m) \<Longrightarrow> n \<in> set (tm_listeners (rec_of m i)) \<Longrightarrow> \<exists>w. W w i = Some n"
    "W v i = Some n \<Longrightarrow> W w i = Some n \<Longrightarrow> v = w"
    "i < length (tg_records m) \<Longrightarrow> map_of (tm_watchers (rec_of m i)) w = Some n \<Longrightarrow> n = 1"
    "i < length (tg_records m) \<Longrightarrow> map_of (tm_watchers (rec_of m i)) w = Some n \<Longrightarrow> W w i \<noteq> None"
    "i < length (tg_records m) \<Longrightarrow> map_of (tm_watchers (rec_of m i)) w = Some n \<Longrightarrow> away w \<Longrightarrow> i \<notin> set (tg_open m)"
    "W w i = Some n \<Longrightarrow> \<not> away w \<Longrightarrow> map_of (tm_watchers (rec_of m i)) w \<noteq> None"
  using assms unfolding counts_ok_def by blast+

lemma counts_okI:
  assumes "\<And>w i n. W w i = Some n \<Longrightarrow> i < length (tg_records m) \<and> n < tg_watches m \<and> n \<in> set (tm_listeners (rec_of m i))"
    and "\<And>i n. i < length (tg_records m) \<Longrightarrow> n \<in> set (tm_listeners (rec_of m i)) \<Longrightarrow> \<exists>w. W w i = Some n"
    and "\<And>v w i n. W v i = Some n \<Longrightarrow> W w i = Some n \<Longrightarrow> v = w"
    and "\<And>i w n. i < length (tg_records m) \<Longrightarrow> map_of (tm_watchers (rec_of m i)) w = Some n \<Longrightarrow>
        n = 1 \<and> W w i \<noteq> None \<and> (away w \<longrightarrow> i \<notin> set (tg_open m))"
    and "\<And>w i n. W w i = Some n \<Longrightarrow> \<not> away w \<Longrightarrow> map_of (tm_watchers (rec_of m i)) w \<noteq> None"
  shows "counts_ok m W away"
  using assms unfolding counts_ok_def by blast

lemma counts_same_watch:
  assumes ok: "counts_ok m W away" and same: "same_watch m k"
  shows "counts_ok k W away"
proof (rule counts_okI)
  have old: "tm_watchers (rec_of k i) = tm_watchers (rec_of m i)" "tm_listeners (rec_of k i) = tm_listeners (rec_of m i)"
    if "i < length (tg_records m)" for i
    using same that by (simp_all add: same_watch_def watch_part_def)
  have new: "tm_watchers (rec_of k i) = []" "tm_listeners (rec_of k i) = []"
    if "\<not> i < length (tg_records m)" "i < length (tg_records k)" for i
    using same that by (simp_all add: same_watch_def watch_part_def)
  have len: "length (tg_records m) \<le> length (tg_records k)" "tg_watches k = tg_watches m" using same by (simp_all add: same_watch_def)
  fix v w i n
  show "i < length (tg_records k) \<and> n < tg_watches k \<and> n \<in> set (tm_listeners (rec_of k i))" if "W w i = Some n"
    using counts_okD(1-3) [OF ok that] len old [of i] by simp
  show "\<exists>w. W w i = Some n" if "i < length (tg_records k)" "n \<in> set (tm_listeners (rec_of k i))"
    using that old [of i] new [of i] counts_okD(4) [OF ok, of i n] by (cases "i < length (tg_records m)") simp_all
  show "v = w" if "W v i = Some n" "W w i = Some n" by (rule counts_okD(5) [OF ok that])
  show "n = 1 \<and> W w i \<noteq> None \<and> (away w \<longrightarrow> i \<notin> set (tg_open k))"
    if a: "i < length (tg_records k)" "map_of (tm_watchers (rec_of k i)) w = Some n"
  proof -
    have i: "i < length (tg_records m)" using a new [of i] by (cases "i < length (tg_records m)") simp_all
    have "i \<in> set (tg_open k) \<Longrightarrow> i \<in> set (tg_open m)" using same i by (auto simp: same_watch_def)
    then show ?thesis using a(2) counts_okD(6-8) [OF ok i, of w n] unfolding old(1) [OF i] by blast
  qed
  show "map_of (tm_watchers (rec_of k i)) w \<noteq> None" if "W w i = Some n" "\<not> away w"
    using counts_okD(9) [OF ok that] counts_okD(1) [OF ok that(1)] old [of i] by simp
qed

text \<open>A watch taken.\<close>

lemma watch_simps [simp]:
  "snd (watch_terminal i w m) = tg_watches m" "tg_watches (fst (watch_terminal i w m)) = tg_watches m + 1"
  "tg_open (fst (watch_terminal i w m)) = tg_open m" "tg_scrollback (fst (watch_terminal i w m)) = tg_scrollback m"
  "length (tg_records (fst (watch_terminal i w m))) = length (tg_records m)"
  by (simp_all add: watch_terminal_def Let_def)

lemma rec_watch:
  "rec_of (fst (watch_terminal i w m)) j =
     (if j = i \<and> i < length (tg_records m)
      then (attach_watcher w (rec_of m j))\<lparr>tm_listeners := tm_listeners (rec_of m j) @ [tg_watches m], tm_unwatched := None\<rparr>
      else rec_of m j)"
proof -
  have "rec_of (fst (watch_terminal i w m)) j = rec_of (update_record i (\<lambda>t. (attach_watcher w t)\<lparr>tm_listeners := tm_listeners t @ [tg_watches m], tm_unwatched := None\<rparr>) m) j"
    by (simp add: watch_terminal_def Let_def)
  then show ?thesis by (simp add: rec_update)
qed

lemma attach_simps [simp]:
  "tm_listeners (attach_watcher w t) = tm_listeners t" "tm_printed (attach_watcher w t) = tm_printed t"
  "tm_buffer (attach_watcher w t) = tm_buffer t"
  "map_of (tm_watchers (attach_watcher w t)) =
     (map_of (tm_watchers t))(w \<mapsto> (case map_of (tm_watchers t) w of None \<Rightarrow> 1 | Some n \<Rightarrow> n + 1))"
  by (simp_all add: attach_watcher_def)

lemma counts_watch:
  assumes ok: "counts_ok m W away" and i: "i < length (tg_records m)" and fresh: "W w i = None" and here: "\<not> away w"
  shows "counts_ok (fst (watch_terminal i w m)) (W(w := (W w)(i \<mapsto> tg_watches m))) away"
proof (rule counts_okI)
  let ?m = "fst (watch_terminal i w m)" and ?W = "W(w := (W w)(i \<mapsto> tg_watches m))"
  have none: "map_of (tm_watchers (rec_of m i)) w = None" using counts_okD(7) [OF ok i, of w] fresh by (cases "map_of (tm_watchers (rec_of m i)) w") auto
  have l: "set (tm_listeners (rec_of ?m j)) = set (tm_listeners (rec_of m j)) \<union> (if j = i then {tg_watches m} else {})" for j
    using i by (auto simp: rec_watch)
  have ws: "map_of (tm_watchers (rec_of ?m j)) = (if j = i then (map_of (tm_watchers (rec_of m j)))(w \<mapsto> 1) else map_of (tm_watchers (rec_of m j)))" for j
    using i none by (auto simp: rec_watch)
  fix u v j n
  show "j < length (tg_records ?m) \<and> n < tg_watches ?m \<and> n \<in> set (tm_listeners (rec_of ?m j))" if "?W u j = Some n"
    using that i counts_okD(1-3) [OF ok, of u j n] by (auto simp: l less_SucI split: if_splits)
  show "\<exists>u. ?W u j = Some n" if a: "j < length (tg_records ?m)" "n \<in> set (tm_listeners (rec_of ?m j))"
  proof (cases "j = i \<and> n = tg_watches m")
    case False
    then have "n \<in> set (tm_listeners (rec_of m j))" using a(2) by (auto simp: l split: if_splits)
    then obtain u where u: "W u j = Some n" using counts_okD(4) [OF ok, of j n] a(1) by auto
    then have "?W u j = Some n" using fresh by auto
    then show ?thesis ..
  qed (auto intro: exI [of _ w])
  show "u = v" if "?W u j = Some n" "?W v j = Some n"
    using that counts_okD(5) [OF ok, of u j n v] counts_okD(2) [OF ok, of u j n] counts_okD(2) [OF ok, of v j n]
    by (auto split: if_splits)
  show "n = 1 \<and> ?W u j \<noteq> None \<and> (away u \<longrightarrow> j \<notin> set (tg_open ?m))"
    if "j < length (tg_records ?m)" "map_of (tm_watchers (rec_of ?m j)) u = Some n"
    using that here counts_okD(6-8) [OF ok, of j u n] by (auto simp: ws split: if_splits)
  show "map_of (tm_watchers (rec_of ?m j)) u \<noteq> None" if "?W u j = Some n" "\<not> away u"
    using that counts_okD(9) [OF ok, of u j n] by (auto simp: ws split: if_splits)
qed

text \<open>A watch given back.\<close>

lemma unwatch_simps [simp]:
  "tg_watches (unwatch_terminal i n w now m) = tg_watches m" "tg_open (unwatch_terminal i n w now m) = tg_open m"
  "length (tg_records (unwatch_terminal i n w now m)) = length (tg_records m)"
  "tg_scrollback (unwatch_terminal i n w now m) = tg_scrollback m"
  by (simp_all add: unwatch_terminal_def)

lemma drop_watchers [simp]: "tm_watchers (drop_watcher w now t) = AList.delete w (tm_watchers t)"
  by (simp add: drop_watcher_def Let_def)

lemma detach_simps [simp]:
  "tm_listeners (detach_watcher w now t) = tm_listeners t" "tm_printed (detach_watcher w now t) = tm_printed t"
  "tm_buffer (detach_watcher w now t) = tm_buffer t"
  "tm_listeners (drop_watcher w now t) = tm_listeners t" "tm_printed (drop_watcher w now t) = tm_printed t"
  "tm_buffer (drop_watcher w now t) = tm_buffer t"
  by (simp_all add: detach_watcher_def drop_watcher_def Let_def split: option.split)

lemma detach_one: "(\<And>n. map_of (tm_watchers t) w = Some n \<Longrightarrow> n = 1) \<Longrightarrow>
    map_of (tm_watchers (detach_watcher w now t)) = (map_of (tm_watchers t))(w := None)"
  by (cases "map_of (tm_watchers t) w") (auto simp: detach_watcher_def)

lemma counts_unwatch:
  assumes ok: "counts_ok m W away" and s: "W w i = Some n"
  shows "counts_ok (unwatch_terminal i n w now m) (W(w := (W w)(i := None))) away"
proof (rule counts_okI)
  let ?m = "unwatch_terminal i n w now m" and ?W = "W(w := (W w)(i := None))"
  have i: "i < length (tg_records m)" by (rule counts_okD(1) [OF ok s])
  have l: "set (tm_listeners (rec_of ?m j)) = set (tm_listeners (rec_of m j)) - (if j = i then {n} else {})" for j
    using i by (auto simp: unwatch_terminal_def rec_update)
  have ws: "map_of (tm_watchers (rec_of ?m j)) = (if j = i then (map_of (tm_watchers (rec_of m j)))(w := None) else map_of (tm_watchers (rec_of m j)))" for j
    using i counts_okD(6) [OF ok i, of w] detach_one [of "rec_of m i\<lparr>tm_listeners := removeAll n (tm_listeners (rec_of m i))\<rparr>" w now]
    by (auto simp: unwatch_terminal_def rec_update)
  fix u v j k
  show "j < length (tg_records ?m) \<and> k < tg_watches ?m \<and> k \<in> set (tm_listeners (rec_of ?m j))" if a: "?W u j = Some k"
  proof -
    have b: "W u j = Some k" "\<not> (u = w \<and> j = i)" using a by (auto split: if_splits)
    have "\<not> (j = i \<and> k = n)" using b counts_okD(5) [OF ok _ s, of u] by auto
    then show ?thesis using counts_okD(1-3) [OF ok b(1)] by (auto simp: l)
  qed
  show "\<exists>u. ?W u j = Some k" if a: "j < length (tg_records ?m)" "k \<in> set (tm_listeners (rec_of ?m j))"
  proof -
    have b: "k \<in> set (tm_listeners (rec_of m j))" "\<not> (j = i \<and> k = n)" using a(2) by (auto simp: l split: if_splits)
    obtain u where u: "W u j = Some k" using counts_okD(4) [OF ok _ b(1)] a(1) by auto
    then have "?W u j = Some k" using b(2) s by auto
    then show ?thesis ..
  qed
  show "u = v" if "?W u j = Some k" "?W v j = Some k"
    using that counts_okD(5) [OF ok, of u j k v] by (auto split: if_splits)
  show "k = 1 \<and> ?W u j \<noteq> None \<and> (away u \<longrightarrow> j \<notin> set (tg_open ?m))"
    if "j < length (tg_records ?m)" "map_of (tm_watchers (rec_of ?m j)) u = Some k"
    using that counts_okD(6-8) [OF ok, of j u k] by (auto simp: ws split: if_splits)
  show "map_of (tm_watchers (rec_of ?m j)) u \<noteq> None" if "?W u j = Some k" "\<not> away u"
    using that counts_okD(9) [OF ok, of u j k] by (auto simp: ws split: if_splits)
qed

text \<open>A connection swept off every terminal.\<close>

lemma release_fold:
  "length (tg_records (foldl (\<lambda>m i. update_record i (release_one w now) m) m ks)) = length (tg_records m)
     \<and> tg_open (foldl (\<lambda>m i. update_record i (release_one w now) m) m ks) = tg_open m
     \<and> tg_watches (foldl (\<lambda>m i. update_record i (release_one w now) m) m ks) = tg_watches m
     \<and> tg_scrollback (foldl (\<lambda>m i. update_record i (release_one w now) m) m ks) = tg_scrollback m"
  by (induction ks arbitrary: m) simp_all

lemma release_one_simps [simp]:
  "tm_listeners (release_one w now t) = tm_listeners t" "tm_printed (release_one w now t) = tm_printed t"
  "tm_buffer (release_one w now t) = tm_buffer t"
  "map_of (tm_watchers (release_one w now t)) = (map_of (tm_watchers t))(w := None)"
  by (auto simp: release_one_def fun_eq_iff)

lemma release_fold_rec:
  "(\<forall>i \<in> set ks. i < length (tg_records m)) \<Longrightarrow>
     map_of (tm_watchers (rec_of (foldl (\<lambda>m i. update_record i (release_one w now) m) m ks) j)) =
       (if j \<in> set ks then (map_of (tm_watchers (rec_of m j)))(w := None) else map_of (tm_watchers (rec_of m j)))
     \<and> tm_listeners (rec_of (foldl (\<lambda>m i. update_record i (release_one w now) m) m ks) j) = tm_listeners (rec_of m j)
     \<and> tm_printed (rec_of (foldl (\<lambda>m i. update_record i (release_one w now) m) m ks) j) = tm_printed (rec_of m j)
     \<and> tm_buffer (rec_of (foldl (\<lambda>m i. update_record i (release_one w now) m) m ks) j) = tm_buffer (rec_of m j)"
  by (induction ks arbitrary: m) (auto simp: rec_update fun_eq_iff)

lemma counts_release:
  assumes ok: "counts_ok m W away" and known: "\<forall>i \<in> set (tg_open m). i < length (tg_records m)"
  shows "counts_ok (release_watcher w now m) W (away(w := True))"
proof (rule counts_okI)
  let ?m = "release_watcher w now m"
  have f: "length (tg_records ?m) = length (tg_records m)" "tg_open ?m = tg_open m" "tg_watches ?m = tg_watches m"
    using release_fold [of w now m "tg_open m"] by (simp_all add: release_watcher_def)
  have r: "tm_listeners (rec_of ?m j) = tm_listeners (rec_of m j)"
    "map_of (tm_watchers (rec_of ?m j)) = (if j \<in> set (tg_open m) then (map_of (tm_watchers (rec_of m j)))(w := None) else map_of (tm_watchers (rec_of m j)))" for j
    using release_fold_rec [OF known, of w now j] by (simp_all add: release_watcher_def)
  fix u v j k
  show "j < length (tg_records ?m) \<and> k < tg_watches ?m \<and> k \<in> set (tm_listeners (rec_of ?m j))" if a: "W u j = Some k"
    using counts_okD(1-3) [OF ok a] by (simp add: f r)
  show "\<exists>u. W u j = Some k" if "j < length (tg_records ?m)" "k \<in> set (tm_listeners (rec_of ?m j))"
    using that counts_okD(4) [OF ok, of j k] by (simp add: f r)
  show "u = v" if "W u j = Some k" "W v j = Some k" by (rule counts_okD(5) [OF ok that])
  show "k = 1 \<and> W u j \<noteq> None \<and> ((away(w := True)) u \<longrightarrow> j \<notin> set (tg_open ?m))"
    if "j < length (tg_records ?m)" "map_of (tm_watchers (rec_of ?m j)) u = Some k"
    using that counts_okD(6-8) [OF ok, of j u k] by (auto simp: f r split: if_splits)
  show "map_of (tm_watchers (rec_of ?m j)) u \<noteq> None" if "W u j = Some k" "\<not> (away(w := True)) u"
    using that counts_okD(9) [OF ok, of u j k] by (auto simp: r split: if_splits)
qed

end
