(* ===== verification/Terminal_Delivery.thy ===== *)
theory Terminal_Delivery
  imports Terminal_Watches
begin

text \<open>The invariant of one server's terminals and connections together, kept by every event.\<close>

section \<open>The invariant\<close>

abbreviation full :: "chunk list \<Rightarrow> chunk list" where
  "full cs \<equiv> filter (\<lambda>c. c \<noteq> []) cs"

definition ends_with :: "chunk list \<Rightarrow> nat \<Rightarrow> chunk list \<Rightarrow> bool" where
  "ends_with printed lost history \<longleftrightarrow> (\<exists>gone. full printed = gone @ history \<and> lost = length (concat gone))"

definition buffer_ok :: "nat \<Rightarrow> terminal \<Rightarrow> bool" where
  "buffer_ok max_bytes t \<longleftrightarrow> scrollback_ok max_bytes (tm_buffer t)
     \<and> ends_with (tm_printed t) (sb_dropped (tm_buffer t)) (sb_chunks (tm_buffer t))"

definition missed :: "(chunk \<times> nat \<times> bool) list \<Rightarrow> nat" where
  "missed offered = length (filter (\<lambda>(chunk, said, sent). \<not> sent) offered)"

definition stream_ok :: "chunk list \<Rightarrow> stream \<Rightarrow> bool" where
  "stream_ok printed s \<longleftrightarrow> sm_base s \<le> length printed \<and> ends_with (take (sm_base s) printed) (sm_lost s) (sm_replay s)
     \<and> map fst (sm_offered s) = drop (sm_base s) printed \<and> sm_dropped s = missed (sm_offered s)
     \<and> (\<forall>k < length (sm_offered s). fst (snd (sm_offered s ! k)) = missed (take k (sm_offered s)))"

definition targets_ok :: "connection \<Rightarrow> bool" where
  "targets_ok c \<longleftrightarrow> distinct (keys_of (cn_by_target c))
     \<and> (\<forall>k i. map_of (cn_by_target c) k = Some i \<longleftrightarrow> (\<exists>s. cn_streams c i = Some s \<and> k \<in> set (sm_targets s)))
     \<and> (\<forall>i s. cn_streams c i = Some s \<longrightarrow> sm_targets s \<noteq> [])
     \<and> (cn_state c \<notin> {Established, Closed} \<longrightarrow> cn_by_target c = [])"

definition connection_ok :: "manager \<Rightarrow> connection \<Rightarrow> bool" where
  "connection_ok m c \<longleftrightarrow> targets_ok c \<and> (\<forall>i s. cn_streams c i = Some s \<longrightarrow> stream_ok (tm_printed (rec_of m i)) s)"

definition watch_of :: "(jstr \<Rightarrow> connection option) \<Rightarrow> jstr \<Rightarrow> nat \<Rightarrow> nat option" where
  "watch_of conns w i = (case conns w of None \<Rightarrow> None | Some c \<Rightarrow> map_option sm_watch (cn_streams c i))"

definition away_of :: "(jstr \<Rightarrow> connection option) \<Rightarrow> jstr \<Rightarrow> bool" where
  "away_of conns w \<longleftrightarrow> (case conns w of None \<Rightarrow> False | Some c \<Rightarrow> cn_state c = Closed)"

definition world_ok :: "manager \<Rightarrow> (jstr \<Rightarrow> connection option) \<Rightarrow> bool" where
  "world_ok m conns \<longleftrightarrow> manager_ok m \<and> (\<forall>i < length (tg_records m). buffer_ok (tg_scrollback m) (rec_of m i))
     \<and> counts_ok m (watch_of conns) (away_of conns) \<and> (\<forall>w c. conns w = Some c \<longrightarrow> connection_ok m c)"

lemma world_okD:
  assumes "world_ok m conns"
  shows "manager_ok m" "i < length (tg_records m) \<Longrightarrow> buffer_ok (tg_scrollback m) (rec_of m i)"
    "counts_ok m (watch_of conns) (away_of conns)" "conns w = Some c \<Longrightarrow> connection_ok m c"
  using assms by (auto simp: world_ok_def)

lemma watch_of_upd [simp]:
  "watch_of (conns(w \<mapsto> c)) = (watch_of conns)(w := (\<lambda>i. map_option sm_watch (cn_streams c i)))"
  "away_of (conns(w \<mapsto> c)) = (away_of conns)(w := (cn_state c = Closed))"
  by (auto simp: watch_of_def away_of_def fun_eq_iff)

lemma watch_of_Some: "conns w = Some c \<Longrightarrow> watch_of conns w = (\<lambda>i. map_option sm_watch (cn_streams c i))"
  "conns w = Some c \<Longrightarrow> away_of conns w = (cn_state c = Closed)"
  by (auto simp: watch_of_def away_of_def fun_eq_iff)

lemma targets_okD:
  assumes "targets_ok c"
  shows "distinct (keys_of (cn_by_target c))"
    "map_of (cn_by_target c) k = Some i \<longleftrightarrow> (\<exists>s. cn_streams c i = Some s \<and> k \<in> set (sm_targets s))"
    "cn_streams c i = Some s \<Longrightarrow> sm_targets s \<noteq> []"
  using assms unfolding targets_ok_def by blast+

lemma targets_okI:
  assumes "distinct (keys_of (cn_by_target c))"
    and "\<And>k i. map_of (cn_by_target c) k = Some i \<longleftrightarrow> (\<exists>s. cn_streams c i = Some s \<and> k \<in> set (sm_targets s))"
    and "\<And>i s. cn_streams c i = Some s \<Longrightarrow> sm_targets s \<noteq> []" and "cn_state c \<in> {Established, Closed} \<or> cn_by_target c = []"
  shows "targets_ok c"
  using assms unfolding targets_ok_def by blast

lemma no_targets: "targets_ok c \<Longrightarrow> cn_by_target c = [] \<longleftrightarrow> cn_streams c = Map.empty"
proof
  assume t: "targets_ok c"
  show "cn_streams c = Map.empty" if "cn_by_target c = []"
  proof
    fix i
    show "cn_streams c i = None"
    proof (cases "cn_streams c i")
      case (Some s)
      obtain k where "k \<in> set (sm_targets s)" using targets_okD(3) [OF t Some] by (cases "sm_targets s") auto
      then show ?thesis using targets_okD(2) [OF t, of k i] Some that by auto
    qed
  qed
  show "cn_by_target c = []" if e: "cn_streams c = Map.empty"
  proof (cases "cn_by_target c")
    case (Cons p rest)
    then have "map_of (cn_by_target c) (fst p) = Some (snd p)" by (cases p) simp
    then show ?thesis using targets_okD(2) [OF t] e by simp
  qed
qed

section \<open>Steps that leave what was watched alone\<close>

lemma world_same:
  assumes ok: "world_ok m conns" and same: "same_watch m k" and k: "manager_ok k"
  shows "world_ok k conns"
proof -
  have part: "watch_part (rec_of k i) = watch_part (rec_of m i)" if "i < length (tg_records m)" for i
    using same that by (simp add: same_watch_def)
  have "buffer_ok (tg_scrollback k) (rec_of k i)" if i: "i < length (tg_records k)" for i
  proof (cases "i < length (tg_records m)")
    case True
    then show ?thesis using world_okD(2) [OF ok True] part [OF True] same by (simp add: same_watch_def watch_part_def buffer_ok_def)
  next
    case False
    then have "watch_part (rec_of k i) = ([], [], [], create_scrollback)" using same i by (simp add: same_watch_def)
    then show ?thesis by (simp add: watch_part_def buffer_ok_def scrollback_ok_def create_scrollback_def ends_with_def)
  qed
  moreover have "connection_ok k c" if c: "conns w = Some c" for w c
  proof -
    have "stream_ok (tm_printed (rec_of k i)) s" if s: "cn_streams c i = Some s" for i s
    proof -
      have "watch_of conns w i = Some (sm_watch s)" using c s by (simp add: watch_of_def)
      then have "i < length (tg_records m)" by (rule counts_okD(1) [OF world_okD(3) [OF ok]])
      then show ?thesis using part [of i] world_okD(4) [OF ok c] s by (simp add: connection_ok_def watch_part_def)
    qed
    then show ?thesis using world_okD(4) [OF ok c] by (simp add: connection_ok_def)
  qed
  ultimately show ?thesis
    using k counts_same_watch [OF world_okD(3) [OF ok] same] by (simp add: world_ok_def)
qed

definition same_print :: "manager \<Rightarrow> manager \<Rightarrow> bool" where
  "same_print m k \<longleftrightarrow> tg_scrollback k = tg_scrollback m \<and> length (tg_records k) = length (tg_records m)
     \<and> (\<forall>i. tm_printed (rec_of k i) = tm_printed (rec_of m i) \<and> tm_buffer (rec_of k i) = tm_buffer (rec_of m i))"

lemma same_print_ops [simp]:
  "same_print m m" "same_print m (unwatch_terminal i n w now m)" "same_print m (fst (watch_terminal i w m))"
  by (simp_all add: same_print_def rec_watch unwatch_terminal_def rec_update)

lemma same_print_release: "\<forall>i \<in> set (tg_open m). i < length (tg_records m) \<Longrightarrow> same_print m (release_watcher w now m)"
  using release_fold [of w now m "tg_open m"] release_fold_rec [of "tg_open m" m w now]
  by (simp add: same_print_def release_watcher_def)

text \<open>One connection changed, with at most its watches.\<close>

lemma world_connection:
  assumes ok: "world_ok m conns" and same: "same_print m k" and k: "manager_ok k"
    and counts: "counts_ok k (watch_of (conns(w \<mapsto> c))) (away_of (conns(w \<mapsto> c)))" and c: "connection_ok m c"
  shows "world_ok k (conns(w \<mapsto> c))"
proof -
  have "connection_ok k d = connection_ok m d" for d using same by (simp add: connection_ok_def same_print_def)
  moreover have "buffer_ok (tg_scrollback k) (rec_of k i) = buffer_ok (tg_scrollback m) (rec_of m i)" for i
    using same by (simp add: buffer_ok_def same_print_def)
  ultimately show ?thesis
    using ok k counts c same by (simp add: world_ok_def same_print_def)
qed

section \<open>A watch given back\<close>

lemma targets_drop:
  assumes t: "targets_ok c" and key: "map_of (cn_by_target c) key = Some i" and s: "cn_streams c i = Some s"
    and left: "removeAll key (sm_targets s) \<noteq> []"
  shows "targets_ok (c\<lparr>cn_by_target := AList.delete key (cn_by_target c),
           cn_streams := (cn_streams c)(i \<mapsto> s\<lparr>sm_targets := removeAll key (sm_targets s)\<rparr>)\<rparr>)"
    (is "targets_ok ?c")
proof -
  have a: "map_of (cn_by_target ?c) k = Some j \<longleftrightarrow> (\<exists>r. cn_streams ?c j = Some r \<and> k \<in> set (sm_targets r))" for k j
  proof (cases "k = key")
    case True
    have "\<not> (\<exists>r. cn_streams c j = Some r \<and> key \<in> set (sm_targets r))" if "j \<noteq> i"
      using targets_okD(2) [OF t, of key j] key that by simp
    then show ?thesis using True by auto
  next
    case False
    then show ?thesis using targets_okD(2) [OF t, of k j] s by auto
  qed
  have b: "cn_state ?c \<in> {Established, Closed} \<or> cn_by_target ?c = []" using t key by (auto simp: targets_ok_def)
  have d: "distinct (keys_of (cn_by_target ?c))" using distinct_delete [OF targets_okD(1) [OF t], of key] by simp
  have e: "sm_targets r \<noteq> []" if "cn_streams ?c j = Some r" for j r
    using that left targets_okD(3) [OF t, of j r] by (cases "j = i") auto
  show ?thesis by (rule targets_okI [OF d a e b])
qed

lemma targets_leave:
  assumes t: "targets_ok c" and key: "map_of (cn_by_target c) key = Some i" and s: "cn_streams c i = Some s"
    and left: "removeAll key (sm_targets s) = []"
  shows "targets_ok (c\<lparr>cn_by_target := AList.delete key (cn_by_target c), cn_streams := (cn_streams c)(i := None)\<rparr>)"
    (is "targets_ok ?c")
proof -
  have "set (sm_targets s) - {key} = {}" using left by (metis set_removeAll list.set(1))
  moreover have "key \<in> set (sm_targets s)" using targets_okD(2) [OF t, of key i] key s by simp
  ultimately have only: "k \<in> set (sm_targets s) \<longleftrightarrow> k = key" for k by blast
  have a: "map_of (cn_by_target ?c) k = Some j \<longleftrightarrow> (\<exists>r. cn_streams ?c j = Some r \<and> k \<in> set (sm_targets r))" for k j
  proof (cases "k = key")
    case True
    have "\<not> (\<exists>r. cn_streams c j = Some r \<and> key \<in> set (sm_targets r))" if "j \<noteq> i"
      using targets_okD(2) [OF t, of key j] key that by simp
    then show ?thesis using True by auto
  next
    case False
    then show ?thesis using targets_okD(2) [OF t, of k j] s only by auto
  qed
  have b: "cn_state ?c \<in> {Established, Closed} \<or> cn_by_target ?c = []" using t key by (auto simp: targets_ok_def)
  have d: "distinct (keys_of (cn_by_target ?c))" using distinct_delete [OF targets_okD(1) [OF t], of key] by simp
  have e: "sm_targets r \<noteq> []" if "cn_streams ?c j = Some r" for j r
    using that targets_okD(3) [OF t, of j r] by (cases "j = i") auto
  show ?thesis by (rule targets_okI [OF d a e b])
qed

lemma give_back_ok:
  assumes ok: "world_ok m conns" and c: "conns w = Some c"
  shows "world_ok (fst (give_back w now key (m, c))) (conns(w \<mapsto> snd (give_back w now key (m, c))))"
proof (cases "map_of (cn_by_target c) key")
  case None
  then show ?thesis using ok c by (simp add: give_back_def map_upd_triv)
next
  case (Some i)
  have co: "connection_ok m c" by (rule world_okD(4) [OF ok c])
  then have t: "targets_ok c" by (simp add: connection_ok_def)
  then obtain s where s: "cn_streams c i = Some s" using targets_okD(2) [OF t, of key i] Some by blast
  have w: "watch_of conns w i = Some (sm_watch s)" using c s by (simp add: watch_of_def)
  show ?thesis
  proof (cases "removeAll key (sm_targets s) = []")
    case True
    let ?c = "c\<lparr>cn_by_target := AList.delete key (cn_by_target c), cn_streams := (cn_streams c)(i := None)\<rparr>"
    have g: "give_back w now key (m, c) = (unwatch_terminal i (sm_watch s) w now m, ?c)"
      using True s Some by (simp add: give_back_def)
    have "(watch_of conns)(w := (watch_of conns w)(i := None)) = watch_of (conns(w \<mapsto> ?c))"
      by (auto simp: fun_eq_iff watch_of_Some(1) [of conns w c, OF c])
    moreover have "away_of (conns(w \<mapsto> ?c)) = away_of conns" by (simp add: fun_upd_idem watch_of_Some(2) [of conns w c, OF c])
    moreover have "connection_ok m ?c" using co targets_leave [OF t Some s True] by (simp add: connection_ok_def)
    ultimately show ?thesis
      unfolding g using counts_unwatch [OF world_okD(3) [OF ok] w, of now]
      by (auto intro!: world_connection [OF ok] unwatch_ok world_okD(1) [OF ok])
  next
    case False
    let ?c = "c\<lparr>cn_by_target := AList.delete key (cn_by_target c),
           cn_streams := (cn_streams c)(i \<mapsto> s\<lparr>sm_targets := removeAll key (sm_targets s)\<rparr>)\<rparr>"
    have g: "give_back w now key (m, c) = (m, ?c)" using False s Some by (simp add: give_back_def)
    have "watch_of (conns(w \<mapsto> ?c)) = watch_of conns"
      using s by (auto simp: fun_eq_iff watch_of_Some(1) [of conns w c, OF c])
    moreover have "away_of (conns(w \<mapsto> ?c)) = away_of conns" by (simp add: fun_upd_idem watch_of_Some(2) [of conns w c, OF c])
    moreover have "connection_ok m ?c"
      using co s targets_drop [OF t Some s False] by (auto simp: connection_ok_def stream_ok_def)
    ultimately show ?thesis
      unfolding g using world_okD(1,3) [OF ok] by (auto intro!: world_connection [OF ok])
  qed
qed

text \<open>Giving back changes only what is watched.\<close>

lemma give_back_same:
  "cn_state (snd (give_back w now key (m, c))) = cn_state c" "cn_grant (snd (give_back w now key (m, c))) = cn_grant c"
  "cn_by_target (snd (give_back w now key (m, c))) = AList.delete key (cn_by_target c)"
  "tg_open (fst (give_back w now key (m, c))) = tg_open m"
  by (auto simp: give_back_def delete_idem map_of_eq_None_iff Let_def split: option.split)

lemma give_all_ok:
  assumes "world_ok m conns" and "conns w = Some c" and "foldl (\<lambda>mc key. give_back w now key mc) (m, c) ks = (k, d)"
  shows "world_ok k (conns(w \<mapsto> d)) \<and> cn_state d = cn_state c \<and> tg_open k = tg_open m
     \<and> cn_by_target d = filter (\<lambda>(key, i). key \<notin> set ks) (cn_by_target c)"
  using assms
proof (induction ks arbitrary: m conns c)
  case Nil
  then show ?case by (auto simp: map_upd_triv)
next
  case (Cons key ks)
  obtain m1 c1 where g: "give_back w now key (m, c) = (m1, c1)" by (cases "give_back w now key (m, c)")
  have one: "world_ok m1 (conns(w \<mapsto> c1))" using give_back_ok [OF Cons.prems(1,2), of now key] g by simp
  have two: "(conns(w \<mapsto> c1)) w = Some c1" by simp
  have rest: "foldl (\<lambda>mc key. give_back w now key mc) (m1, c1) ks = (k, d)" using Cons.prems(3) g by simp
  have c1: "cn_state c1 = cn_state c" "cn_by_target c1 = AList.delete key (cn_by_target c)" "tg_open m1 = tg_open m"
    using give_back_same [of w now key m c] g by simp_all
  show ?case
    using Cons.IH [OF one two rest] unfolding fun_upd_upd c1
    by (simp add: AList.delete_eq case_prod_unfold conj_commute eq_commute)
qed

lemma detach_all_ok:
  assumes ok: "world_ok m conns" and c: "conns w = Some c" and d: "detach_all w now (m, c) = (k, d)"
  shows "world_ok k (conns(w \<mapsto> d))" "cn_state d = cn_state c" "tg_open k = tg_open m" "cn_streams d = Map.empty"
proof -
  have a: "world_ok k (conns(w \<mapsto> d)) \<and> cn_state d = cn_state c \<and> tg_open k = tg_open m
     \<and> cn_by_target d = filter (\<lambda>(key, i). key \<notin> set (keys_of (cn_by_target c))) (cn_by_target c)"
    by (rule give_all_ok [OF ok c]) (use d in \<open>simp add: detach_all_def\<close>)
  moreover have "filter (\<lambda>(key, i). key \<notin> set (keys_of (cn_by_target c))) (cn_by_target c) = []"
    by (auto simp: filter_empty_conv image_iff)
  ultimately show "world_ok k (conns(w \<mapsto> d))" "cn_state d = cn_state c" "tg_open k = tg_open m" "cn_streams d = Map.empty"
    using no_targets [of d] world_okD(4) [of k "conns(w \<mapsto> d)" w d] by (auto simp: connection_ok_def)
qed

section \<open>Subscribing\<close>

lemma resolve_open: "resolve m c target = Some i \<Longrightarrow> i \<in> set (tg_open m)"
proof (cases target)
  case (By_Session store session)
  assume r: "resolve m c target = Some i"
  let ?held = "filter (\<lambda>i. tm_store (rec_of m i) = store \<and> tm_session (rec_of m i) = Some session) (tg_open m)"
  have "i \<in> set ?held"
  proof (cases "find (live m) ?held")
    case None
    then show ?thesis using r By_Session by (cases ?held) (auto simp: resolve_def)
  next
    case (Some j)
    then have "j = i" using r By_Session by (simp add: resolve_def)
    then show ?thesis using find_Some_in(1) [OF Some] by blast
  qed
  then show ?thesis by simp
qed (auto simp: resolve_def split: option.splits if_splits)

lemma targets_join:
  assumes t: "targets_ok c" and key: "map_of (cn_by_target c) key = None \<or> map_of (cn_by_target c) key = Some i"
    and s: "\<And>k. k \<in> set (sm_targets s) \<longleftrightarrow> k = key \<or> (\<exists>r. cn_streams c i = Some r \<and> k \<in> set (sm_targets r))"
    and st: "cn_state c \<in> {Established, Closed}"
  shows "targets_ok (c\<lparr>cn_streams := (cn_streams c)(i \<mapsto> s), cn_by_target := AList.update key i (cn_by_target c)\<rparr>)"
    (is "targets_ok ?c")
proof (rule targets_okI)
  show "distinct (keys_of (cn_by_target ?c))" using distinct_update [OF targets_okD(1) [OF t]] by simp
  show "map_of (cn_by_target ?c) k = Some j \<longleftrightarrow> (\<exists>r. cn_streams ?c j = Some r \<and> k \<in> set (sm_targets r))" for k j
  proof (cases "j = i")
    case True
    then show ?thesis using targets_okD(2) [OF t, of k i] s by auto
  next
    case False
    then show ?thesis using targets_okD(2) [OF t, of k j] key by auto
  qed
  show "sm_targets r \<noteq> []" if "cn_streams ?c j = Some r" for j r
  proof (cases "j = i")
    case True
    then have "key \<in> set (sm_targets r)" using that s by simp
    then show ?thesis by auto
  next
    case False
    then show ?thesis using that targets_okD(3) [OF t, of j r] by simp
  qed
  show "cn_state ?c \<in> {Established, Closed} \<or> cn_by_target ?c = []" using st by simp
qed

lemma attach_ok:
  assumes ok: "world_ok m conns" and c: "conns w = Some c" and est: "cn_state c = Established" and i: "i < length (tg_records m)"
    and key: "map_of (cn_by_target c) key = None \<or> map_of (cn_by_target c) key = Some i"
    and a: "attach_target w key i (m, c) = ((k, d), attached)"
  shows "world_ok k (conns(w \<mapsto> d))"
proof -
  have co: "connection_ok m c" by (rule world_okD(4) [OF ok c])
  then have t: "targets_ok c" by (simp add: connection_ok_def)
  have away: "away_of (conns(w \<mapsto> e)) = away_of conns" if "cn_state e = cn_state c" for e
    using that by (simp add: fun_upd_idem watch_of_Some(2) [of conns w c, OF c])
  show ?thesis
  proof (cases "cn_streams c i")
    case (Some s)
    let ?s = "s\<lparr>sm_targets := set_add key (sm_targets s)\<rparr>"
    let ?c = "c\<lparr>cn_streams := (cn_streams c)(i \<mapsto> ?s), cn_by_target := AList.update key i (cn_by_target c)\<rparr>"
    have kd: "k = m" "d = ?c" using a Some by (simp_all add: attach_target_def Let_def)
    have "targets_ok ?c" by (rule targets_join [OF t key]) (use est Some in auto)
    then have "connection_ok m ?c" using co Some by (auto simp: connection_ok_def stream_ok_def)
    moreover have "watch_of (conns(w \<mapsto> ?c)) = watch_of conns"
      using Some by (auto simp: fun_eq_iff watch_of_Some(1) [of conns w c, OF c])
    ultimately show ?thesis
      unfolding kd using world_okD(1,3) [OF ok] away [of ?c] by (intro world_connection [OF ok]) simp_all
  next
    case None
    let ?s = "\<lparr>sm_targets = [key], sm_dropped = 0, sm_watch = tg_watches m, sm_base = length (tm_printed (rec_of m i)),
       sm_replay = sb_chunks (tm_buffer (rec_of m i)), sm_lost = sb_dropped (tm_buffer (rec_of m i)), sm_offered = []\<rparr>"
    let ?c = "c\<lparr>cn_streams := (cn_streams c)(i \<mapsto> ?s), cn_by_target := AList.update key i (cn_by_target c)\<rparr>"
    have kd: "k = fst (watch_terminal i w m)" "d = ?c"
      using a None by (auto simp: attach_target_def Let_def watch_terminal_def)
    have "targets_ok ?c" by (rule targets_join [OF t key]) (use est None in auto)
    moreover have "stream_ok (tm_printed (rec_of m i)) ?s"
      using world_okD(2) [OF ok i] by (simp add: stream_ok_def buffer_ok_def missed_def)
    ultimately have cok: "connection_ok m ?c" using co by (simp add: connection_ok_def)
    have w: "watch_of conns w i = None" using c None by (simp add: watch_of_def)
    have "(watch_of conns)(w := (watch_of conns w)(i \<mapsto> tg_watches m)) = watch_of (conns(w \<mapsto> ?c))"
      by (auto simp: fun_eq_iff watch_of_Some(1) [of conns w c, OF c])
    then have "counts_ok (fst (watch_terminal i w m)) (watch_of (conns(w \<mapsto> ?c))) (away_of (conns(w \<mapsto> ?c)))"
      using counts_watch [OF world_okD(3) [OF ok] i w] est watch_of_Some(2) [of conns w c, OF c] away [of ?c] by simp
    then show ?thesis
      unfolding kd by (intro world_connection [OF ok] watch_ok world_okD(1) [OF ok] cok) simp_all
  qed
qed

lemma subscribe_ok:
  assumes ok: "world_ok m conns" and c: "conns w = Some c" and est: "cn_state c = Established"
    and s: "subscribe w now target (m, c) = ((k, d), attached)"
  shows "world_ok k (conns(w \<mapsto> d))"
proof (cases "resolve m c target")
  case None
  then show ?thesis using s ok c by (auto simp: subscribe_def map_upd_triv)
next
  case (Some i)
  have i: "i < length (tg_records m)" by (rule open_known [OF world_okD(1) [OF ok] resolve_open [OF Some]])
  define moved where "moved = (case map_of (cn_by_target c) target of None \<Rightarrow> False | Some j \<Rightarrow> j \<noteq> i)"
  obtain m1 c1 where g: "(if moved then give_back w now target (m, c) else (m, c)) = (m1, c1)"
    by (cases "if moved then give_back w now target (m, c) else (m, c)") simp
  have one: "world_ok m1 (conns(w \<mapsto> c1)) \<and> cn_state c1 = cn_state c
      \<and> (map_of (cn_by_target c1) target = None \<or> map_of (cn_by_target c1) target = Some i)
      \<and> length (tg_records m1) = length (tg_records m)"
  proof (cases moved)
    case True
    then have gb: "give_back w now target (m, c) = (m1, c1)" using g by simp
    have "world_ok m1 (conns(w \<mapsto> c1))" using give_back_ok [OF ok c, of now target] gb by simp
    moreover have "length (tg_records (fst (give_back w now target (m, c)))) = length (tg_records m)"
      by (auto simp: give_back_def Let_def split: option.split)
    ultimately show ?thesis using give_back_same [of w now target m c] gb by simp
  next
    case False
    then show ?thesis using g ok c by (auto simp: map_upd_triv moved_def split: option.splits)
  qed
  obtain att where a: "attach_target w target i (m1, c1) = ((k, d), att)"
    using s Some g by (auto simp: subscribe_def moved_def Let_def split: prod.splits)
  have two: "(conns(w \<mapsto> c1)) w = Some c1" by simp
  have st: "cn_state c1 = Established" and len: "i < length (tg_records m1)"
    and key: "map_of (cn_by_target c1) target = None \<or> map_of (cn_by_target c1) target = Some i"
    using one est i by simp_all
  have "world_ok k (conns(w \<mapsto> c1, w \<mapsto> d))"
    using attach_ok [of m1 "conns(w \<mapsto> c1)" w c1, OF _ two st len key a] one by simp
  then show ?thesis by simp
qed

lemma unsubscribe_ok:
  assumes ok: "world_ok m conns" and c: "conns w = Some c" and u: "fst (unsubscribe w now target (m, c)) = (k, d)"
  shows "world_ok k (conns(w \<mapsto> d))"
  using give_back_ok [OF ok c, of now target] ok c u
  by (cases "map_of (cn_by_target c) target") (auto simp: unsubscribe_def map_upd_triv)

section \<open>Output\<close>

lemma missed_snoc [simp]: "missed (offered @ [(chunk, said, sent)]) = missed offered + (if sent then 0 else 1)"
  by (simp add: missed_def)

lemma offer_same [simp]:
  "cn_state (offer_chunk m i chunk behind c) = cn_state c" "cn_by_target (offer_chunk m i chunk behind c) = cn_by_target c"
  by (simp_all add: offer_chunk_def send_output_def split: option.split)

text \<open>What a stream becomes when it is offered a chunk.\<close>

definition offered_stream :: "chunk \<Rightarrow> bool \<Rightarrow> stream \<Rightarrow> stream" where
  "offered_stream chunk sent s =
     s\<lparr>sm_dropped := (if sent then sm_dropped s else sm_dropped s + 1), sm_offered := sm_offered s @ [(chunk, sm_dropped s, sent)]\<rparr>"

lemma offer_streams:
  "cn_streams (offer_chunk m i chunk behind c) j =
     (case cn_streams c j of
        None \<Rightarrow> None
      | Some s \<Rightarrow> if j = i \<and> sm_watch s \<in> set (tm_listeners (rec_of m i))
          then Some (offered_stream chunk (cn_state c = Established \<and> \<not> behind) s) else Some s)"
  by (auto simp: offer_chunk_def send_output_def offered_stream_def split: option.split)

lemma targets_offer: "targets_ok c \<Longrightarrow> targets_ok (offer_chunk m i chunk behind c)"
proof (rule targets_okI)
  assume t: "targets_ok c"
  let ?c = "offer_chunk m i chunk behind c"
  have s: "(\<exists>s. cn_streams ?c j = Some s \<and> P (sm_targets s)) \<longleftrightarrow> (\<exists>s. cn_streams c j = Some s \<and> P (sm_targets s))" for j P
    by (cases "cn_streams c j") (auto simp: offer_streams offered_stream_def)
  show "distinct (keys_of (cn_by_target ?c))" using targets_okD(1) [OF t] by simp
  show "map_of (cn_by_target ?c) k = Some j \<longleftrightarrow> (\<exists>s. cn_streams ?c j = Some s \<and> k \<in> set (sm_targets s))" for k j
    using targets_okD(2) [OF t, of k j] s [of j "\<lambda>ks. k \<in> set ks"] by simp
  show "sm_targets r \<noteq> []" if "cn_streams ?c j = Some r" for j r
    using that targets_okD(3) [OF t, of j] by (auto simp: offer_streams offered_stream_def split: option.splits if_splits)
  show "cn_state ?c \<in> {Established, Closed} \<or> cn_by_target ?c = []" using t by (auto simp: targets_ok_def)
qed

lemma stream_offered:
  assumes s: "stream_ok printed s"
  shows "stream_ok (printed @ [chunk]) (offered_stream chunk sent s)"
  unfolding stream_ok_def
proof (intro conjI allI impI)
  show "fst (snd (sm_offered (offered_stream chunk sent s) ! k)) = missed (take k (sm_offered (offered_stream chunk sent s)))"
    if "k < length (sm_offered (offered_stream chunk sent s))" for k
    using that s by (cases "k = length (sm_offered s)") (simp_all add: offered_stream_def stream_ok_def nth_append)
qed (use s in \<open>simp_all add: offered_stream_def stream_ok_def\<close>)

lemma rec_prints:
  assumes "i < length (tg_records m)"
  shows "tm_printed (rec_of (pty_prints i chunk m) j) = (if j = i then tm_printed (rec_of m j) @ [chunk] else tm_printed (rec_of m j))"
    "tm_buffer (rec_of (pty_prints i chunk m) j) =
       (if j = i then append_chunk (tg_scrollback m) (tm_buffer (rec_of m j)) chunk else tm_buffer (rec_of m j))"
    "tm_listeners (rec_of (pty_prints i chunk m) j) = tm_listeners (rec_of m j)"
    "tm_watchers (rec_of (pty_prints i chunk m) j) = tm_watchers (rec_of m j)"
    "length (tg_records (pty_prints i chunk m)) = length (tg_records m)" "tg_open (pty_prints i chunk m) = tg_open m"
    "tg_watches (pty_prints i chunk m) = tg_watches m" "tg_scrollback (pty_prints i chunk m) = tg_scrollback m"
  using assms by (simp_all add: pty_prints_def rec_update)

lemma buffer_append:
  assumes "buffer_ok max_bytes t"
  shows "buffer_ok max_bytes (t\<lparr>tm_buffer := append_chunk max_bytes (tm_buffer t) chunk, tm_printed := tm_printed t @ [chunk]\<rparr>)"
proof -
  have sb: "scrollback_ok max_bytes (tm_buffer t)" using assms by (simp add: buffer_ok_def)
  obtain gone where g: "full (tm_printed t) = gone @ sb_chunks (tm_buffer t)" "sb_dropped (tm_buffer t) = length (concat gone)"
    using assms by (auto simp: buffer_ok_def ends_with_def)
  obtain more_gone where h: "sb_chunks (tm_buffer t) @ (if chunk = [] then [] else [chunk])
        = more_gone @ sb_chunks (append_chunk max_bytes (tm_buffer t) chunk)"
      "sb_dropped (append_chunk max_bytes (tm_buffer t) chunk) = sb_dropped (tm_buffer t) + length (concat more_gone)"
    using append_spec(2) [OF sb] by blast
  have "full (tm_printed t @ [chunk]) = gone @ sb_chunks (tm_buffer t) @ (if chunk = [] then [] else [chunk])" using g(1) by simp
  also have "\<dots> = (gone @ more_gone) @ sb_chunks (append_chunk max_bytes (tm_buffer t) chunk)" unfolding h(1) by simp
  finally have "ends_with (tm_printed t @ [chunk]) (sb_dropped (append_chunk max_bytes (tm_buffer t) chunk))
      (sb_chunks (append_chunk max_bytes (tm_buffer t) chunk))"
    unfolding ends_with_def using g(2) h(2) by (intro exI [of _ "gone @ more_gone"]) simp
  then show ?thesis using append_spec(1) [OF sb] by (simp add: buffer_ok_def)
qed

lemma prints_ok:
  assumes ok: "world_ok m conns" and i: "i < length (tg_records m)"
  shows "world_ok (pty_prints i chunk m)
           (\<lambda>w. map_option (offer_chunk (pty_prints i chunk m) i chunk (w \<in> set behind)) (conns w))"
    (is "world_ok ?m ?conns")
proof -
  have l: "sm_watch s \<in> set (tm_listeners (rec_of ?m i))" if "conns w = Some c" "cn_streams c i = Some s" for w c s
    using counts_okD(3) [OF world_okD(3) [OF ok], of w i "sm_watch s"] that by (simp add: watch_of_def rec_prints [OF i])
  have W: "watch_of ?conns = watch_of conns" "away_of ?conns = away_of conns"
    by (auto simp: watch_of_def away_of_def offer_streams offered_stream_def fun_eq_iff split: option.split)
  have "counts_ok ?m (watch_of conns) (away_of conns)"
    using world_okD(3) [OF ok] by (simp add: counts_ok_def rec_prints [OF i])
  moreover have "buffer_ok (tg_scrollback ?m) (rec_of ?m j)" if j: "j < length (tg_records ?m)" for j
    using world_okD(2) [OF ok, of j] buffer_append [of "tg_scrollback m" "rec_of m i" chunk] j
    by (cases "j = i") (auto simp: buffer_ok_def rec_prints [OF i])
  moreover have "connection_ok ?m c" if c: "?conns w = Some c" for w c
  proof -
    obtain d where d: "conns w = Some d" "c = offer_chunk ?m i chunk (w \<in> set behind) d" using c by auto
    have dok: "connection_ok m d" by (rule world_okD(4) [OF ok d(1)])
    have "stream_ok (tm_printed (rec_of ?m j)) s" if s: "cn_streams c j = Some s" for j s
    proof -
      obtain r where r: "cn_streams d j = Some r" using s by (auto simp: d(2) offer_streams split: option.splits)
      have "s = (if j = i then offered_stream chunk (cn_state d = Established \<and> w \<notin> set behind) r else r)"
        using s r l [OF d(1), of r] by (auto simp: d(2) offer_streams)
      moreover have "stream_ok (tm_printed (rec_of m j)) r" using dok r by (simp add: connection_ok_def)
      ultimately show ?thesis by (cases "j = i") (simp_all add: rec_prints [OF i] stream_offered)
    qed
    then show ?thesis using dok targets_offer by (simp add: connection_ok_def d(2))
  qed
  ultimately show ?thesis
    using small_updates_ok(5) [OF world_okD(1) [OF ok]] by (simp add: world_ok_def W)
qed

section \<open>Every event\<close>

definition server_ok :: "terminal_server \<Rightarrow> bool" where
  "server_ok sv \<longleftrightarrow> world_ok (sv_manager sv) (sv_connections sv)
     \<and> (\<forall>w. sv_connections sv w \<noteq> None \<longrightarrow> w \<in> set (sv_past sv))"

lemma create_server_ok: "server_ok (create_server cap scrollback)"
proof -
  have "counts_ok (create_manager cap scrollback) (watch_of Map.empty) (away_of Map.empty)"
    by (rule counts_okI) (simp_all add: create_manager_def watch_of_def)
  then show ?thesis
    using create_manager_ok [of cap scrollback]
    by (simp add: server_ok_def world_ok_def create_server_def) (simp add: create_manager_def)
qed

lemma on_manager_ok:
  assumes "server_ok sv" and "same_watch (sv_manager sv) (f (sv_manager sv))" and "manager_ok (f (sv_manager sv))"
  shows "server_ok (on_manager f sv)"
  using assms world_same by (auto simp: server_ok_def on_manager_def)

lemma on_connection_ok:
  assumes ok: "server_ok sv"
    and f: "\<And>c k d. sv_connections sv w = Some c \<Longrightarrow> cn_state c = Established \<Longrightarrow> f (sv_manager sv, c) = (k, d) \<Longrightarrow>
      world_ok k ((sv_connections sv)(w \<mapsto> d))"
  shows "server_ok (on_connection w f sv)"
proof (cases "sv_connections sv w")
  case (Some c)
  then have "w \<in> set (sv_past sv)" using ok by (simp add: server_ok_def)
  then show ?thesis
    using Some ok f [OF Some] by (cases "f (sv_manager sv, c)") (auto simp: on_connection_def server_ok_def)
qed (use ok in \<open>simp add: on_connection_def\<close>)

text \<open>A connection that changed neither its streams nor its state.\<close>

lemma world_quiet:
  assumes ok: "world_ok m conns" and c: "conns w = Some c"
    and same: "cn_streams d = cn_streams c" "cn_by_target d = cn_by_target c" "cn_state d = cn_state c"
  shows "world_ok m (conns(w \<mapsto> d))"
proof -
  have "watch_of (conns(w \<mapsto> d)) = watch_of conns" "away_of (conns(w \<mapsto> d)) = away_of conns"
    using c same by (auto simp: fun_eq_iff watch_of_def away_of_def)
  moreover have "connection_ok m d" using world_okD(4) [OF ok c] same by (simp add: connection_ok_def targets_ok_def)
  ultimately show ?thesis using world_okD(1,3) [OF ok] by (intro world_connection [OF ok]) simp_all
qed

lemma write_target_ok:
  assumes "manager_ok m"
  shows "manager_ok (fst (write_target now target data (m, c)))" "same_watch m (fst (write_target now target data (m, c)))"
  using assms
  by (auto simp: write_target_def intro!: small_updates_ok write_ok same_watch_trans [OF same_watch_runs(2) same_watch_small(2)]
      split: option.split)

lemma resize_target_ok:
  assumes "manager_ok m"
  shows "manager_ok (fst (resize_target target cols rows (m, c)))" "same_watch m (fst (resize_target target cols rows (m, c)))"
  using assms by (auto simp: resize_target_def intro!: resize_ok same_watch_runs split: option.split)

lemma start_tags_same: "cn_streams (take_start_tags m store c) = cn_streams c"
  "cn_by_target (take_start_tags m store c) = cn_by_target c" "cn_state (take_start_tags m store c) = cn_state c"
  by (simp_all add: take_start_tags_def split: prod.split)

text \<open>A connection that moved on in its handshake.\<close>

lemma world_handshake:
  assumes ok: "world_ok m conns" and c: "conns w = Some c" and early: "cn_state c \<notin> {Established, Closed}" and st: "st \<noteq> Closed"
  shows "world_ok m (conns(w \<mapsto> c\<lparr>cn_state := st, cn_grant := g\<rparr>))" (is "world_ok m (conns(w \<mapsto> ?c))")
proof -
  have "watch_of (conns(w \<mapsto> ?c)) = watch_of conns" "away_of (conns(w \<mapsto> ?c)) = away_of conns"
    using c early st by (auto simp: fun_eq_iff watch_of_def away_of_def)
  moreover have "targets_ok c" using world_okD(4) [OF ok c] by (simp add: connection_ok_def)
  then have "targets_ok ?c" using early unfolding targets_ok_def by auto
  then have "connection_ok m ?c" using world_okD(4) [OF ok c] by (simp add: connection_ok_def)
  ultimately show ?thesis using world_okD(1,3) [OF ok] by (intro world_connection [OF ok]) simp_all
qed

lemma handshakes_ok:
  assumes ok: "server_ok sv"
  shows "server_ok (handshakes w g sv)" "server_ok (asks_handshake w sv)"
proof -
  have world: "world_ok (sv_manager sv) (sv_connections sv)" using ok by (simp add: server_ok_def)
  show "server_ok (handshakes w g sv)"
    using ok world_handshake [OF world, of w _ Established "Some g"] by (auto simp: server_ok_def handshakes_def split: option.split)
  have "world_ok (sv_manager sv) ((sv_connections sv)(w \<mapsto> c\<lparr>cn_state := Authorizing\<rparr>))"
    if "sv_connections sv w = Some c" "cn_state c = Awaiting_Handshake" for c
    using world_handshake [OF world that(1), of Authorizing "cn_grant c"] that(2) by simp
  then show "server_ok (asks_handshake w sv)"
    using ok by (auto simp: server_ok_def asks_handshake_def split: option.split)
qed

lemma connects_ok: "server_ok sv \<Longrightarrow> server_ok (connects w sv)"
proof (cases "w \<in> set (sv_past sv)")
  case False
  assume ok: "server_ok sv"
  then have none: "sv_connections sv w = None" using False by (auto simp: server_ok_def)
  have world: "world_ok (sv_manager sv) (sv_connections sv)" using ok by (simp add: server_ok_def)
  have "watch_of ((sv_connections sv)(w \<mapsto> create_connection)) = watch_of (sv_connections sv)"
    "away_of ((sv_connections sv)(w \<mapsto> create_connection)) = away_of (sv_connections sv)"
    using none by (auto simp: fun_eq_iff watch_of_def away_of_def create_connection_def)
  moreover have "connection_ok (sv_manager sv) create_connection"
    by (simp add: connection_ok_def targets_ok_def create_connection_def)
  ultimately have "world_ok (sv_manager sv) ((sv_connections sv)(w \<mapsto> create_connection))"
    using world_okD(1,3) [OF world] by (intro world_connection [OF world]) simp_all
  then show ?thesis using ok False by (auto simp: server_ok_def connects_def)
qed (simp add: connects_def)

text \<open>Leaving: swept off every terminal if it was in the audience, and away from then on.\<close>

lemma leave_ok:
  assumes ok: "world_ok m conns" and c: "conns w = Some c"
  shows "world_ok (leave_audience w now c m) (conns(w \<mapsto> c\<lparr>cn_state := Closed\<rparr>))"
    (is "world_ok ?m (conns(w \<mapsto> ?c))")
proof -
  have known: "\<forall>i \<in> set (tg_open m). i < length (tg_records m)" using open_known [OF world_okD(1) [OF ok]] by blast
  have W: "watch_of (conns(w \<mapsto> ?c)) = watch_of conns" using c by (auto simp: fun_eq_iff watch_of_def)
  have away: "away_of (conns(w \<mapsto> ?c)) = (away_of conns)(w := True)" by simp
  have cok: "connection_ok m ?c" using world_okD(4) [OF ok c] by (simp add: connection_ok_def targets_ok_def)
  show ?thesis
  proof (cases "cn_state c = Established")
    case True
    then have m: "?m = release_watcher w now m" by (simp add: leave_audience_def)
    show ?thesis
      using counts_release [OF world_okD(3) [OF ok] known, of w now] release_ok [OF world_okD(1) [OF ok]] same_print_release [OF known]
      by (intro world_connection [OF ok _ _ _ cok]) (simp_all add: m W away del: watch_of_upd)
  next
    case False
    then have m: "?m = m" by (simp add: leave_audience_def)
    have "counts_ok m (watch_of conns) ((away_of conns)(w := True))"
    proof (cases "cn_state c = Closed")
      case True
      then show ?thesis using world_okD(3) [OF ok] watch_of_Some(2) [of conns w c, OF c] by (simp add: fun_upd_idem)
    next
      case False
      then have "cn_state c \<notin> {Established, Closed}" using \<open>cn_state c \<noteq> Established\<close> by simp
      moreover have "targets_ok c" using world_okD(4) [OF ok c] by (simp add: connection_ok_def)
      ultimately have "cn_streams c = Map.empty" using no_targets [of c] unfolding targets_ok_def by blast
      then have none: "watch_of conns w = Map.empty" using watch_of_Some(1) [of conns w c, OF c] by simp
      note old = counts_okD [OF world_okD(3) [OF ok]]
      show ?thesis
      proof (rule counts_okI)
        fix u v j n
        show "n = 1 \<and> watch_of conns u j \<noteq> None \<and> (((away_of conns)(w := True)) u \<longrightarrow> j \<notin> set (tg_open m))"
          if a: "j < length (tg_records m)" "map_of (tm_watchers (rec_of m j)) u = Some n"
        proof -
          have "u \<noteq> w" using old(7) [OF a] none by auto
          then show ?thesis using old(6-8) [OF a] by simp
        qed
        show "map_of (tm_watchers (rec_of m j)) u \<noteq> None"
          if "watch_of conns u j = Some n" "\<not> ((away_of conns)(w := True)) u"
          using that old(9) [of u j n] by (simp split: if_splits)
        show "j < length (tg_records m) \<and> n < tg_watches m \<and> n \<in> set (tm_listeners (rec_of m j))"
          if "watch_of conns u j = Some n" using old(1-3) [OF that] by simp
        show "\<exists>u. watch_of conns u j = Some n" if "j < length (tg_records m)" "n \<in> set (tm_listeners (rec_of m j))"
          by (rule old(4) [OF that])
        show "u = v" if "watch_of conns u j = Some n" "watch_of conns v j = Some n" by (rule old(5) [OF that])
      qed
    qed
    then show ?thesis
      using world_okD(1) [OF ok] by (intro world_connection [OF ok _ _ _ cok]) (simp_all add: m W away del: watch_of_upd)
  qed
qed

lemma refuses_ok: "server_ok sv \<Longrightarrow> server_ok (refuses w now sv)"
  by (auto simp: refuses_def server_ok_def leave_ok split: option.split)

lemma disconnects_ok: "server_ok sv \<Longrightarrow> server_ok (disconnects w now sv)"
proof (cases "sv_connections sv w")
  case (Some c)
  assume ok: "server_ok sv"
  then have world: "world_ok (sv_manager sv) (sv_connections sv)" by (simp add: server_ok_def)
  obtain k d where d: "detach_all w now (sv_manager sv, c) = (k, d)" by (cases "detach_all w now (sv_manager sv, c)")
  note one = detach_all_ok [OF world Some d]
  have "leave_audience w now c k = leave_audience w now d k" by (simp add: leave_audience_def one(2))
  then have "world_ok (leave_audience w now c k) ((sv_connections sv)(w \<mapsto> d\<lparr>cn_state := Closed\<rparr>))"
    using leave_ok [OF one(1), of w d now] by simp
  then show ?thesis using ok Some d by (auto simp: disconnects_def server_ok_def)
qed (simp add: disconnects_def)

end
