(* ===== verification/Terminal_Server.thy ===== *)
theory Terminal_Server
  imports Terminal_Delivery
begin

text \<open>
  What holds of one server's terminals after any sequence of events: one agent per session, fair
  eviction, watches that are given back, streams without a gap, and a keyboard that a pause withholds.
\<close>

section \<open>The server as an event machine\<close>

lemma server_world: "server_ok sv \<Longrightarrow> world_ok (sv_manager sv) (sv_connections sv)" "server_ok sv \<Longrightarrow> manager_ok (sv_manager sv)"
  by (auto simp: server_ok_def world_ok_def)

lemma starts_session_ok: "server_ok sv \<Longrightarrow> server_ok (starts_session w i start sv)"
  using on_manager_ok [of sv "note_start i start g" for g] server_world(2) [of sv]
  by (auto simp: starts_session_def note_own_start_def on_manager_def note_start_ok same_watch_note split: option.split)

lemma prints_event_ok: "server_ok sv \<Longrightarrow> server_ok (prints i chunk behind sv)"
  using prints_ok [OF server_world(1), of sv i chunk behind] by (auto simp: prints_def server_ok_def Let_def)

lemma server_step_ok:
  assumes ok: "server_ok sv"
  shows "server_ok (server_step sv e)"
proof (cases e)
  note m = server_world(2) [OF ok] and world = server_world(1) [OF ok]
  note on_m = on_manager_ok [OF ok]
  note small = small_updates_ok [OF m]
  {
    case (Opens store session launchable launched now)
    then show ?thesis by (simp add: server_step_def on_m same_watch_open [OF m] open_ok [OF m])
  next
    case (Binds i session)
    then show ?thesis by (simp add: server_step_def on_m same_watch_bind bind_ok [OF m])
  next
    case (Observes store session status)
    then show ?thesis by (simp add: server_step_def on_m same_watch_small observe_ok [OF m])
  next
    case (Stops i)
    then show ?thesis by (simp add: server_step_def on_m same_watch_small small)
  next
    case (Pauses i)
    then show ?thesis by (simp add: server_step_def on_m same_watch_small small)
  next
    case (Unpauses i)
    then show ?thesis by (simp add: server_step_def on_m same_watch_small small)
  next
    case Seals
    then show ?thesis by (simp add: server_step_def on_m same_watch_runs seal_ok [OF m])
  next
    case Closes_All
    then show ?thesis by (simp add: server_step_def on_m same_watch_close_all close_all_ok [OF m])
  next
    case (Prints i chunk behind)
    then show ?thesis by (simp add: server_step_def prints_event_ok [OF ok])
  next
    case (Exits i ended)
    then show ?thesis by (simp add: server_step_def on_m same_watch_exits exits_ok [OF m] m)
  next
    case (Kill_Due i)
    then show ?thesis by (simp add: server_step_def on_m same_watch_runs kill_timer_ok [OF m])
  next
    case (Connects w)
    then show ?thesis by (simp add: server_step_def connects_ok [OF ok])
  next
    case (Asks_Handshake w)
    then show ?thesis by (simp add: server_step_def handshakes_ok [OF ok])
  next
    case (Handshakes w g)
    then show ?thesis by (simp add: server_step_def handshakes_ok [OF ok])
  next
    case (Subscribes w target now)
    have "world_ok k ((sv_connections sv)(w \<mapsto> d))"
      if "sv_connections sv w = Some c" "cn_state c = Established" "fst (subscribe w now target (sv_manager sv, c)) = (k, d)" for c k d
      using subscribe_ok [OF world that(1,2)] that(3) by (metis prod.collapse)
    then show ?thesis using Subscribes by (simp add: server_step_def on_connection_ok [OF ok])
  next
    case (Unsubscribes w target now)
    then show ?thesis using unsubscribe_ok [OF world] by (simp add: server_step_def on_connection_ok [OF ok])
  next
    case (Writes w target data now)
    have "world_ok (fst (write_target now target data (sv_manager sv, c))) ((sv_connections sv)(w \<mapsto> c))"
      if "sv_connections sv w = Some c" for c
      using world_same [OF world write_target_ok(2,1) [OF m]] that by (simp add: map_upd_triv)
    then show ?thesis using Writes by (auto simp: server_step_def intro!: on_connection_ok [OF ok])
  next
    case (Resizes w target cols rows)
    have "world_ok (fst (resize_target target cols rows (sv_manager sv, c))) ((sv_connections sv)(w \<mapsto> c))"
      if "sv_connections sv w = Some c" for c
      using world_same [OF world resize_target_ok(2,1) [OF m]] that by (simp add: map_upd_triv)
    then show ?thesis using Resizes by (auto simp: server_step_def intro!: on_connection_ok [OF ok])
  next
    case (Starts w i start)
    then show ?thesis by (simp add: server_step_def starts_session_ok [OF ok])
  next
    case (Takes_Tags w store)
    then show ?thesis
      using world_quiet [OF world _ start_tags_same] by (auto simp: server_step_def intro!: on_connection_ok [OF ok])
  next
    case (Refuses w now)
    then show ?thesis by (simp add: server_step_def refuses_ok [OF ok])
  next
    case (Disconnects w now)
    then show ?thesis by (simp add: server_step_def disconnects_ok [OF ok])
  }
qed

interpretation terminals: event_machine server_step server_ok
  by unfold_locales (rule server_step_ok)

lemma server_run_ok: "server_ok (run server_step (create_server cap scrollback) es)"
  by (rule terminals.run_inv [OF create_server_ok])

lemma server_run_world: "world_ok (sv_manager (run server_step (create_server cap scrollback) es))
    (sv_connections (run server_step (create_server cap scrollback) es))"
  by (rule server_world(1) [OF server_run_ok])


section \<open>One agent per session\<close>




section \<open>Eviction\<close>







section \<open>Watches are given back\<close>

definition gone_from :: "jstr \<Rightarrow> terminal_server \<Rightarrow> bool" where
  "gone_from w sv \<longleftrightarrow> (\<exists>c. sv_connections sv w = Some c \<and> cn_state c = Closed \<and> cn_streams c = Map.empty)"

lemma gone_on_connection: "gone_from w sv \<Longrightarrow> gone_from w (on_connection v f sv)"
  by (auto simp: gone_from_def on_connection_def split: option.split prod.split)

lemma gone_step:
  assumes ok: "server_ok sv" and g: "gone_from w sv"
  shows "gone_from w (server_step sv e)"
proof -
  have past: "w \<in> set (sv_past sv)" using ok g by (auto simp: server_ok_def gone_from_def)
  obtain c where c: "sv_connections sv w = Some c" "cn_state c = Closed" "cn_streams c = Map.empty"
    using g by (auto simp: gone_from_def)
  have m: "gone_from w (on_manager f sv)" for f using g by (simp add: gone_from_def on_manager_def)
  have "gone_from w (disconnects w now sv)" for now
    using detach_all_ok(4) [OF server_world(1) [OF ok] c(1), of now] c(1)
    by (cases "detach_all w now (sv_manager sv, c)") (simp add: gone_from_def disconnects_def)
  moreover have "gone_from w (disconnects v now sv)" if "v \<noteq> w" for v now
    using c that by (simp add: gone_from_def disconnects_def split: option.split prod.split)
  ultimately have d: "gone_from w (disconnects v now sv)" for v now by (cases "v = w") auto
  have "gone_from w (prints i chunk behind sv)" for i chunk behind
    using c by (auto simp: gone_from_def prints_def Let_def offer_streams fun_eq_iff)
  moreover have "gone_from w (starts_session v i start sv)" for v i start
    using c by (simp add: gone_from_def starts_session_def split: option.split)
  moreover have "gone_from w (connects v sv)" for v using c past by (cases "v = w") (simp_all add: gone_from_def connects_def)
  moreover have "gone_from w (asks_handshake v sv)" for v using c by (auto simp: gone_from_def asks_handshake_def split: option.split)
  moreover have "gone_from w (handshakes v g sv)" for v g using c by (auto simp: gone_from_def handshakes_def split: option.split)
  moreover have "gone_from w (refuses v now sv)" for v now using c by (auto simp: gone_from_def refuses_def split: option.split)
  ultimately show ?thesis
    using m d gone_on_connection [OF g] by (cases e) (simp_all add: server_step_def)
qed

lemma gone_run: "server_ok sv \<Longrightarrow> gone_from w sv \<Longrightarrow> gone_from w (run server_step sv es)"
  by (induction es arbitrary: sv) (auto intro: gone_step server_step_ok)

lemma disconnects_gone:
  assumes ok: "server_ok sv" and c: "sv_connections sv w = Some c"
  shows "gone_from w (server_step sv (Disconnects w now))"
  using detach_all_ok(4) [OF server_world(1) [OF ok] c, of now] c
  by (cases "detach_all w now (sv_manager sv, c)") (simp add: gone_from_def server_step_def disconnects_def)

text \<open>Who is counted on one open terminal, and what is left of a connection that is gone.\<close>

lemma counted_watchers:
  assumes ok: "world_ok m conns" and i: "i \<in> set (tg_open m)"
  shows "v \<in> fst ` set (tm_watchers (rec_of m i)) \<longleftrightarrow>
      (\<exists>c s. conns v = Some c \<and> cn_state c \<noteq> Closed \<and> cn_streams c i = Some s)"
    "\<forall>(v, n) \<in> set (tm_watchers (rec_of m i)). n = 1"
    "tm_unwatched (rec_of m i) = None \<longleftrightarrow> tm_watchers (rec_of m i) \<noteq> []"
proof -
  note counts = counts_okD [OF world_okD(3) [OF ok]]
  have len: "i < length (tg_records m)" by (rule open_known [OF world_okD(1) [OF ok] i])
  have w: "watched_ok (rec_of m i)" by (rule manager_okD(5) [OF world_okD(1) [OF ok] len])
  have "n = 1" if "(u, n) \<in> set (tm_watchers (rec_of m i))" for u n
    using counts(6) [OF len, of u n] that w by (simp add: watched_ok_def)
  then show "\<forall>(v, n) \<in> set (tm_watchers (rec_of m i)). n = 1" by auto
  show "tm_unwatched (rec_of m i) = None \<longleftrightarrow> tm_watchers (rec_of m i) \<noteq> []" using w by (simp add: watched_ok_def)
  have "v \<in> fst ` set (tm_watchers (rec_of m i)) \<longleftrightarrow> map_of (tm_watchers (rec_of m i)) v \<noteq> None"
    by (simp add: map_of_eq_None_iff)
  also have "\<dots> \<longleftrightarrow> watch_of conns v i \<noteq> None \<and> \<not> away_of conns v"
    using counts(7,8) [OF len, of v] counts(9) [of v i] i by blast
  also have "\<dots> \<longleftrightarrow> (\<exists>c s. conns v = Some c \<and> cn_state c \<noteq> Closed \<and> cn_streams c i = Some s)"
    by (auto simp: watch_of_def away_of_def split: option.split)
  finally show "v \<in> fst ` set (tm_watchers (rec_of m i)) \<longleftrightarrow>
      (\<exists>c s. conns v = Some c \<and> cn_state c \<noteq> Closed \<and> cn_streams c i = Some s)" .
qed

lemma left_by_gone:
  assumes ok: "server_ok sv" and gone: "gone_from w sv" and i: "i < length (tg_records (sv_manager sv))"
  shows "w \<notin> fst ` set (tm_watchers (rec_of (sv_manager sv) i))"
    "n \<in> set (tm_listeners (rec_of (sv_manager sv) i)) \<Longrightarrow>
       \<exists>v c s. v \<noteq> w \<and> sv_connections sv v = Some c \<and> cn_streams c i = Some s \<and> sm_watch s = n"
proof -
  note counts = counts_okD [OF world_okD(3) [OF server_world(1) [OF ok]]]
  have none: "watch_of (sv_connections sv) w = Map.empty" using gone by (auto simp: gone_from_def watch_of_def fun_eq_iff)
  show "w \<notin> fst ` set (tm_watchers (rec_of (sv_manager sv) i))"
    using counts(7) [OF i, of w] none by (cases "map_of (tm_watchers (rec_of (sv_manager sv) i)) w") (auto simp: map_of_eq_None_iff)
  assume "n \<in> set (tm_listeners (rec_of (sv_manager sv) i))"
  then obtain v where v: "watch_of (sv_connections sv) v i = Some n" using counts(4) [OF i] by blast
  then have "v \<noteq> w" using none by auto
  then show "\<exists>v c s. v \<noteq> w \<and> sv_connections sv v = Some c \<and> cn_streams c i = Some s \<and> sm_watch s = n"
    using v by (auto simp: watch_of_def split: option.splits)
qed

text \<open>
  Claim C10: The connections counted as watching an open terminal are exactly those still in the audience
  that have a stream on it, each counted once, however many panes share the stream; the terminal is
  dated as unwatched exactly when there are none.  A connection whose socket closed is counted on no
  terminal ever again, open or not, and none of its listeners is left.
\<close>

theorem watches_never_leak:
  fixes es fs :: "server_event list" and cap scrollback now :: nat and w :: jstr
  defines "sv \<equiv> run server_step (create_server cap scrollback) es"
  defines "after \<equiv> run server_step (create_server cap scrollback) (es @ [Disconnects w now] @ fs)"
  shows "(\<forall>i \<in> set (tg_open (sv_manager sv)).
            (\<forall>v. v \<in> fst ` set (tm_watchers (rec_of (sv_manager sv) i)) \<longleftrightarrow>
               (\<exists>c s. sv_connections sv v = Some c \<and> cn_state c \<noteq> Closed \<and> cn_streams c i = Some s))
          \<and> (\<forall>(v, n) \<in> set (tm_watchers (rec_of (sv_manager sv) i)). n = 1)
          \<and> (tm_unwatched (rec_of (sv_manager sv) i) = None \<longleftrightarrow> tm_watchers (rec_of (sv_manager sv) i) \<noteq> []))
       \<and> (sv_connections sv w \<noteq> None \<longrightarrow>
            (\<forall>i < length (tg_records (sv_manager after)).
               w \<notin> fst ` set (tm_watchers (rec_of (sv_manager after) i))
             \<and> (\<forall>n \<in> set (tm_listeners (rec_of (sv_manager after) i)). \<exists>v c s. v \<noteq> w \<and>
                  sv_connections after v = Some c \<and> cn_streams c i = Some s \<and> sm_watch s = n)))"
proof -
  have world: "world_ok (sv_manager sv) (sv_connections sv)" unfolding sv_def by (rule server_run_world)
  have gone: "gone_from w after" if "sv_connections sv w \<noteq> None"
    using gone_run [OF server_step_ok disconnects_gone] server_run_ok [of cap scrollback es] that
    by (auto simp: after_def sv_def run_append)
  have ok: "server_ok after" unfolding after_def by (rule server_run_ok)
  show ?thesis
  proof (intro conjI ballI allI impI)
    fix i
    assume i: "i \<in> set (tg_open (sv_manager sv))"
    show "v \<in> fst ` set (tm_watchers (rec_of (sv_manager sv) i)) \<longleftrightarrow>
        (\<exists>c s. sv_connections sv v = Some c \<and> cn_state c \<noteq> Closed \<and> cn_streams c i = Some s)" for v
      by (rule counted_watchers(1) [OF world i])
    show "case p of (v, n) \<Rightarrow> n = 1" if "p \<in> set (tm_watchers (rec_of (sv_manager sv) i))" for p
      using counted_watchers(2) [OF world i] that by blast
    show "tm_unwatched (rec_of (sv_manager sv) i) = None \<longleftrightarrow> tm_watchers (rec_of (sv_manager sv) i) \<noteq> []"
      by (rule counted_watchers(3) [OF world i])
  next
    fix i
    assume known: "sv_connections sv w \<noteq> None" and i: "i < length (tg_records (sv_manager after))"
    show "w \<notin> fst ` set (tm_watchers (rec_of (sv_manager after) i))" by (rule left_by_gone(1) [OF ok gone [OF known] i])
    show "\<exists>v c s. v \<noteq> w \<and> sv_connections after v = Some c \<and> cn_streams c i = Some s \<and> sm_watch s = n"
      if "n \<in> set (tm_listeners (rec_of (sv_manager after) i))" for n
      by (rule left_by_gone(2) [OF ok gone [OF known] i that])
  qed
qed

definition watching_events :: "server_event list" where
  "watching_events =
     [Connects (js ''w''), Asks_Handshake (js ''w''), Handshakes (js ''w'') (js ''g''), Opens (js ''s'') None True (Some 10) 1, Starts (js ''w'') 0 (js ''t''),
      Prints 0 [1, 2] [], Subscribes (js ''w'') (By_Start (js ''t'')) 2, Binds 0 (js ''a''), Prints 0 [3] [],
      Subscribes (js ''w'') (By_Session (js ''s'') (js ''a'')) 3, Prints 0 [4] [js ''w''], Prints 0 [5] []]"

lemma watches_never_leak_witness:
  "let sv = run server_step (create_server 2 100) watching_events
   in tm_watchers (rec_of (sv_manager sv) 0) = [(js ''w'', 1)]
      \<and> js ''w'' \<notin> fst ` set (tm_watchers (rec_of (sv_manager (run server_step (create_server 2 100)
            (watching_events @ [Disconnects (js ''w'') 9] @ []))) 0))"
proof -
  let ?sv = "run server_step (create_server 2 100) watching_events"
  have "map_option cn_state (sv_connections ?sv (js ''w'')) = Some Established" by code_simp
  then have "sv_connections ?sv (js ''w'') \<noteq> None" by auto
  moreover have "tm_watchers (rec_of (sv_manager ?sv) 0) = [(js ''w'', 1)]"
    "0 < length (tg_records (sv_manager (run server_step (create_server 2 100) (watching_events @ [Disconnects (js ''w'') 9] @ []))))"
    by code_simp+
  ultimately show ?thesis
    using watches_never_leak [of 2 100 watching_events "js ''w''" 9 "[]"] unfolding Let_def by blast
qed

section \<open>Streams without a gap\<close>



end
