(* ===== verification/Terminal_Keyboard.thy ===== *)
theory Terminal_Keyboard
  imports Terminal_Server
begin

text \<open>
  What a pause withholds: the keyboard, and only between turns.  Every operation of the manager either
  leaves pauses and what was typed alone or is one of the four that are about them.
\<close>

definition pause_ok :: "terminal \<Rightarrow> bool" where
  "pause_ok t \<longleftrightarrow> (tm_pause t = Paused \<longrightarrow> tm_status t \<noteq> Working)
     \<and> (tm_pause t = Pause_Requested \<longrightarrow> \<not> at_boundary (tm_status t))"

definition pauses_ok :: "manager \<Rightarrow> bool" where
  "pauses_ok m \<longleftrightarrow> (\<forall>t \<in> set (tg_records m). pause_ok t)"

definition keeps_pauses :: "manager \<Rightarrow> manager \<Rightarrow> bool" where
  "keeps_pauses m k \<longleftrightarrow> tg_written k = tg_written m \<and> (pauses_ok m \<longrightarrow> pauses_ok k)"

named_theorems keeps

lemma keeps_refl [keeps]: "keeps_pauses m m"
  by (simp add: keeps_pauses_def)

lemma keeps_trans: "keeps_pauses m k \<Longrightarrow> keeps_pauses k l \<Longrightarrow> keeps_pauses m l"
  by (simp add: keeps_pauses_def)

lemma keeps_update:
  assumes "\<And>t. pause_ok t \<Longrightarrow> pause_ok (f t)"
  shows "keeps_pauses m (update_record i f m)"
proof -
  have "pauses_ok (update_record i f m)" if p: "pauses_ok m"
    unfolding pauses_ok_def
  proof
    fix t
    assume "t \<in> set (tg_records (update_record i f m))"
    then obtain j where j: "j < length (tg_records m)" "t = rec_of (update_record i f m) j"
      by (metis in_set_conv_nth update_simps(11))
    then have "pause_ok (rec_of m j)" using p by (simp add: pauses_ok_def)
    then show "pause_ok t" using j assms by (cases "j = i") (simp_all add: rec_update)
  qed
  then show ?thesis by (simp add: keeps_pauses_def)
qed

lemma keeps_same: "tg_records k = tg_records m \<Longrightarrow> tg_written k = tg_written m \<Longrightarrow> keeps_pauses m k"
  by (simp add: keeps_pauses_def pauses_ok_def)

lemma keeps_then: "keeps_pauses m k \<Longrightarrow> tg_records l = tg_records k \<Longrightarrow> tg_written l = tg_written k \<Longrightarrow> keeps_pauses m l"
  by (simp add: keeps_pauses_def pauses_ok_def)

lemma keeps_kill [keeps]: "keeps_pauses m (kill_run i s m)" "keeps_pauses m (kill_timer_fires i m)"
  "keeps_pauses m (seal m)" "keeps_pauses m (resize_run i cols rows m)" "keeps_pauses m (note_start i start g m)"
  by (rule keeps_same; simp add: kill_run_def kill_timer_fires_def seal_def resize_run_def note_start_def)+

lemma keeps_terminate [keeps]: "keeps_pauses m (terminate i m)"
  by (auto simp: terminate_def Let_def pause_ok_def kill_run_def intro!: keeps keeps_update
      keeps_then [OF keeps_update [of "\<lambda>t. t\<lparr>tm_terminating := True\<rparr>"]])

lemma keeps_close [keeps]: "keeps_pauses m (close_terminal i m)"
  by (rule keeps_then [OF keeps_terminate [of m i]]) (simp_all add: close_terminal_def Let_def)

lemma keeps_room [keeps]: "manager_ok m \<Longrightarrow> keeps_pauses m (fst (make_room m))"
  by (induction rule: make_room_induct) (auto intro: keeps keeps_trans)

lemma keeps_open [keeps]:
  assumes ok: "manager_ok m"
  shows "keeps_pauses m (fst (open_terminal store session launchable launched now m))"
proof -
  obtain m1 free where r: "make_room m = (m1, free)" by (cases "make_room m")
  have one: "keeps_pauses m m1" using keeps_room [OF ok] r by simp
  have "keeps_pauses m (m1\<lparr>tg_records := tg_records m1 @ [track store s pid now], tg_open := tg_open m1 @ [length (tg_records m1)]\<rparr>)" for s pid
    using one by (simp add: keeps_pauses_def pauses_ok_def pause_ok_def track_def)
  then show ?thesis using one by (simp add: open_terminal_def r Let_def keeps_refl split: option.split)
qed

lemma keeps_session [keeps]:
  "keeps_pauses m (fst (bind_session i session m))" "keeps_pauses m (observe_status store session status m)"
  "keeps_pauses m (note_input i now m)" "keeps_pauses m (fst (stop_terminal i m))"
  "keeps_pauses m (fst (pause_terminal i m))" "keeps_pauses m (fst (unpause_terminal i m))" "keeps_pauses m (pty_prints i chunk m)"
  by (auto simp: bind_session_def observe_status_def note_input_def stop_terminal_def pause_terminal_def unpause_terminal_def
      pty_prints_def pause_ok_def at_boundary_def intro!: keeps keeps_update split: option.split)

lemma keeps_exits [keeps]: "keeps_pauses m (pty_exits i ended m)"
  unfolding pty_exits_def by (rule keeps_then [OF keeps_update]) (simp_all add: pause_ok_def)

lemma keeps_close_all [keeps]: "keeps_pauses m (close_all m)"
proof -
  have "keeps_pauses m (foldl (\<lambda>m i. close_terminal i m) m ks)" for m ks
    by (induction ks arbitrary: m) (auto intro: keeps keeps_trans)
  then show ?thesis by (simp add: close_all_def)
qed

lemma pause_watch [simp]:
  "pause_ok (attach_watcher w t) = pause_ok t" "pause_ok (detach_watcher w now t) = pause_ok t"
  "pause_ok (release_one w now t) = pause_ok t"
  by (auto simp: pause_ok_def attach_watcher_def detach_watcher_def drop_watcher_def release_one_def Let_def split: option.split)

lemma keeps_watch [keeps]: "keeps_pauses m (fst (watch_terminal i w m))" "keeps_pauses m (unwatch_terminal i n w now m)"
proof -
  show "keeps_pauses m (fst (watch_terminal i w m))"
    by (rule keeps_then [OF keeps_update [of "\<lambda>t. (attach_watcher w t)\<lparr>tm_listeners := tm_listeners t @ [tg_watches m], tm_unwatched := None\<rparr>" m i]])
      (simp_all add: watch_terminal_def Let_def, simp add: pause_ok_def attach_watcher_def)
  show "keeps_pauses m (unwatch_terminal i n w now m)"
    unfolding unwatch_terminal_def by (rule keeps_update) (simp, simp add: pause_ok_def)
qed

lemma keeps_release [keeps]: "keeps_pauses m (release_watcher w now m)"
proof -
  have one: "keeps_pauses m (update_record i (release_one w now) m)" for m i by (rule keeps_update) simp
  have "keeps_pauses m (foldl (\<lambda>m i. update_record i (release_one w now) m) m ks)" for m ks
    by (induction ks arbitrary: m) (auto intro: keeps_refl keeps_trans [OF one])
  then show ?thesis by (simp add: release_watcher_def)
qed

lemma keeps_give_back [keeps]: "keeps_pauses m (fst (give_back w now key (m, c)))"
  by (auto simp: give_back_def Let_def intro: keeps split: option.split)

lemma keeps_detach_all [keeps]: "keeps_pauses m (fst (detach_all w now (m, c)))"
proof -
  have "keeps_pauses m (fst (foldl (\<lambda>mc key. give_back w now key mc) (m, c) ks))" for ks
  proof (induction ks arbitrary: m c)
    case (Cons key ks)
    obtain k d where g: "give_back w now key (m, c) = (k, d)" by (cases "give_back w now key (m, c)")
    then have "keeps_pauses m k" using keeps_give_back [of m w now key c] by simp
    then show ?case using Cons.IH [of k d] keeps_trans by (simp add: g)
  qed (simp add: keeps)
  then show ?thesis by (simp add: detach_all_def)
qed

lemma keeps_attach [keeps]: "keeps_pauses m (fst (fst (attach_target w key i (m, c))))"
  using keeps_watch(1) [of m i w]
  by (cases "watch_terminal i w m") (auto simp: attach_target_def Let_def intro: keeps split: option.split)

lemma keeps_subscribe [keeps]: "keeps_pauses m (fst (fst (subscribe w now target (m, c))))"
proof (cases "resolve m c target")
  case (Some i)
  define moved where "moved = (case map_of (cn_by_target c) target of None \<Rightarrow> False | Some j \<Rightarrow> j \<noteq> i)"
  obtain k d where g: "(if moved then give_back w now target (m, c) else (m, c)) = (k, d)"
    by (cases "if moved then give_back w now target (m, c) else (m, c)") simp
  have "keeps_pauses m k" using keeps_give_back [of m w now target c] g by (cases moved) (simp_all add: keeps_refl)
  then have "keeps_pauses m (fst (fst (attach_target w target i (k, d))))" by (rule keeps_trans) (rule keeps)
  moreover have "fst (subscribe w now target (m, c)) = fst (attach_target w target i (k, d))"
    unfolding g [symmetric] using Some by (simp add: subscribe_def moved_def Let_def case_prod_unfold)
  ultimately show ?thesis by simp
qed (simp add: subscribe_def keeps)

lemma keeps_unsubscribe [keeps]: "keeps_pauses m (fst (fst (unsubscribe w now target (m, c))))"
  by (simp add: unsubscribe_def keeps)

lemma keeps_resize [keeps]: "keeps_pauses m (fst (resize_target target cols rows (m, c)))"
  by (auto simp: resize_target_def intro: keeps split: option.split)

lemma keeps_leave [keeps]: "keeps_pauses m (leave_audience w now c m)"
  by (simp add: leave_audience_def keeps)

lemma keeps_on_connection:
  "(\<And>m c. keeps_pauses m (fst (f (m, c)))) \<Longrightarrow> keeps_pauses (sv_manager sv) (sv_manager (on_connection w f sv))"
proof -
  assume f: "\<And>m c. keeps_pauses m (fst (f (m, c)))"
  have "keeps_pauses (sv_manager sv) k" if "f (sv_manager sv, c) = (k, d)" for c k d
    using f [of "sv_manager sv" c] that by simp
  then show ?thesis by (auto simp: on_connection_def keeps split: option.split prod.split)
qed

lemma step_keeps:
  assumes ok: "manager_ok (sv_manager sv)" and e: "\<And>w target data now. e \<noteq> Writes w target data now"
  shows "keeps_pauses (sv_manager sv) (sv_manager (server_step sv e))"
proof (cases e)
  case (Disconnects w now)
  have "keeps_pauses (sv_manager sv) (leave_audience w now c k)" if "detach_all w now (sv_manager sv, c) = (k, d)" for c k d
    using keeps_trans [OF keeps_detach_all [of "sv_manager sv" w now c] keeps_leave] that by simp
  then show ?thesis using Disconnects by (auto simp: server_step_def disconnects_def keeps split: option.split prod.split)
qed (use ok e in \<open>auto simp: server_step_def on_manager_def prints_def Let_def connects_def asks_handshake_def handshakes_def refuses_def
    starts_session_def note_own_start_def intro!: keeps keeps_on_connection split: option.split\<close>)

text \<open>Typing goes to the agent its target names, if that agent runs and is not paused.\<close>

lemma step_writes:
  assumes "server_step sv (Writes w target data now) = sv'"
  shows "keeps_pauses (sv_manager sv) (sv_manager sv')
     \<or> (\<exists>c i. sv_connections sv w = Some c \<and> cn_state c = Established \<and> resolve (sv_manager sv) c target = Some i
          \<and> live (sv_manager sv) i \<and> tm_pause (rec_of (sv_manager sv) i) \<noteq> Paused
          \<and> sv_manager sv' = note_input i now ((sv_manager sv)\<lparr>tg_written := tg_written (sv_manager sv) @ [(i, data)]\<rparr>))"
proof (cases "\<exists>c. sv_connections sv w = Some c \<and> cn_state c = Established")
  case True
  then obtain c where c: "sv_connections sv w = Some c" "cn_state c = Established" by blast
  have sv': "sv_manager sv' = fst (write_target now target data (sv_manager sv, c))"
    using assms c by (auto simp: server_step_def on_connection_def)
  show ?thesis
  proof (cases "\<exists>i. resolve (sv_manager sv) c target = Some i \<and> live (sv_manager sv) i \<and> tm_pause (rec_of (sv_manager sv) i) \<noteq> Paused")
    case True
    then obtain i where "resolve (sv_manager sv) c target = Some i" "live (sv_manager sv) i" "tm_pause (rec_of (sv_manager sv) i) \<noteq> Paused" by blast
    then show ?thesis using c sv' by (auto simp: write_target_def write_run_def)
  next
    case False
    then have "sv_manager sv' = sv_manager sv" using sv' by (auto simp: write_target_def split: option.splits)
    then show ?thesis by (simp add: keeps)
  qed
next
  case False
  then have "sv_manager sv' = sv_manager sv"
    using assms by (auto simp: server_step_def on_connection_def split: option.splits)
  then show ?thesis by (simp add: keeps)
qed

lemma step_pauses:
  assumes ok: "server_ok sv" and p: "pauses_ok (sv_manager sv)"
  shows "pauses_ok (sv_manager (server_step sv e))"
proof (cases "\<exists>w target data now. e = Writes w target data now")
  case False
  then show ?thesis using step_keeps [OF server_world(2) [OF ok], of e] p by (auto simp: keeps_pauses_def)
next
  case True
  then obtain w target data now where e: "e = Writes w target data now" by blast
  have "pauses_ok (note_input i now ((sv_manager sv)\<lparr>tg_written := ws\<rparr>))" for i ws
    using keeps_session(3) [of "(sv_manager sv)\<lparr>tg_written := ws\<rparr>" i now] p by (simp add: keeps_pauses_def pauses_ok_def)
  then show ?thesis using step_writes [OF refl, of sv w target data now] p unfolding e by (auto simp: keeps_pauses_def)
qed

interpretation paused: event_machine server_step "\<lambda>sv. server_ok sv \<and> pauses_ok (sv_manager sv)"
  by unfold_locales (simp add: server_step_ok step_pauses)

text \<open>
  Claim C18: A pause holds only between turns: an agent observed working is never paused, and a pause that was
  asked for is taken as soon as the turn ends.  Whatever happens, nothing is typed into an agent except
  what an established connection writes to a target that names it, while it runs and is not paused; it
  is typed once, at the end of what was typed before, and dates the last use of the terminal.
\<close>

theorem pause_withholds_keyboard:
  fixes es :: "server_event list" and cap scrollback :: nat
  defines "sv \<equiv> run server_step (create_server cap scrollback) es"
  shows "(\<forall>i < length (tg_records (sv_manager sv)).
            (tm_pause (rec_of (sv_manager sv) i) = Paused \<longrightarrow> tm_status (rec_of (sv_manager sv) i) \<noteq> Working)
          \<and> (tm_pause (rec_of (sv_manager sv) i) = Pause_Requested \<longrightarrow>
               tm_status (rec_of (sv_manager sv) i) \<in> {Working, Unknown_Status}))
       \<and> (\<forall>e. tg_written (sv_manager (server_step sv e)) = tg_written (sv_manager sv)
            \<or> (\<exists>w c target data now i. e = Writes w target data now \<and> sv_connections sv w = Some c \<and> cn_state c = Established
                 \<and> resolve (sv_manager sv) c target = Some i \<and> live (sv_manager sv) i
                 \<and> tm_pause (rec_of (sv_manager sv) i) \<noteq> Paused
                 \<and> tg_written (sv_manager (server_step sv e)) = tg_written (sv_manager sv) @ [(i, data)]
                 \<and> tm_input (rec_of (sv_manager (server_step sv e)) i) = Some now))"
proof -
  have "server_ok sv \<and> pauses_ok (sv_manager sv)"
    unfolding sv_def
    by (rule paused.run_inv) (simp add: create_server_ok, simp add: create_server_def create_manager_def pauses_ok_def)
  then have ok: "server_ok sv" and p: "pauses_ok (sv_manager sv)" by simp_all
  have "tg_written (sv_manager (server_step sv e)) = tg_written (sv_manager sv)
            \<or> (\<exists>w c target data now i. e = Writes w target data now \<and> sv_connections sv w = Some c \<and> cn_state c = Established
                 \<and> resolve (sv_manager sv) c target = Some i \<and> live (sv_manager sv) i
                 \<and> tm_pause (rec_of (sv_manager sv) i) \<noteq> Paused
                 \<and> tg_written (sv_manager (server_step sv e)) = tg_written (sv_manager sv) @ [(i, data)]
                 \<and> tm_input (rec_of (sv_manager (server_step sv e)) i) = Some now)" for e
  proof (cases "\<exists>w target data now. e = Writes w target data now")
    case False
    then show ?thesis using step_keeps [OF server_world(2) [OF ok], of e] by (auto simp: keeps_pauses_def)
  next
    case True
    then obtain w target data now where e: "e = Writes w target data now" by blast
    from step_writes [OF refl, of sv w target data now] show ?thesis
    proof (elim disjE exE conjE)
      fix c i
      assume a: "sv_connections sv w = Some c" "cn_state c = Established" "resolve (sv_manager sv) c target = Some i"
          "live (sv_manager sv) i" "tm_pause (rec_of (sv_manager sv) i) \<noteq> Paused"
        and k: "sv_manager (server_step sv (Writes w target data now))
          = note_input i now ((sv_manager sv)\<lparr>tg_written := tg_written (sv_manager sv) @ [(i, data)]\<rparr>)"
      have i: "i \<in> set (tg_open (sv_manager sv))" by (rule resolve_open [OF a(3)])
      then have "i < length (tg_records (sv_manager sv))" by (rule open_known [OF server_world(2) [OF ok]])
      then have "tg_written (sv_manager (server_step sv e)) = tg_written (sv_manager sv) @ [(i, data)]"
          "tm_input (rec_of (sv_manager (server_step sv e)) i) = Some now"
        using i by (simp_all add: e k note_input_def rec_update)
      then show ?thesis using a e by blast
    qed (simp add: e keeps_pauses_def)
  qed
  moreover have "pause_ok (rec_of (sv_manager sv) i)" if "i < length (tg_records (sv_manager sv))" for i
    using p that by (simp add: pauses_ok_def)
  ultimately show ?thesis by (auto simp: pause_ok_def at_boundary_def)
qed

definition pausing_events :: "server_event list" where
  "pausing_events =
     [Connects (js ''w''), Asks_Handshake (js ''w''), Handshakes (js ''w'') (js ''g''), Opens (js ''s'') (Some (js ''a'')) True (Some 10) 1,
      Observes (js ''s'') (js ''a'') Working, Pauses 0, Writes (js ''w'') (By_Session (js ''s'') (js ''a'')) (js ''x'') 2,
      Observes (js ''s'') (js ''a'') Idle, Writes (js ''w'') (By_Session (js ''s'') (js ''a'')) (js ''y'') 3]"

lemma pause_withholds_keyboard_witness:
  "let sv = run server_step (create_server 2 100) pausing_events
   in tm_pause (rec_of (sv_manager sv) 0) = Paused \<and> tg_written (sv_manager sv) = [(0, js ''x'')]
      \<and> tm_status (rec_of (sv_manager sv) 0) \<noteq> Working"
proof -
  let ?sv = "run server_step (create_server 2 100) pausing_events"
  have "tm_pause (rec_of (sv_manager ?sv) 0) = Paused" "tg_written (sv_manager ?sv) = [(0, js ''x'')]"
    "0 < length (tg_records (sv_manager ?sv))"
    by code_simp+
  then show ?thesis using pause_withholds_keyboard [of 2 100 pausing_events] by (simp add: Let_def)
qed

end
