(* ===== verification/Approval_Gate.thy ===== *)
theory Approval_Gate
  imports Prelude
begin

text \<open>
  \<open>apps/server/src/approvals/approval-gate.ts\<close>: the registry of blocked tool calls on one machine.

  The state holds the three maps \<open>createApprovalGate\<close> closes over; each callback of the code is an
  event.  What the parsers made of the hook's line is part of the event (\<open>hook_line\<close>), as is whether
  the write to the hook threw.  The id generator is \<open>ids\<close>, whose \<open>n\<close>-th answer is \<open>ids n\<close>.  What the
  gate writes to a hook, closes and emits are logs, oldest first.
\<close>

type_synonym approval_id = jstr

datatype approval_decision = Grant | Deny
datatype approval_outcome = Granted | Denied | Withdrawn | Expired

datatype rule_behavior = Behavior_Allow | Behavior_Deny | Behavior_Ask

record approval_rule =
  rule_tool :: jstr
  rule_content :: jstr

record approval_suggestion =
  sg_behavior :: rule_behavior
  sg_destination :: jstr
  sg_rules :: "approval_rule list"

text \<open>What the provider's parser read out of the payload, and what crosses the wire.\<close>

record permission_request =
  pr_session :: jstr
  pr_tool :: jstr
  pr_proposal :: jstr
  pr_truncated :: bool
  pr_suggestions :: "approval_suggestion list"

record approval_request =
  ar_id :: approval_id
  ar_tool :: jstr
  ar_proposal :: jstr
  ar_truncated :: bool
  ar_suggestions :: "approval_suggestion list"

definition approval_suggestions_max :: nat where "approval_suggestions_max = 16"

definition to_approval_request :: "approval_id \<Rightarrow> permission_request \<Rightarrow> approval_request" where
  "to_approval_request i r = \<lparr>ar_id = i, ar_tool = pr_tool r, ar_proposal = pr_proposal r,
     ar_truncated = pr_truncated r,
     ar_suggestions = map (\<lambda>s. s\<lparr>sg_rules := take approval_suggestions_max (sg_rules s)\<rparr>)
       (take approval_suggestions_max (pr_suggestions r))\<rparr>"

section \<open>State\<close>

record pending_approval =
  pa_store :: jstr
  pa_session :: jstr
  pa_connection :: nat
  pa_requested_at :: nat
  pa_admission :: jstr

datatype gate_frame =
    Requested jstr jstr approval_request
  | Withdrawn_Frame jstr jstr approval_id
  | Settled_Frame jstr jstr approval_id approval_outcome

record gate =
  ga_admissions :: "(jstr \<times> jstr) list"
  ga_pending :: "(approval_id \<times> pending_approval) list"
  ga_endings :: "(approval_id \<times> approval_outcome) list"
  ga_minted :: nat
  ga_listening :: bool
  ga_written :: "(nat \<times> approval_decision) list"
  ga_closed :: "nat list"
  ga_events :: "gate_frame list"

definition create_gate :: gate where
  "create_gate = \<lparr>ga_admissions = [], ga_pending = [], ga_endings = [], ga_minted = 0,
     ga_listening = True, ga_written = [], ga_closed = [], ga_events = []\<rparr>"

definition endings_remembered :: nat where "endings_remembered = 256"

definition remember :: "approval_id \<Rightarrow> approval_outcome \<Rightarrow> gate \<Rightarrow> gate" where
  "remember i outcome g =
     (let m = AList.update i outcome (ga_endings g)
      in g\<lparr>ga_endings := drop (length m - endings_remembered) m\<rparr>)"

definition close_connection :: "nat \<Rightarrow> gate \<Rightarrow> gate" where
  "close_connection c g = g\<lparr>ga_closed := ga_closed g @ [c]\<rparr>"

definition emit :: "gate_frame \<Rightarrow> gate \<Rightarrow> gate" where
  "emit f g = g\<lparr>ga_events := ga_events g @ [f]\<rparr>"

definition forget :: "approval_id \<Rightarrow> gate \<Rightarrow> gate" where
  "forget i g = g\<lparr>ga_pending := AList.delete i (ga_pending g)\<rparr>"

definition withdraw :: "approval_id \<Rightarrow> gate \<Rightarrow> gate" where
  "withdraw i g =
     (case map_of (ga_pending g) i of
        None \<Rightarrow> g
      | Some p \<Rightarrow> emit (Withdrawn_Frame (pa_store p) (pa_session p) i)
          (close_connection (pa_connection p) (remember i Withdrawn (forget i g))))"

definition expire :: "approval_id \<Rightarrow> gate \<Rightarrow> gate" where
  "expire i g =
     (case map_of (ga_pending g) i of
        None \<Rightarrow> g
      | Some p \<Rightarrow> emit (Settled_Frame (pa_store p) (pa_session p) i Expired)
          (close_connection (pa_connection p) (remember i Expired (forget i g))))"

text \<open>The line a hook sent, once parsed; a secret is known by its digest.\<close>

datatype hook_line =
    Unreadable
  | Payload_Refused jstr
  | Asks jstr permission_request

definition accept ::
    "(nat \<Rightarrow> approval_id) \<Rightarrow> nat \<Rightarrow> nat \<Rightarrow> hook_line \<Rightarrow> gate \<Rightarrow> gate" where
  "accept ids now connection line g =
     (case line of
        Unreadable \<Rightarrow> close_connection connection g
      | Payload_Refused digest \<Rightarrow> close_connection connection g
      | Asks digest request \<Rightarrow>
          (case map_of (ga_admissions g) digest of
             None \<Rightarrow> close_connection connection g
           | Some store \<Rightarrow>
               (let i = ids (ga_minted g);
                    p = \<lparr>pa_store = store, pa_session = pr_session request, pa_connection = connection,
                         pa_requested_at = now, pa_admission = digest\<rparr>
                in emit (Requested store (pr_session request) (to_approval_request i request))
                     (g\<lparr>ga_minted := ga_minted g + 1, ga_pending := AList.update i p (ga_pending g)\<rparr>))))"

definition admit :: "jstr \<Rightarrow> jstr \<Rightarrow> gate \<Rightarrow> gate" where
  "admit digest store g = g\<lparr>ga_admissions := AList.update digest store (ga_admissions g)\<rparr>"

text \<open>The loops over a copy of the pending records.\<close>

definition withdraw_where :: "(pending_approval \<Rightarrow> bool) \<Rightarrow> gate \<Rightarrow> gate" where
  "withdraw_where P g =
     foldl (\<lambda>g (i, p). if P p then withdraw i g else g) g (ga_pending g)"

definition retire :: "jstr \<Rightarrow> gate \<Rightarrow> gate" where
  "retire digest g =
     withdraw_where (\<lambda>p. pa_admission p = digest)
       (g\<lparr>ga_admissions := AList.delete digest (ga_admissions g)\<rparr>)"

definition stop_gate :: "gate \<Rightarrow> gate" where
  "stop_gate g = withdraw_where (\<lambda>p. True) (g\<lparr>ga_listening := False, ga_admissions := []\<rparr>)"

datatype decide_result = Decided approval_outcome | Refused approval_outcome | Unknown_Approval

definition settlement_of :: "approval_decision \<Rightarrow> approval_outcome" where
  "settlement_of d = (case d of Grant \<Rightarrow> Granted | Deny \<Rightarrow> Denied)"

definition decide :: "approval_id \<Rightarrow> approval_decision \<Rightarrow> bool \<Rightarrow> gate \<Rightarrow> gate \<times> decide_result" where
  "decide i decision reaches g =
     (case map_of (ga_pending g) i of
        None \<Rightarrow> (g, case map_of (ga_endings g) i of None \<Rightarrow> Unknown_Approval | Some outcome \<Rightarrow> Refused outcome)
      | Some p \<Rightarrow>
          (let g1 = forget i g
           in if \<not> reaches
              then (emit (Withdrawn_Frame (pa_store p) (pa_session p) i) (remember i Withdrawn g1), Refused Withdrawn)
              else (emit (Settled_Frame (pa_store p) (pa_session p) i (settlement_of decision))
                      (close_connection (pa_connection p)
                        (remember i (settlement_of decision)
                          (g1\<lparr>ga_written := ga_written g1 @ [(pa_connection p, decision)]\<rparr>))),
                    Decided (settlement_of decision))))"

section \<open>The machine\<close>

text \<open>
  \<open>Hook_Connects\<close>'s connection is the listener's; the listener hands none over once it is closed.
  \<open>Hook_Gone\<close> is the handler given to \<open>onClose\<close> and \<open>Timed_Out\<close> the timer, both for one approval.
\<close>

datatype gate_event =
    Admit jstr jstr
  | Retire jstr
  | Hook_Connects nat nat hook_line
  | Hook_Gone approval_id
  | Timed_Out approval_id
  | Decide approval_id approval_decision bool
  | Stop

fun gate_step :: "(nat \<Rightarrow> approval_id) \<Rightarrow> gate \<Rightarrow> gate_event \<Rightarrow> gate" where
  "gate_step ids g (Admit digest store) = admit digest store g"
| "gate_step ids g (Retire digest) = retire digest g"
| "gate_step ids g (Hook_Connects now connection line) =
     (if ga_listening g then accept ids now connection line g else g)"
| "gate_step ids g (Hook_Gone i) = withdraw i g"
| "gate_step ids g (Timed_Out i) = expire i g"
| "gate_step ids g (Decide i decision reaches) = fst (decide i decision reaches g)"
| "gate_step ids g Stop = stop_gate g"

section \<open>What was asked and what became of it\<close>

fun asked_frame :: "gate_frame \<Rightarrow> approval_id option" where
  "asked_frame (Requested store session r) = Some (ar_id r)"
| "asked_frame f = None"

fun ending_frame :: "gate_frame \<Rightarrow> (approval_id \<times> approval_outcome) option" where
  "ending_frame (Requested store session r) = None"
| "ending_frame (Withdrawn_Frame store session i) = Some (i, Withdrawn)"
| "ending_frame (Settled_Frame store session i outcome) = Some (i, outcome)"

definition asked :: "gate \<Rightarrow> approval_id list" where
  "asked g = List.map_filter asked_frame (ga_events g)"

definition ended :: "gate \<Rightarrow> (approval_id \<times> approval_outcome) list" where
  "ended g = List.map_filter ending_frame (ga_events g)"

end
