(* ===== verification/Approval_Once.thy ===== *)
theory Approval_Once
  imports Approval_Gate
begin

text \<open>
  Deciding once: the invariant of the gate of \<open>Approval_Gate\<close> and what every run of it promises.  The
  log of frames is the abstract view: each approval is asked once, under an id of its own, and ended at
  most once; the maps of the gate are read off that log.
\<close>

section \<open>The invariant\<close>

text \<open>The decision a settlement reports as having reached the agent.\<close>

definition settled_decision :: "approval_id \<times> approval_outcome \<Rightarrow> approval_decision option" where
  "settled_decision e = (case snd e of Granted \<Rightarrow> Some Grant | Denied \<Rightarrow> Some Deny | _ \<Rightarrow> None)"

definition gate_core :: "(nat \<Rightarrow> approval_id) \<Rightarrow> gate \<Rightarrow> bool" where
  "gate_core ids g \<longleftrightarrow> inj ids
     \<and> asked g = map ids [0..<ga_minted g]
     \<and> distinct (keys_of (ga_pending g))
     \<and> distinct (map fst (ended g))
     \<and> fst ` set (ga_pending g) \<union> fst ` set (ended g) = set (asked g)
     \<and> fst ` set (ga_pending g) \<inter> fst ` set (ended g) = {}
     \<and> ga_endings g = drop (length (ended g) - endings_remembered) (ended g)
     \<and> map snd (ga_written g) = List.map_filter settled_decision (ended g)"

definition launches_live :: "gate \<Rightarrow> bool" where
  "launches_live g \<longleftrightarrow> (\<forall>(i, p) \<in> set (ga_pending g). pa_admission p \<in> fst ` set (ga_admissions g))"

definition gate_ok :: "(nat \<Rightarrow> approval_id) \<Rightarrow> gate \<Rightarrow> bool" where
  "gate_ok ids g \<longleftrightarrow> gate_core ids g \<and> launches_live g"

lemma map_filter_Nil [simp]: "List.map_filter f [] = []"
  by (simp add: List.map_filter_def)

lemma map_filter_append: "List.map_filter f (xs @ ys) = List.map_filter f xs @ List.map_filter f ys"
  by (simp add: List.map_filter_def)

lemma map_filter_single: "List.map_filter f [x] = (case f x of None \<Rightarrow> [] | Some y \<Rightarrow> [y])"
  by (simp add: List.map_filter_def split: option.split)

lemma log_emit [simp]:
  "asked (emit f g) = asked g @ (case asked_frame f of None \<Rightarrow> [] | Some i \<Rightarrow> [i])"
  "ended (emit f g) = ended g @ (case ending_frame f of None \<Rightarrow> [] | Some e \<Rightarrow> [e])"
  by (simp_all add: asked_def ended_def emit_def map_filter_append map_filter_single split: option.split)

lemma log_same [simp]:
  "asked (close_connection c g) = asked g" "ended (close_connection c g) = ended g"
  "asked (remember i outcome g) = asked g" "ended (remember i outcome g) = ended g"
  "asked (forget i g) = asked g" "ended (forget i g) = ended g"
  "asked (g\<lparr>ga_written := w\<rparr>) = asked g" "ended (g\<lparr>ga_written := w\<rparr>) = ended g"
  "asked (g\<lparr>ga_admissions := a\<rparr>) = asked g" "ended (g\<lparr>ga_admissions := a\<rparr>) = ended g"
  "asked (g\<lparr>ga_listening := b, ga_admissions := a\<rparr>) = asked g"
  "ended (g\<lparr>ga_listening := b, ga_admissions := a\<rparr>) = ended g"
  "asked (g\<lparr>ga_listening := b\<rparr>) = asked g" "ended (g\<lparr>ga_listening := b\<rparr>) = ended g"
  "asked (g\<lparr>ga_minted := n, ga_pending := m\<rparr>) = asked g"
  "ended (g\<lparr>ga_minted := n, ga_pending := m\<rparr>) = ended g"
  by (simp_all add: asked_def ended_def close_connection_def remember_def forget_def Let_def)

text \<open>The endings remembered are the last of the log.\<close>

lemma remember_suffix:
  assumes "ga_endings g = drop (length xs - endings_remembered) xs" and "i \<notin> fst ` set xs"
  shows "ga_endings (remember i outcome g) = drop (length (xs @ [(i, outcome)]) - endings_remembered) (xs @ [(i, outcome)])"
proof -
  have fresh: "i \<notin> fst ` set (ga_endings g)"
    using assms by (auto dest!: in_set_dropD)
  have upd: "AList.update i outcome (ga_endings g) = ga_endings g @ [(i, outcome)]"
    by (rule keys_update_fresh [OF fresh])
  show ?thesis
  proof (cases "length xs < endings_remembered")
    case True
    then show ?thesis using assms(1) upd by (simp add: remember_def)
  next
    case False
    then have "length (AList.update i outcome (ga_endings g)) - endings_remembered = 1"
      using assms(1) upd by simp
    moreover have "drop 1 (drop (length xs - endings_remembered) (xs @ [(i, outcome)]))
        = drop (length xs + 1 - endings_remembered) (xs @ [(i, outcome)])"
      using False by (simp add: Suc_diff_le)
    ultimately show ?thesis using False assms(1) upd by (simp add: remember_def)
  qed
qed

text \<open>One approval ends: it leaves the pending map and its outcome joins the log.\<close>

definition concludes :: "approval_id \<Rightarrow> approval_outcome \<Rightarrow> gate \<Rightarrow> gate \<Rightarrow> bool" where
  "concludes i outcome g g' \<longleftrightarrow>
     ga_pending g' = AList.delete i (ga_pending g) \<and> ended g' = ended g @ [(i, outcome)]
     \<and> asked g' = asked g \<and> ga_minted g' = ga_minted g \<and> ga_admissions g' = ga_admissions g
     \<and> ga_endings g' = ga_endings (remember i outcome g)
     \<and> map snd (ga_written g') = map snd (ga_written g) @ (case settled_decision (i, outcome) of None \<Rightarrow> [] | Some d \<Rightarrow> [d])"

lemma gate_core_concludes:
  assumes core: "gate_core ids g" and i: "i \<in> fst ` set (ga_pending g)" and c: "concludes i outcome g g'"
  shows "gate_core ids g'"
proof -
  have fresh: "i \<notin> fst ` set (ended g)" using core i by (auto simp: gate_core_def)
  have keys: "fst ` set (AList.delete i (ga_pending g)) = fst ` set (ga_pending g) - {i}"
    by (rule keys_delete)
  have e: "ended g' = ended g @ [(i, outcome)]" using c by (simp add: concludes_def)
  have endings: "ga_endings g' = drop (length (ended g') - endings_remembered) (ended g')"
    unfolding e using remember_suffix [of g "ended g" i outcome] core c fresh
    by (simp add: gate_core_def concludes_def)
  have written: "map snd (ga_written g') = List.map_filter settled_decision (ended g')"
    using core c by (simp add: gate_core_def concludes_def map_filter_append map_filter_single split: option.split)
  have same: "asked g' = asked g" "ga_minted g' = ga_minted g" "ga_pending g' = AList.delete i (ga_pending g)"
    using c by (simp_all add: concludes_def)
  show ?thesis
    unfolding gate_core_def
  proof (intro conjI)
    show "fst ` set (ga_pending g') \<union> fst ` set (ended g') = set (asked g')"
    proof -
      have "fst ` set (ga_pending g) \<union> fst ` set (ended g) = set (asked g)" using core by (simp add: gate_core_def)
      then show ?thesis unfolding same keys e using i by (simp add: image_Un) blast
    qed
    show "fst ` set (ga_pending g') \<inter> fst ` set (ended g') = {}"
      unfolding same keys e using core by (auto simp: gate_core_def)
    show "distinct (keys_of (ga_pending g'))"
      unfolding same using core by (intro distinct_delete) (simp add: gate_core_def)
    show "distinct (map fst (ended g'))" unfolding e using core fresh by (simp add: gate_core_def)
    show "inj ids" "asked g' = map ids [0..<ga_minted g']" using core same by (simp_all add: gate_core_def)
  qed (fact endings, fact written)
qed

lemma concludes_withdraw:
  "map_of (ga_pending g) i = Some p \<Longrightarrow> concludes i Withdrawn g (withdraw i g)"
  by (simp add: concludes_def withdraw_def settled_decision_def)
     (simp add: forget_def close_connection_def remember_def emit_def Let_def)

lemma concludes_expire:
  "map_of (ga_pending g) i = Some p \<Longrightarrow> concludes i Expired g (expire i g)"
  by (simp add: concludes_def expire_def settled_decision_def)
     (simp add: forget_def close_connection_def remember_def emit_def Let_def)

lemma concludes_decide:
  "map_of (ga_pending g) i = Some p \<Longrightarrow>
     concludes i (if reaches then settlement_of d else Withdrawn) g (fst (decide i d reaches g))"
  by (cases d) (simp_all add: concludes_def decide_def settled_decision_def settlement_of_def Let_def,
      simp_all add: forget_def close_connection_def remember_def emit_def Let_def)

lemma concludes_live: "concludes i outcome g g' \<Longrightarrow> launches_live g \<Longrightarrow> launches_live g'"
  using set_delete_subset by (fastforce simp: concludes_def launches_live_def)

lemma not_pending: "map_of (ga_pending g) i = None \<Longrightarrow> withdraw i g = g \<and> expire i g = g \<and> fst (decide i d r g) = g"
  by (simp add: withdraw_def expire_def decide_def)

lemma withdraw_core: "gate_core ids g \<Longrightarrow> gate_core ids (withdraw i g)"
proof (cases "map_of (ga_pending g) i")
  case (Some p)
  assume "gate_core ids g"
  then show ?thesis
    using gate_core_concludes [OF _ _ concludes_withdraw [OF Some]] Some
    by (metis domI dom_map_of_conv_image_fst)
qed (simp add: not_pending)

section \<open>Withdrawing many\<close>

lemma withdraw_pending: "ga_pending (withdraw i g) = AList.delete i (ga_pending g)"
proof (cases "map_of (ga_pending g) i")
  case None
  then have "i \<notin> fst ` set (ga_pending g)" by (simp add: map_of_eq_None_iff)
  then show ?thesis using None by (simp add: not_pending delete_fresh)
next
  case (Some p)
  then show ?thesis using concludes_withdraw by (simp add: concludes_def)
qed

lemma withdraw_admissions: "ga_admissions (withdraw i g) = ga_admissions g"
  using not_pending concludes_withdraw by (cases "map_of (ga_pending g) i") (simp_all add: concludes_def)

lemma withdraws:
  defines "f P \<equiv> (\<lambda>g (i, p). if P p then withdraw i g else g)"
  shows "ga_pending (foldl (f P) g xs) = filter (\<lambda>(j, q). j \<notin> fst ` set (filter (\<lambda>(i, p). P p) xs)) (ga_pending g)"
    and "ga_admissions (foldl (f P) g xs) = ga_admissions g"
    and "gate_core ids g \<Longrightarrow> gate_core ids (foldl (f P) g xs)"
proof -
  show "ga_pending (foldl (f P) g xs) = filter (\<lambda>(j, q). j \<notin> fst ` set (filter (\<lambda>(i, p). P p) xs)) (ga_pending g)"
  proof (induction xs arbitrary: g)
    case (Cons x xs)
    obtain i p where x: "x = (i, p)" by (cases x)
    have "ga_pending (f P g x) = filter (\<lambda>(j, q). \<not> (P p \<and> j = i)) (ga_pending g)"
      by (auto simp: f_def x withdraw_pending AList.delete_eq intro!: filter_cong)
    then show ?case
      using Cons.IH [of "f P g x"] by (auto simp: x intro!: filter_cong)
  qed (simp add: f_def)
  show "ga_admissions (foldl (f P) g xs) = ga_admissions g"
    by (induction xs arbitrary: g) (auto simp: f_def withdraw_admissions)
  show "gate_core ids g \<Longrightarrow> gate_core ids (foldl (f P) g xs)"
    by (induction xs arbitrary: g) (auto simp: f_def withdraw_core)
qed

lemma withdraw_where_pending:
  assumes "distinct (keys_of (ga_pending g))"
  shows "ga_pending (withdraw_where P g) = filter (\<lambda>(i, p). \<not> P p) (ga_pending g)"
proof -
  have "j \<in> fst ` set (filter (\<lambda>(i, p). P p) (ga_pending g)) \<longleftrightarrow> P q" if "(j, q) \<in> set (ga_pending g)" for j q
    using that assms by (auto simp: image_iff) (metis map_of_eq_Some_iff option.inject)
  then show ?thesis
    unfolding withdraw_where_def withdraws(1) by (intro filter_cong) auto
qed

section \<open>Every event\<close>

lemma gate_concludes_ok:
  assumes "gate_ok ids g" and "map_of (ga_pending g) i = Some p" and "concludes i outcome g g'"
  shows "gate_ok ids g'"
  using assms gate_core_concludes [of ids g i outcome g'] concludes_live [of i outcome g g']
  by (simp add: gate_ok_def) (metis domI dom_map_of_conv_image_fst)

lemma close_ok [simp]: "gate_ok ids (close_connection c g) = gate_ok ids g"
  by (simp add: gate_ok_def gate_core_def launches_live_def) (simp add: close_connection_def)

lemma accept_ok:
  assumes ok: "gate_ok ids g"
  shows "gate_ok ids (accept ids now c line g)"
proof (cases "\<exists>digest request store. line = Asks digest request \<and> map_of (ga_admissions g) digest = Some store")
  case False
  then show ?thesis using ok by (auto simp: accept_def split: hook_line.split option.split)
next
  case True
  then obtain digest request store where line: "line = Asks digest request" "map_of (ga_admissions g) digest = Some store"
    by blast
  let ?i = "ids (ga_minted g)"
  let ?p = "\<lparr>pa_store = store, pa_session = pr_session request, pa_connection = c, pa_requested_at = now, pa_admission = digest\<rparr>"
  let ?g = "g\<lparr>ga_minted := ga_minted g + 1, ga_pending := AList.update ?i ?p (ga_pending g)\<rparr>"
  have acc: "accept ids now c line g = emit (Requested store (pr_session request) (to_approval_request ?i request)) ?g"
    by (simp add: accept_def line Let_def)
  have "?i \<notin> set (asked g)" using ok by (auto simp: gate_ok_def gate_core_def inj_eq)
  then have fresh: "?i \<notin> fst ` set (ga_pending g)" "?i \<notin> fst ` set (ended g)"
    using ok unfolding gate_ok_def gate_core_def by blast+
  have upd: "AList.update ?i ?p (ga_pending g) = ga_pending g @ [(?i, ?p)]" by (rule keys_update_fresh [OF fresh(1)])
  have live: "digest \<in> fst ` set (ga_admissions g)" using line(2) by (metis domI dom_map_of_conv_image_fst)
  have asked: "asked (accept ids now c line g) = asked g @ [?i]" "ended (accept ids now c line g) = ended g"
    by (simp_all add: acc to_approval_request_def)
  have rest: "ga_pending (accept ids now c line g) = ga_pending g @ [(?i, ?p)]"
    "ga_minted (accept ids now c line g) = Suc (ga_minted g)" "ga_endings (accept ids now c line g) = ga_endings g"
    "ga_written (accept ids now c line g) = ga_written g" "ga_admissions (accept ids now c line g) = ga_admissions g"
    using upd by (simp_all add: acc emit_def)
  show ?thesis
    using ok fresh live unfolding gate_ok_def gate_core_def launches_live_def asked rest by auto
qed

lemma retire_ok:
  assumes ok: "gate_ok ids g"
  shows "gate_ok ids (retire digest g)"
    and "ga_pending (retire digest g) = filter (\<lambda>(i, p). pa_admission p \<noteq> digest) (ga_pending g)"
proof -
  let ?g = "g\<lparr>ga_admissions := AList.delete digest (ga_admissions g)\<rparr>"
  have core: "gate_core ids ?g" using ok by (simp add: gate_ok_def gate_core_def)
  have pend: "ga_pending (retire digest g) = filter (\<lambda>(i, p). pa_admission p \<noteq> digest) (ga_pending g)"
    using withdraw_where_pending [of ?g] core by (simp add: retire_def gate_core_def)
  have adm: "ga_admissions (retire digest g) = AList.delete digest (ga_admissions g)"
    by (simp add: retire_def withdraw_where_def withdraws(2))
  have "gate_core ids (retire digest g)"
    unfolding retire_def withdraw_where_def by (rule withdraws(3) [OF core])
  moreover have "launches_live (retire digest g)"
    unfolding launches_live_def pend adm keys_delete
    using ok by (fastforce simp: gate_ok_def launches_live_def)
  ultimately show "gate_ok ids (retire digest g)" by (simp add: gate_ok_def)
  show "ga_pending (retire digest g) = filter (\<lambda>(i, p). pa_admission p \<noteq> digest) (ga_pending g)" by (rule pend)
qed

lemma stop_ok:
  assumes ok: "gate_ok ids g"
  shows "gate_ok ids (stop_gate g)" and "ga_pending (stop_gate g) = []"
proof -
  let ?g = "g\<lparr>ga_listening := False, ga_admissions := []\<rparr>"
  have core: "gate_core ids ?g" using ok by (simp add: gate_ok_def gate_core_def)
  have pend: "ga_pending (stop_gate g) = []"
    using withdraw_where_pending [of ?g] core by (simp add: stop_gate_def gate_core_def)
  have "gate_core ids (stop_gate g)"
    unfolding stop_gate_def withdraw_where_def by (rule withdraws(3) [OF core])
  then show "gate_ok ids (stop_gate g)" by (simp add: gate_ok_def launches_live_def pend)
  show "ga_pending (stop_gate g) = []" by (rule pend)
qed

lemma gate_step_ok:
  assumes ok: "gate_ok ids g"
  shows "gate_ok ids (gate_step ids g e)"
proof (cases e)
  case (Admit digest store)
  then show ?thesis
    using ok by (auto simp: admit_def gate_ok_def gate_core_def launches_live_def)
next
  case (Hook_Gone i)
  then show ?thesis
    using ok gate_concludes_ok [OF ok _ concludes_withdraw] by (cases "map_of (ga_pending g) i") (auto simp: not_pending)
next
  case (Timed_Out i)
  then show ?thesis
    using ok gate_concludes_ok [OF ok _ concludes_expire] by (cases "map_of (ga_pending g) i") (auto simp: not_pending)
next
  case (Decide i d reaches)
  then show ?thesis
    using ok gate_concludes_ok [OF ok _ concludes_decide] by (cases "map_of (ga_pending g) i") (auto simp: not_pending)
qed (use ok accept_ok retire_ok stop_ok in auto)

section \<open>Every run\<close>

lemma create_gate_ok: "inj ids \<Longrightarrow> gate_ok ids create_gate"
  by (simp add: gate_ok_def gate_core_def launches_live_def asked_def ended_def create_gate_def)

lemma ended_grows:
  assumes ok: "gate_ok ids g"
  shows "\<exists>new. ended (gate_step ids g e) = ended g @ new"
proof -
  have w: "\<exists>new. ended (withdraw i h) = ended h @ new" for i h
    using concludes_withdraw by (cases "map_of (ga_pending h) i") (auto simp: not_pending concludes_def)
  have ws: "\<exists>new. ended (foldl (\<lambda>g (i, p). if P p then withdraw i g else g) h xs) = ended h @ new" for P h xs
  proof (induction xs arbitrary: h)
    case (Cons x xs)
    obtain i p where x: "x = (i, p)" by (cases x)
    show ?case using Cons.IH [of h] Cons.IH [of "withdraw i h"] w [of i h] by (auto simp: x)
  qed simp
  show ?thesis
  proof (cases e)
    case (Admit digest store)
    then show ?thesis by (simp add: admit_def)
  next
    case (Retire digest)
    show ?thesis
      using ws [of "\<lambda>p. pa_admission p = digest" "g\<lparr>ga_admissions := AList.delete digest (ga_admissions g)\<rparr>"]
      unfolding Retire gate_step.simps retire_def withdraw_where_def log_same .
  next
    case (Hook_Connects now c line)
    then show ?thesis
      by (auto simp: accept_def Let_def split: hook_line.split option.split)
  next
    case (Hook_Gone i)
    then show ?thesis using w by simp
  next
    case (Timed_Out i)
    then show ?thesis
      using concludes_expire by (cases "map_of (ga_pending g) i") (auto simp: not_pending concludes_def)
  next
    case (Decide i d r)
    then show ?thesis
      using concludes_decide by (cases "map_of (ga_pending g) i") (auto simp: not_pending concludes_def)
  next
    case Stop
    show ?thesis
      using ws [of "\<lambda>p. True" "g\<lparr>ga_listening := False, ga_admissions := []\<rparr>"]
      unfolding Stop gate_step.simps stop_gate_def withdraw_where_def log_same .
  qed
qed

text \<open>The gate is a machine whose endings are written once.\<close>

interpretation approvals: write_once "gate_step ids" "gate_ok ids" "\<lambda>g. map_of (ended g)" for ids
proof unfold_locales
  show "gate_ok ids (gate_step ids g e)" if "gate_ok ids g" for g e
    by (rule gate_step_ok [OF that])
  show "map_of (ended (gate_step ids g e)) i = Some outcome"
    if "gate_ok ids g" and "map_of (ended g) i = Some outcome" for g i outcome e
    using ended_grows [OF that(1), of e] that(2) by (auto simp: map_add_def)
qed

definition gate_run :: "(nat \<Rightarrow> approval_id) \<Rightarrow> gate_event list \<Rightarrow> gate" where
  "gate_run ids es = run (gate_step ids) create_gate es"

lemma gate_run_ok: "inj ids \<Longrightarrow> gate_ok ids (gate_run ids es)"
  unfolding gate_run_def by (rule approvals.run_inv [OF create_gate_ok])






text \<open>
  Claim C5: an approval is decided once.  Whatever hooks connect, time out and go away, and whoever
  decides when: every approval is asked under an id of its own; it is either still pending or has ended,
  never both; it has ended at most once, and an ending never changes; and a decision was written to a
  hook for exactly the endings reported as granted or denied, in those words and that order, so nothing
  is reported that did not reach the agent and nothing is written for a withdrawal or an expiry.
\<close>

theorem approval_decided_once:
  assumes "inj ids"
  shows "distinct (asked (gate_run ids es))
     \<and> fst ` set (ga_pending (gate_run ids es)) \<union> fst ` set (ended (gate_run ids es)) = set (asked (gate_run ids es))
     \<and> fst ` set (ga_pending (gate_run ids es)) \<inter> fst ` set (ended (gate_run ids es)) = {}
     \<and> distinct (map fst (ended (gate_run ids es)))
     \<and> (\<forall>i outcome. map_of (ended (gate_run ids es)) i = Some outcome
          \<longrightarrow> map_of (ended (gate_run ids (es @ fs))) i = Some outcome)
     \<and> map snd (ga_written (gate_run ids es)) = List.map_filter settled_decision (ended (gate_run ids es))"
proof -
  have ok: "gate_core ids (gate_run ids es)" using gate_run_ok [OF assms, of es] by (simp add: gate_ok_def)
  have "distinct (asked (gate_run ids es))"
    using ok inj_on_subset [OF assms subset_UNIV] by (simp add: gate_core_def distinct_map)
  moreover have "map_of (ended (gate_run ids (es @ fs))) i = Some outcome"
    if "map_of (ended (gate_run ids es)) i = Some outcome" for i outcome
    using approvals.lookup_runs [OF create_gate_ok [OF assms]] that unfolding gate_run_def by blast
  ultimately show ?thesis using ok unfolding gate_core_def by blast
qed

text \<open>
  Claim C33: a decision is answered truthfully.  Deciding a pending approval reports the settlement if
  the answer reached the hook and a withdrawal if it did not; deciding one that is not pending changes
  nothing and reports how it ended when that is among the last 256 endings, and otherwise that this
  machine does not know it.
\<close>

theorem decide_answers_truth:
  assumes "inj ids"
  shows "snd (decide i d reaches (gate_run ids es)) =
       (if i \<in> fst ` set (ga_pending (gate_run ids es))
        then (if reaches then Decided (settlement_of d) else Refused Withdrawn)
        else (case map_of (drop (length (ended (gate_run ids es)) - 256) (ended (gate_run ids es))) i of
                None \<Rightarrow> Unknown_Approval | Some outcome \<Rightarrow> Refused outcome))
     \<and> (i \<notin> fst ` set (ga_pending (gate_run ids es)) \<longrightarrow>
          fst (decide i d reaches (gate_run ids es)) = gate_run ids es)
     \<and> length (ga_endings (gate_run ids es)) \<le> 256"
proof -
  let ?g = "gate_run ids es"
  have endings: "ga_endings ?g = drop (length (ended ?g) - 256) (ended ?g)"
    using gate_run_ok [OF assms, of es] by (simp add: gate_ok_def gate_core_def endings_remembered_def)
  have "map_of (ga_pending ?g) i = None \<longleftrightarrow> i \<notin> fst ` set (ga_pending ?g)"
    by (simp add: map_of_eq_None_iff)
  then show ?thesis
    by (auto simp: decide_def endings Let_def split: option.split)
qed


section \<open>A small gate\<close>

definition small_ids :: "nat \<Rightarrow> approval_id" where
  "small_ids n = replicate n 97"

lemma inj_small_ids: "inj small_ids"
  by (rule inj_on_inverseI [where g = length]) (simp add: small_ids_def)

text \<open>Two hooks of one launch block; the first is granted, the other one's timer runs out.\<close>

definition small_hooks :: "gate_event list" where
  "small_hooks =
     [Admit [1] [2],
      Hook_Connects 10 7 (Asks [1] \<lparr>pr_session = [3], pr_tool = [4], pr_proposal = [5], pr_truncated = False, pr_suggestions = []\<rparr>),
      Hook_Connects 11 8 (Asks [1] \<lparr>pr_session = [3], pr_tool = [4], pr_proposal = [6], pr_truncated = False, pr_suggestions = []\<rparr>),
      Hook_Connects 12 9 (Asks [0] \<lparr>pr_session = [3], pr_tool = [4], pr_proposal = [6], pr_truncated = False, pr_suggestions = []\<rparr>),
      Decide [] Grant True]"

theorem approval_decided_once_witness:
  "ended (gate_run small_ids small_hooks) = [([], Granted)]
     \<and> map_of (ended (gate_run small_ids (small_hooks @ [Timed_Out [97], Timed_Out []]))) [] = Some Granted
     \<and> map snd (ga_written (gate_run small_ids small_hooks)) = [Grant]"
proof -
  have e: "ended (gate_run small_ids small_hooks) = [([], Granted)]" by code_simp
  moreover have "map_of (ended (gate_run small_ids (small_hooks @ [Timed_Out [97], Timed_Out []]))) [] = Some Granted"
    using approval_decided_once [OF inj_small_ids, of small_hooks "[Timed_Out [97], Timed_Out []]"] e by simp
  moreover have "map snd (ga_written (gate_run small_ids small_hooks)) = [Grant]" by code_simp
  ultimately show ?thesis by blast
qed

theorem decide_answers_truth_witness:
  "snd (decide [] Deny True (gate_run small_ids small_hooks)) = Refused Granted
     \<and> snd (decide [97] Deny False (gate_run small_ids small_hooks)) = Refused Withdrawn
     \<and> snd (decide [97, 97] Deny True (gate_run small_ids small_hooks)) = Unknown_Approval"
proof -
  have e: "ended (gate_run small_ids small_hooks) = [([], Granted)]" by code_simp
  have p: "map fst (ga_pending (gate_run small_ids small_hooks)) = [[97]]" by code_simp
  have p': "fst ` set (ga_pending (gate_run small_ids small_hooks)) = {[97]}"
    using arg_cong [OF p, of set] by simp
  show ?thesis
    using decide_answers_truth [OF inj_small_ids, of "[]" Deny True small_hooks]
      decide_answers_truth [OF inj_small_ids, of "[97]" Deny False small_hooks]
      decide_answers_truth [OF inj_small_ids, of "[97, 97]" Deny True small_hooks]
    by (simp add: e p')
qed


end
