(* ===== verification/Approval_Policy.thy ===== *)
theory Approval_Policy
  imports Route_Condition "HOL-Library.List_Lexorder" "HOL-Library.Product_Lexorder"
begin

text \<open>
  The standing policy: \<open>apps/hub/src/approval-policy/approval-policy.ts\<close> over its one table, and the
  rules of \<open>packages/protocol/src/approval.ts\<close>.

  A table is the list of its rows.  The unique index over project, tool and proposal, the primary key and
  the reference to \<open>projects\<close> are what \<open>insert_rule\<close> refuses.  A row is read back as a claim: rows
  nobody's \<open>add\<close> wrote may be in the table too.  The \<open>n\<close>-th id the hub mints is \<open>ids n\<close>.  Text is read
  back as it was bound, and two ids written at one moment are ordered by code unit.
\<close>

section \<open>Rules\<close>

definition approval_proposal_max_chars :: nat where "approval_proposal_max_chars = 4000"
definition approval_tool_max_chars :: nat where "approval_tool_max_chars = 200"
definition approval_policy_rules_max :: nat where "approval_policy_rules_max = 500"

record policy_rule =
  pl_tool :: jstr
  pl_proposal :: jstr

datatype rule_problem =
    Not_A_Rule | No_Tool | No_Proposal | Tool_Spaced | Tool_Wildcard | Proposal_Cut | Rule_Undisplayable

text \<open>A draft that is no object of two texts is \<open>None\<close>.\<close>

definition policy_rule_shape :: "jstr \<Rightarrow> jstr \<Rightarrow> bool" where
  "policy_rule_shape tool proposal \<longleftrightarrow>
     tool \<noteq> [] \<and> length tool \<le> approval_tool_max_chars
     \<and> proposal \<noteq> [] \<and> length proposal \<le> approval_proposal_max_chars"

definition parse_policy_rule :: "(jstr \<times> jstr) option \<Rightarrow> rule_problem + policy_rule" where
  "parse_policy_rule draft =
     (case draft of
        None \<Rightarrow> Inl Not_A_Rule
      | Some (tool, proposal) \<Rightarrow>
          if \<not> policy_rule_shape tool proposal then Inl Not_A_Rule
          else if js_trim tool = [] then Inl No_Tool
          else if js_trim proposal = [] then Inl No_Proposal
          else if tool \<noteq> js_trim tool then Inl Tool_Spaced
          else if c_star \<in> set tool then Inl Tool_Wildcard
          else if approval_proposal_max_chars \<le> length proposal then Inl Proposal_Cut
          else if tool \<noteq> displayable_text tool \<or> proposal \<noteq> displayable_text proposal
               then Inl Rule_Undisplayable
          else Inr \<lparr>pl_tool = tool, pl_proposal = proposal\<rparr>)"

definition rule_matches :: "policy_rule \<Rightarrow> jstr \<Rightarrow> jstr \<Rightarrow> bool" where
  "rule_matches r tool proposal \<longleftrightarrow> pl_tool r = tool \<and> pl_proposal r = proposal"

section \<open>The table\<close>

record policy_row =
  pw_id :: jstr
  pw_node :: jstr
  pw_tool :: jstr
  pw_proposal :: jstr
  pw_created :: int

record policy_db =
  pd_projects :: "jstr list"
  pd_rows :: "policy_row list"
  pd_minted :: nat
  pd_adding :: "(jstr \<times> policy_rule) list"

record policy_record =
  rec_id :: jstr
  rec_project :: jstr
  rec_rule :: policy_rule
  rec_created :: int

text \<open>\<open>storedRowSchema\<close>, then the rule's own parser, then the owner.\<close>

definition stored_row_ok :: "policy_row \<Rightarrow> bool" where
  "stored_row_ok w \<longleftrightarrow> opaque_id (pw_id w) \<and> pw_node w \<noteq> [] \<and> pw_tool w \<noteq> [] \<and> pw_proposal w \<noteq> []
     \<and> length (pw_proposal w) \<le> approval_proposal_max_chars \<and> 0 \<le> pw_created w"

definition read_row :: "policy_row \<Rightarrow> policy_record option" where
  "read_row w =
     (if \<not> stored_row_ok w then None
      else (case parse_policy_rule (Some (pw_tool w, pw_proposal w)) of
              Inl problem \<Rightarrow> None
            | Inr r \<Rightarrow>
                if \<not> opaque_id (pw_node w) then None
                else Some \<lparr>rec_id = pw_id w, rec_project = pw_node w, rec_rule = r, rec_created = pw_created w\<rparr>))"

definition read_policy :: "policy_db \<Rightarrow> jstr \<Rightarrow> policy_record list" where
  "read_policy db project =
     List.map_filter read_row
       (sort_key (\<lambda>w. (pw_created w, pw_id w)) (filter (\<lambda>w. pw_node w = project) (pd_rows db)))"

text \<open>\<open>INSERT \<dots> ON CONFLICT DO NOTHING\<close>; \<open>None\<close> is the engine's refusal, which is thrown.\<close>

definition same_rule :: "policy_row \<Rightarrow> policy_row \<Rightarrow> bool" where
  "same_rule v w \<longleftrightarrow> pw_node v = pw_node w \<and> pw_tool v = pw_tool w \<and> pw_proposal v = pw_proposal w"

definition insert_rule :: "policy_row \<Rightarrow> policy_db \<Rightarrow> policy_db option" where
  "insert_rule w db =
     (if pw_id w \<in> pw_id ` set (pd_rows db) then None
      else if list_ex (same_rule w) (pd_rows db) then Some db
      else if pw_node w \<notin> set (pd_projects db) then None
      else Some (db\<lparr>pd_rows := pd_rows db @ [w]\<rparr>))"

section \<open>Operations\<close>

datatype policy_outcome =
    Rule_Written jstr | Rule_Refused rule_problem | Policy_Full | No_Such_Project_Node | Not_Read_Back

definition covering :: "policy_rule \<Rightarrow> policy_record list \<Rightarrow> policy_record option" where
  "covering r records = find (\<lambda>kept. rule_matches (rec_rule kept) (pl_tool r) (pl_proposal r)) records"

text \<open>
  \<open>add\<close> awaits the database three times, and another client's call may run at each: \<open>check_add\<close> is the
  parse, the read and the bound; \<open>write_add\<close> mints the id and inserts; \<open>answer_add\<close> reads back.
  \<open>add_rule\<close> is the three with nothing in between.
\<close>

definition check_add :: "jstr \<Rightarrow> (jstr \<times> jstr) option \<Rightarrow> policy_db \<Rightarrow> policy_outcome + policy_rule" where
  "check_add project draft db =
     (case parse_policy_rule draft of
        Inl problem \<Rightarrow> Inl (Rule_Refused problem)
      | Inr r \<Rightarrow>
          (let held = read_policy db project
           in if approval_policy_rules_max \<le> length held \<and> covering r held = None then Inl Policy_Full
              else Inr r))"

definition write_add ::
    "(nat \<Rightarrow> jstr) \<Rightarrow> jstr \<Rightarrow> policy_rule \<Rightarrow> nat \<Rightarrow> policy_db \<Rightarrow> policy_db \<times> bool" where
  "write_add ids project r now db =
     (let db1 = db\<lparr>pd_minted := pd_minted db + 1\<rparr>;
          w = \<lparr>pw_id = ids (pd_minted db), pw_node = project, pw_tool = pl_tool r,
               pw_proposal = pl_proposal r, pw_created = int now\<rparr>
      in case insert_rule w db1 of None \<Rightarrow> (db1, False) | Some db2 \<Rightarrow> (db2, True))"

definition answer_add :: "jstr \<Rightarrow> policy_rule \<Rightarrow> policy_db \<Rightarrow> policy_outcome" where
  "answer_add project r db =
     (case covering r (read_policy db project) of
        None \<Rightarrow> Not_Read_Back | Some kept \<Rightarrow> Rule_Written (rec_id kept))"

definition add_rule ::
    "(nat \<Rightarrow> jstr) \<Rightarrow> jstr \<Rightarrow> (jstr \<times> jstr) option \<Rightarrow> nat \<Rightarrow> policy_db \<Rightarrow> policy_db \<times> policy_outcome" where
  "add_rule ids project draft now db =
     (case check_add project draft db of
        Inl refusal \<Rightarrow> (db, refusal)
      | Inr r \<Rightarrow>
          (case write_add ids project r now db of
             (db2, written) \<Rightarrow> (db2, if written then answer_add project r db2 else No_Such_Project_Node)))"

definition remove_rule :: "jstr \<Rightarrow> jstr \<Rightarrow> policy_db \<Rightarrow> policy_db \<times> bool" where
  "remove_rule project rule_id db =
     (if \<not> list_ex (\<lambda>w. pw_id w = rule_id \<and> pw_node w = project) (pd_rows db) then (db, False)
      else (db\<lparr>pd_rows := filter (\<lambda>w. \<not> (pw_id w = rule_id \<and> pw_node w = project)) (pd_rows db)\<rparr>, True))"

text \<open>The session's project, where asking for it may throw, and whether the read of the table succeeds.\<close>

datatype project_answer = Project_Threw | In_Project jstr | In_No_Project

record policy_grant =
  pg_project :: jstr
  pg_rule_id :: jstr
  pg_rule :: policy_rule

definition grant_for ::
    "project_answer \<Rightarrow> bool \<Rightarrow> policy_db \<Rightarrow> jstr \<Rightarrow> jstr \<Rightarrow> policy_grant option" where
  "grant_for answer readable db tool proposal =
     (case answer of
        Project_Threw \<Rightarrow> None
      | In_No_Project \<Rightarrow> None
      | In_Project project \<Rightarrow>
          if \<not> readable then None
          else (case find (\<lambda>kept. rule_matches (rec_rule kept) tool proposal) (read_policy db project) of
                  None \<Rightarrow> None
                | Some kept \<Rightarrow>
                    Some \<lparr>pg_project = project, pg_rule_id = rec_id kept, pg_rule = rec_rule kept\<rparr>))"

text \<open>The projects come and go beside the policy; a project's rows go with it (\<open>ON DELETE CASCADE\<close>).\<close>

text \<open>An add that passed its check is in flight until it writes; \<open>Add_Writes k\<close> is the \<open>k\<close>-th one's insert.\<close>

datatype policy_event =
    Add_Checks jstr "(jstr \<times> jstr) option"
  | Add_Writes nat nat
  | Remove_Rule jstr jstr
  | Project_Made jstr
  | Project_Removed jstr

fun policy_step :: "(nat \<Rightarrow> jstr) \<Rightarrow> policy_db \<Rightarrow> policy_event \<Rightarrow> policy_db" where
  "policy_step ids db (Add_Checks project draft) =
     (case check_add project draft db of
        Inl refusal \<Rightarrow> db
      | Inr r \<Rightarrow> db\<lparr>pd_adding := pd_adding db @ [(project, r)]\<rparr>)"
| "policy_step ids db (Add_Writes k now) =
     (if k < length (pd_adding db)
      then (case pd_adding db ! k of
              (project, r) \<Rightarrow>
                fst (write_add ids project r now
                  (db\<lparr>pd_adding := take k (pd_adding db) @ drop (Suc k) (pd_adding db)\<rparr>)))
      else db)"
| "policy_step ids db (Remove_Rule project rule_id) = fst (remove_rule project rule_id db)"
| "policy_step ids db (Project_Made project) =
     (if opaque_id project then db\<lparr>pd_projects := set_add project (pd_projects db)\<rparr> else db)"
| "policy_step ids db (Project_Removed project) =
     db\<lparr>pd_projects := removeAll project (pd_projects db),
        pd_rows := filter (\<lambda>w. pw_node w \<noteq> project) (pd_rows db)\<rparr>"

definition empty_policy :: policy_db where
  "empty_policy = \<lparr>pd_projects = [], pd_rows = [], pd_minted = 0, pd_adding = []\<rparr>"

definition policy_run :: "(nat \<Rightarrow> jstr) \<Rightarrow> policy_event list \<Rightarrow> policy_db" where
  "policy_run ids es = run (policy_step ids) empty_policy es"

section \<open>A table any hand may have written in\<close>

lemma parse_policy_rule_text:
  "parse_policy_rule (Some (tool, proposal)) = Inr r \<Longrightarrow>
     r = \<lparr>pl_tool = tool, pl_proposal = proposal\<rparr> \<and> length proposal < approval_proposal_max_chars
     \<and> js_trim tool = tool \<and> tool \<noteq> [] \<and> c_star \<notin> set tool \<and> js_trim proposal \<noteq> []
     \<and> displayable_text tool = tool \<and> displayable_text proposal = proposal"
  by (auto simp: parse_policy_rule_def policy_rule_shape_def split: if_splits)

lemma read_row_fields:
  "read_row w = Some kept \<Longrightarrow>
     rec_id kept = pw_id w \<and> rec_project kept = pw_node w
     \<and> rec_rule kept = \<lparr>pl_tool = pw_tool w, pl_proposal = pw_proposal w\<rparr>"
  by (auto simp: read_row_def dest: parse_policy_rule_text split: if_splits sum.splits)

lemma in_map_filter: "y \<in> set (List.map_filter f xs) \<longleftrightarrow> (\<exists>x \<in> set xs. f x = Some y)"
  by (induction xs) (auto simp: List.map_filter_def)

lemma in_read_policy:
  "kept \<in> set (read_policy db project) \<longleftrightarrow>
     (\<exists>w \<in> set (pd_rows db). pw_node w = project \<and> read_row w = Some kept)"
  by (auto simp: read_policy_def in_map_filter)

lemma grant_sound:
  assumes g: "grant_for answer readable db tool proposal = Some g"
  obtains w r where "answer = In_Project (pg_project g)" and "readable"
    and "g = \<lparr>pg_project = pw_node w, pg_rule_id = pw_id w, pg_rule = \<lparr>pl_tool = tool, pl_proposal = proposal\<rparr>\<rparr>"
    and "w \<in> set (pd_rows db)" and "pw_tool w = tool" and "pw_proposal w = proposal"
    and "parse_policy_rule (Some (tool, proposal)) = Inr r"
proof -
  obtain project kept where a: "answer = In_Project project" "readable"
      and r: "kept \<in> set (read_policy db project)" "rule_matches (rec_rule kept) tool proposal"
      and g1: "g = \<lparr>pg_project = project, pg_rule_id = rec_id kept, pg_rule = rec_rule kept\<rparr>"
    using g by (auto simp: grant_for_def dest!: find_Some_in split: project_answer.splits option.splits if_splits)
  obtain w where w: "w \<in> set (pd_rows db)" "pw_node w = project" "read_row w = Some kept"
    using r(1) by (auto simp: in_read_policy)
  have words: "pw_tool w = tool" "pw_proposal w = proposal"
    using r(2) read_row_fields [OF w(3)] by (auto simp: rule_matches_def)
  obtain r1 where "parse_policy_rule (Some (pw_tool w, pw_proposal w)) = Inr r1"
    using w(3) by (auto simp: read_row_def split: if_splits sum.splits)
  then show thesis
    using that [of w r1] a w words g1 read_row_fields [OF w(3)] by simp
qed

lemma grant_complete:
  assumes "w \<in> set (pd_rows db)" and "read_row w \<noteq> None"
  shows "grant_for (In_Project (pw_node w)) True db (pw_tool w) (pw_proposal w) \<noteq> None"
proof -
  obtain kept where kept: "read_row w = Some kept" using assms(2) by auto
  then have "kept \<in> set (read_policy db (pw_node w))" and "rule_matches (rec_rule kept) (pw_tool w) (pw_proposal w)"
    using assms(1) read_row_fields [OF kept] by (auto simp: in_read_policy rule_matches_def)
  then have "find (\<lambda>kept. rule_matches (rec_rule kept) (pw_tool w) (pw_proposal w)) (read_policy db (pw_node w)) \<noteq> None"
    by (metis find_None_iff)
  then show ?thesis by (auto simp: grant_for_def)
qed

text \<open>
  Claim C20: a standing grant is exact, and every doubt is a question.  A grant is given only when the
  session's project is known and its rules could be read, only by a row of that very project, and only
  for the tool and the whole proposal of that row, text for text; a text a grant covers is shorter than
  the bound a cut proposal fills, names a tool without a wildcard and carries no character a person could
  not see.  And a readable row with that text in that project is enough.
\<close>

theorem grant_is_exact:
  "(\<forall>g. grant_for answer readable db tool proposal = Some g \<longrightarrow>
        answer = In_Project (pg_project g) \<and> readable
        \<and> pg_rule g = \<lparr>pl_tool = tool, pl_proposal = proposal\<rparr>
        \<and> (\<exists>w \<in> set (pd_rows db). pw_id w = pg_rule_id g \<and> pw_node w = pg_project g
              \<and> pw_tool w = tool \<and> pw_proposal w = proposal)
        \<and> length proposal < 4000 \<and> js_trim tool = tool \<and> c_star \<notin> set tool
        \<and> displayable_text tool = tool \<and> displayable_text proposal = proposal)
   \<and> (\<forall>w \<in> set (pd_rows db). readable \<and> answer = In_Project (pw_node w) \<and> read_row w \<noteq> None
        \<and> pw_tool w = tool \<and> pw_proposal w = proposal
        \<longrightarrow> grant_for answer readable db tool proposal \<noteq> None)"
proof (intro conjI allI impI ballI)
  fix g assume g: "grant_for answer readable db tool proposal = Some g"
  obtain w r where f: "answer = In_Project (pg_project g)" "readable"
      "g = \<lparr>pg_project = pw_node w, pg_rule_id = pw_id w, pg_rule = \<lparr>pl_tool = tool, pl_proposal = proposal\<rparr>\<rparr>"
      "w \<in> set (pd_rows db)" "pw_tool w = tool" "pw_proposal w = proposal"
      and r: "parse_policy_rule (Some (tool, proposal)) = Inr r"
    using grant_sound [OF g] by metis
  show "answer = In_Project (pg_project g)" "readable" using f by simp_all
  show "pg_rule g = \<lparr>pl_tool = tool, pl_proposal = proposal\<rparr>" using f by simp
  show "\<exists>w \<in> set (pd_rows db). pw_id w = pg_rule_id g \<and> pw_node w = pg_project g \<and> pw_tool w = tool \<and> pw_proposal w = proposal"
    using f by auto
  show "length proposal < 4000" "js_trim tool = tool" "c_star \<notin> set tool"
    "displayable_text tool = tool" "displayable_text proposal = proposal"
    using parse_policy_rule_text [OF r] by (simp_all add: approval_proposal_max_chars_def)
next
  fix w assume "w \<in> set (pd_rows db)"
    and "readable \<and> answer = In_Project (pw_node w) \<and> read_row w \<noteq> None \<and> pw_tool w = tool \<and> pw_proposal w = proposal"
  then show "grant_for answer readable db tool proposal \<noteq> None" using grant_complete [of w db] by auto
qed

theorem grant_is_exact_witness:
  "grant_for (In_Project [7]) True
     \<lparr>pd_projects = [[7]], pd_rows = [\<lparr>pw_id = [1], pw_node = [7], pw_tool = js ''Bash'', pw_proposal = js ''ls'', pw_created = 5\<rparr>],
      pd_minted = 1, pd_adding = []\<rparr> (js ''Bash'') (js ''ls'') \<noteq> None
   \<and> grant_for (In_Project [7]) True
     \<lparr>pd_projects = [[7]], pd_rows = [\<lparr>pw_id = [1], pw_node = [7], pw_tool = js ''Bash'', pw_proposal = js ''ls'', pw_created = 5\<rparr>],
      pd_minted = 1, pd_adding = []\<rparr> (js ''Bash'') (js ''ls -a'') = None"
  (is "?one \<and> ?two")
proof
  let ?w = "\<lparr>pw_id = [1], pw_node = [7], pw_tool = js ''Bash'', pw_proposal = js ''ls'', pw_created = 5\<rparr>"
  have "read_row ?w \<noteq> None"
    by (simp add: read_row_def stored_row_ok_def opaque_id_def parse_policy_rule_def policy_rule_shape_def
        approval_proposal_max_chars_def approval_tool_max_chars_def js_def js_trim_def ws_char_def
        displayable_text_def control_char_def bidi_char_def)
  then show ?one
    using grant_is_exact [of "In_Project [7]" True "\<lparr>pd_projects = [[7]], pd_rows = [?w], pd_minted = 1, pd_adding = []\<rparr>" "js ''Bash''" "js ''ls''"]
    by simp
  show ?two
    using grant_is_exact [of "In_Project [7]" True "\<lparr>pd_projects = [[7]], pd_rows = [?w], pd_minted = 1, pd_adding = []\<rparr>" "js ''Bash''" "js ''ls -a''"]
    by (cases "grant_for (In_Project [7]) True \<lparr>pd_projects = [[7]], pd_rows = [?w], pd_minted = 1, pd_adding = []\<rparr> (js ''Bash'') (js ''ls -a'')") simp_all
qed

end
