(* ===== verification/Hub_Approvals.thy ===== *)
theory Hub_Approvals
  imports Approval_Gate Approval_Policy
begin

text \<open>
  \<open>apps/hub/src/approvals/approvals.ts\<close>: the requests a hub holds open, answered once.

  The state holds the two maps \<open>createApprovals\<close> closes over.  An entry of the code is an object with an
  identity, which two awaits compare; it is \<open>oa_serial\<close> here.  What the file awaits is in flight in the
  state: the reads of the standing policy (\<open>hb_consulting\<close>) and the decisions put to machines
  (\<open>hb_dispatching\<close>), each continued by an event.  A call of \<open>decide\<close> is known by its number, and the
  promises it and \<open>requestedByHub\<close> return are settled in the logs \<open>hb_answers\<close> and \<open>hb_resolved\<close>.
  \<open>hb_rows\<close> logs what \<open>announce\<close> told the fleet state, oldest first.  Map keys are the subjects
  themselves: the JSON text of their ids is one for one with them.
\<close>

section \<open>State\<close>

datatype subject =
    Session_Subject jstr jstr
  | Run_Subject jstr jstr

record run_about =
  ab_graph :: jstr
  ab_number :: nat
  ab_label :: jstr

text \<open>\<open>Hub_Origin\<close> carries the number of the ask whose promise \<open>resolve\<close> settles.\<close>

datatype origin =
    Machine jstr
  | Hub_Origin run_about nat

record open_approval =
  oa_serial :: nat
  oa_subject :: subject
  oa_request :: approval_request
  oa_requested_at :: nat
  oa_answered_by :: "policy_grant option"
  oa_origin :: origin
  oa_claimed :: bool
  oa_waiting :: "nat list"
  oa_by_policy :: "policy_grant option"

text \<open>A pending approval as a client reads it.\<close>

record pending_row =
  pr_request :: approval_request
  pr_subject :: subject
  pr_requested_at :: nat
  pr_answered_by :: "policy_grant option"

definition row_of :: "open_approval \<Rightarrow> pending_row" where
  "row_of e = \<lparr>pr_request = oa_request e, pr_subject = oa_subject e, pr_requested_at = oa_requested_at e,
     pr_answered_by = oa_answered_by e\<rparr>"

datatype announcement =
    Session_Row jstr jstr "pending_row list"
  | Runs_Waiting "(run_about \<times> pending_row) list"

datatype answer_words =
    No_Such_Approval subject
  | Is_Already approval_outcome
  | Was_Answered approval_outcome
  | Not_Put jstr jstr

datatype approval_answer =
    Applied approval_outcome "policy_grant option"
  | Not_Applied "approval_outcome option" "policy_grant option" answer_words

record put_decision =
  pd_serial :: nat
  pd_call :: nat
  pd_subject :: subject
  pd_id :: approval_id
  pd_machine :: jstr
  pd_decision :: approval_decision

type_synonym held = "(approval_id \<times> open_approval) list"

record approvals =
  hb_open :: "(subject \<times> held) list"
  hb_endings :: "((subject \<times> approval_id) \<times> approval_outcome) list"
  hb_minted :: nat
  hb_calls :: nat
  hb_asks :: nat
  hb_consulting :: "(nat \<times> subject \<times> approval_id) list"
  hb_dispatching :: "put_decision list"
  hb_dispatched :: "put_decision list"
  hb_refused :: "nat list"
  hb_answers :: "(nat \<times> nat option \<times> approval_answer) list"
  hb_resolved :: "(nat \<times> approval_outcome) list"
  hb_rows :: "announcement list"

definition create_approvals :: approvals where
  "create_approvals = \<lparr>hb_open = [], hb_endings = [], hb_minted = 0, hb_calls = 0, hb_asks = 0,
     hb_consulting = [], hb_dispatching = [], hb_dispatched = [], hb_refused = [], hb_answers = [],
     hb_resolved = [], hb_rows = []\<rparr>"

section \<open>Telling the fleet\<close>

definition held_of :: "approvals \<Rightarrow> subject \<Rightarrow> held" where
  "held_of h s = (case map_of (hb_open h) s of None \<Rightarrow> [] | Some m \<Rightarrow> m)"

definition lookup_open :: "approvals \<Rightarrow> subject \<Rightarrow> approval_id \<Rightarrow> open_approval option" where
  "lookup_open h s i = map_of (held_of h s) i"

definition all_entries :: "approvals \<Rightarrow> open_approval list" where
  "all_entries h = concat (map (\<lambda>(s, m). map snd m) (hb_open h))"

fun run_row :: "open_approval \<Rightarrow> (run_about \<times> pending_row) option" where
  "run_row e = (case (oa_origin e, oa_subject e) of
      (Hub_Origin about ask, Run_Subject r n) \<Rightarrow> Some (about, row_of e)
    | _ \<Rightarrow> None)"

definition runs_waiting :: "approvals \<Rightarrow> (run_about \<times> pending_row) list" where
  "runs_waiting h = sort_key (\<lambda>(about, r). pr_requested_at r) (List.map_filter run_row (all_entries h))"

definition session_row :: "approvals \<Rightarrow> subject \<Rightarrow> pending_row list" where
  "session_row h s = map (\<lambda>(i, e). row_of e) (held_of h s)"

definition announce :: "subject \<Rightarrow> approvals \<Rightarrow> approvals" where
  "announce s h = h\<lparr>hb_rows := hb_rows h @
     [case s of
        Session_Subject store session \<Rightarrow> Session_Row store session (session_row h s)
      | Run_Subject r n \<Rightarrow> Runs_Waiting (runs_waiting h)]\<rparr>"

section \<open>Ending one request\<close>

definition hub_endings_remembered :: nat where "hub_endings_remembered = 256"

definition remember_ending :: "subject \<Rightarrow> approval_id \<Rightarrow> approval_outcome \<Rightarrow> approvals \<Rightarrow> approvals" where
  "remember_ending s i outcome h =
     (let m = AList.update (s, i) outcome (hb_endings h)
      in h\<lparr>hb_endings := drop (length m - hub_endings_remembered) m\<rparr>)"

definition put_entry :: "open_approval \<Rightarrow> approvals \<Rightarrow> approvals" where
  "put_entry e h =
     (let s = oa_subject e
      in h\<lparr>hb_open := AList.update s (AList.update (ar_id (oa_request e)) e (held_of h s)) (hb_open h)\<rparr>)"

definition drop_entry :: "open_approval \<Rightarrow> approvals \<Rightarrow> approvals" where
  "drop_entry e h =
     (let s = oa_subject e;
          m = AList.delete (ar_id (oa_request e)) (held_of h s)
      in h\<lparr>hb_open := (if m = [] then AList.delete s (hb_open h) else AList.update s m (hb_open h))\<rparr>)"

text \<open>The first waiter is the one whose decision was sent.\<close>

definition ending_answer :: "open_approval \<Rightarrow> approval_outcome \<Rightarrow> nat \<Rightarrow> approval_answer" where
  "ending_answer e outcome index =
     (if index = 0 \<and> (outcome = Granted \<or> outcome = Denied) then Applied outcome (oa_by_policy e)
      else Not_Applied (Some outcome) (oa_by_policy e)
        (if index = 0 then Is_Already outcome else Was_Answered outcome))"

definition end_answers :: "open_approval \<Rightarrow> approval_outcome \<Rightarrow> (nat \<times> nat option \<times> approval_answer) list" where
  "end_answers e outcome =
     map (\<lambda>(index, call). (call, Some (oa_serial e), ending_answer e outcome index)) (enumerate 0 (oa_waiting e))"

definition end_approval :: "open_approval \<Rightarrow> approval_outcome \<Rightarrow> approvals \<Rightarrow> approvals" where
  "end_approval e outcome h =
     (let h1 = remember_ending (oa_subject e) (ar_id (oa_request e)) outcome (drop_entry e h);
          h2 = (case oa_origin e of
                  Machine m \<Rightarrow> h1
                | Hub_Origin about ask \<Rightarrow> h1\<lparr>hb_resolved := hb_resolved h1 @ [(ask, outcome)]\<rparr>)
      in announce (oa_subject e) (h2\<lparr>hb_answers := hb_answers h2 @ end_answers e outcome\<rparr>))"

text \<open>The loops over a copy of the open requests: a reference is looked up when its turn comes.\<close>

definition end_where :: "(open_approval \<Rightarrow> bool) \<Rightarrow> approvals \<Rightarrow> approvals" where
  "end_where P h =
     foldl (\<lambda>h e. case lookup_open h (oa_subject e) (ar_id (oa_request e)) of
                    None \<Rightarrow> h
                  | Some e \<Rightarrow> if P e then end_approval e Withdrawn h else h)
       h (all_entries h)"

section \<open>Deciding\<close>

definition answer_call :: "nat \<Rightarrow> approval_answer \<Rightarrow> approvals \<Rightarrow> approvals" where
  "answer_call call a h = h\<lparr>hb_answers := hb_answers h @ [(call, None, a)]\<rparr>"

text \<open>\<open>decide\<close>: the call takes a number, waits on the request, and claims it if nobody has.\<close>

definition decide_request :: "subject \<Rightarrow> approval_id \<Rightarrow> approval_decision \<Rightarrow> approvals \<Rightarrow> approvals" where
  "decide_request s i decision h0 =
     (let call = hb_calls h0; h = h0\<lparr>hb_calls := hb_calls h0 + 1\<rparr>
      in case lookup_open h s i of
           None \<Rightarrow>
             (case map_of (hb_endings h) (s, i) of
                None \<Rightarrow> answer_call call (Not_Applied None None (No_Such_Approval s)) h
              | Some remembered \<Rightarrow> answer_call call (Not_Applied (Some remembered) None (Is_Already remembered)) h)
         | Some e \<Rightarrow>
             (let e1 = e\<lparr>oa_waiting := oa_waiting e @ [call]\<rparr>
              in if oa_claimed e then put_entry e1 h
                 else
                   (let e2 = e1\<lparr>oa_claimed := True\<rparr>
                    in case oa_origin e of
                         Hub_Origin about ask \<Rightarrow>
                           end_approval e2 (settlement_of decision) (put_entry e2 h)
                       | Machine m \<Rightarrow>
                           (let put = \<lparr>pd_serial = oa_serial e, pd_call = call, pd_subject = s, pd_id = i,
                                       pd_machine = m, pd_decision = decision\<rparr>
                            in (put_entry e2 h)\<lparr>hb_dispatching := hb_dispatching h @ [put],
                                                hb_dispatched := hb_dispatched h @ [put]\<rparr>))))"

text \<open>What came back about a decision put to a machine: silence, a refusal, or the hub's own failure.\<close>

datatype put_result = Put_Accepted | Put_Refused jstr jstr | Put_Threw jstr

definition refuse_dispatch :: "put_decision \<Rightarrow> jstr \<Rightarrow> jstr \<Rightarrow> approvals \<Rightarrow> approvals" where
  "refuse_dispatch put code problem h0 =
     (let h = h0\<lparr>hb_refused := hb_refused h0 @ [pd_serial put]\<rparr>
      in case lookup_open h (pd_subject put) (pd_id put) of
           None \<Rightarrow> h
         | Some e \<Rightarrow>
             if oa_serial e \<noteq> pd_serial put then h
             else
               (let e1 = e\<lparr>oa_claimed := False, oa_by_policy := None, oa_answered_by :=
                            (if oa_by_policy e \<noteq> None then None else oa_answered_by e), oa_waiting := []\<rparr>;
                    h1 = put_entry e1 h;
                    h2 = (if oa_by_policy e \<noteq> None then announce (oa_subject e) h1 else h1)
                in h2\<lparr>hb_answers := hb_answers h2 @
                      map (\<lambda>call. (call, Some (oa_serial e), Not_Applied None None (Not_Put code problem)))
                        (oa_waiting e)\<rparr>))"

definition drop_nth :: "nat \<Rightarrow> 'a list \<Rightarrow> 'a list" where
  "drop_nth k xs = take k xs @ drop (Suc k) xs"

definition dispatch_answers :: "nat \<Rightarrow> put_result \<Rightarrow> approvals \<Rightarrow> approvals" where
  "dispatch_answers k result h =
     (if \<not> k < length (hb_dispatching h) then h
      else
        (let put = hb_dispatching h ! k;
             h1 = h\<lparr>hb_dispatching := drop_nth k (hb_dispatching h)\<rparr>
         in case result of
              Put_Accepted \<Rightarrow> h1
            | Put_Refused code problem \<Rightarrow> refuse_dispatch put code problem h1
            | Put_Threw problem \<Rightarrow> refuse_dispatch put (js ''internal'') problem h1))"

section \<open>The standing policy\<close>

text \<open>\<open>consult\<close> up to its await, which a request that was cut never reaches.\<close>

definition consult :: "subject \<Rightarrow> approval_id \<Rightarrow> approvals \<Rightarrow> approvals" where
  "consult s i h =
     (case lookup_open h s i of
        None \<Rightarrow> h
      | Some e \<Rightarrow>
          if ar_truncated (oa_request e) then h
          else h\<lparr>hb_consulting := hb_consulting h @ [(oa_serial e, s, i)]\<rparr>)"

text \<open>\<open>consult\<close> after its await; a policy that threw is \<open>None\<close> too.\<close>

definition policy_answers :: "nat \<Rightarrow> policy_grant option \<Rightarrow> approvals \<Rightarrow> approvals" where
  "policy_answers k grant h0 =
     (if \<not> k < length (hb_consulting h0) then h0
      else
        (case hb_consulting h0 ! k of (serial, s, i) \<Rightarrow>
           (let h = h0\<lparr>hb_consulting := drop_nth k (hb_consulting h0)\<rparr>
            in case grant of
                 None \<Rightarrow> h
               | Some g \<Rightarrow>
                   (case lookup_open h s i of
                      None \<Rightarrow> h
                    | Some e \<Rightarrow>
                        if oa_serial e \<noteq> serial \<or> oa_claimed e then h
                        else decide_request s i Grant
                               (announce s (put_entry (e\<lparr>oa_by_policy := Some g, oa_answered_by := Some g\<rparr>) h))))))"

section \<open>What machines and runs say\<close>

definition fresh_entry :: "subject \<Rightarrow> approval_request \<Rightarrow> nat \<Rightarrow> origin \<Rightarrow> nat \<Rightarrow> open_approval" where
  "fresh_entry s request now from serial =
     \<lparr>oa_serial = serial, oa_subject = s, oa_request = request, oa_requested_at = now, oa_answered_by = None,
      oa_origin = from, oa_claimed = False, oa_waiting = [], oa_by_policy = None\<rparr>"

definition requested :: "jstr \<Rightarrow> jstr \<Rightarrow> jstr \<Rightarrow> approval_request \<Rightarrow> nat \<Rightarrow> approvals \<Rightarrow> approvals" where
  "requested source store session request now h =
     (let s = Session_Subject store session
      in case lookup_open h s (ar_id request) of
           Some e \<Rightarrow> h
         | None \<Rightarrow>
             consult s (ar_id request)
               (announce s
                 ((put_entry (fresh_entry s request now (Machine source) (hb_minted h)) h)
                    \<lparr>hb_minted := hb_minted h + 1\<rparr>)))"

definition held_by :: "jstr \<Rightarrow> jstr \<Rightarrow> jstr \<Rightarrow> approval_id \<Rightarrow> approvals \<Rightarrow> open_approval option" where
  "held_by source store session i h =
     (case lookup_open h (Session_Subject store session) i of
        None \<Rightarrow> None
      | Some e \<Rightarrow> (case oa_origin e of
                      Machine m \<Rightarrow> if m = source then Some e else None
                    | Hub_Origin about ask \<Rightarrow> None))"

text \<open>\<open>withdrawn\<close> and \<open>settled\<close>: the frame of one machine about one of its requests.\<close>

definition machine_says ::
    "jstr \<Rightarrow> jstr \<Rightarrow> jstr \<Rightarrow> approval_id \<Rightarrow> approval_outcome \<Rightarrow> approvals \<Rightarrow> approvals" where
  "machine_says source store session i outcome h =
     (case held_by source store session i h of None \<Rightarrow> h | Some e \<Rightarrow> end_approval e outcome h)"

definition server_gone :: "jstr \<Rightarrow> approvals \<Rightarrow> approvals" where
  "server_gone source h = end_where (\<lambda>e. oa_origin e = Machine source) h"

definition requested_by_hub ::
    "jstr \<Rightarrow> jstr \<Rightarrow> approval_request \<Rightarrow> run_about \<Rightarrow> nat \<Rightarrow> approvals \<Rightarrow> approvals" where
  "requested_by_hub r n request about now h0 =
     (let s = Run_Subject r n; ask = hb_asks h0; h = h0\<lparr>hb_asks := hb_asks h0 + 1\<rparr>
      in case lookup_open h s (ar_id request) of
           Some e \<Rightarrow> h\<lparr>hb_resolved := hb_resolved h @ [(ask, Withdrawn)]\<rparr>
         | None \<Rightarrow>
             announce s
               ((put_entry (fresh_entry s request now (Hub_Origin about ask) (hb_minted h)) h)
                  \<lparr>hb_minted := hb_minted h + 1\<rparr>))"

fun of_run :: "jstr \<Rightarrow> open_approval \<Rightarrow> bool" where
  "of_run r e = (case (oa_origin e, oa_subject e) of
      (Hub_Origin about ask, Run_Subject r' n) \<Rightarrow> r' = r
    | _ \<Rightarrow> False)"

definition withdrawn_by_hub :: "jstr \<Rightarrow> approvals \<Rightarrow> approvals" where
  "withdrawn_by_hub r h = end_where (of_run r) h"

definition withdrawn_one_by_hub :: "jstr \<Rightarrow> jstr \<Rightarrow> approval_id \<Rightarrow> approvals \<Rightarrow> approvals" where
  "withdrawn_one_by_hub r n i h =
     (case lookup_open h (Run_Subject r n) i of
        None \<Rightarrow> h
      | Some e \<Rightarrow> (case oa_origin e of Machine m \<Rightarrow> h | Hub_Origin about ask \<Rightarrow> end_approval e Withdrawn h))"

section \<open>The machine\<close>

datatype hub_event =
    Machine_Asks jstr jstr jstr approval_request nat
  | Machine_Says jstr jstr jstr approval_id approval_outcome
  | Server_Gone jstr
  | Client_Decides subject approval_id approval_decision
  | Dispatch_Answers nat put_result
  | Policy_Answers nat "policy_grant option"
  | Run_Asks jstr jstr approval_request run_about nat
  | Run_Stops jstr
  | Step_Stops jstr jstr approval_id

fun hub_step :: "approvals \<Rightarrow> hub_event \<Rightarrow> approvals" where
  "hub_step h (Machine_Asks source store session request now) = requested source store session request now h"
| "hub_step h (Machine_Says source store session i outcome) = machine_says source store session i outcome h"
| "hub_step h (Server_Gone source) = server_gone source h"
| "hub_step h (Client_Decides s i decision) = decide_request s i decision h"
| "hub_step h (Dispatch_Answers k result) = dispatch_answers k result h"
| "hub_step h (Policy_Answers k grant) = policy_answers k grant h"
| "hub_step h (Run_Asks r n request about now) = requested_by_hub r n request about now h"
| "hub_step h (Run_Stops r) = withdrawn_by_hub r h"
| "hub_step h (Step_Stops r n i) = withdrawn_one_by_hub r n i h"

definition hub_run :: "hub_event list \<Rightarrow> approvals" where
  "hub_run es = run hub_step create_approvals es"

end
