(* ===== verification/Hub_Entries.thy ===== *)
theory Hub_Entries
  imports Hub_Approvals "HOL-Library.Multiset"
begin

text \<open>
  The open requests of \<open>Hub_Approvals\<close> read three ways: as one map from a subject and an id to the entry,
  as a multiset of entries, and as the calls that wait on them.
\<close>

section \<open>The open requests as one map\<close>

type_synonym open_key = "subject \<times> approval_id"

definition key_of :: "open_approval \<Rightarrow> open_key" where
  "key_of e = (oa_subject e, ar_id (oa_request e))"

definition entry_map :: "approvals \<Rightarrow> open_key \<Rightarrow> open_approval option" where
  "entry_map h k = lookup_open h (fst k) (snd k)"

lemma entry_map_lookup: "lookup_open h s i = entry_map h (s, i)"
  by (simp add: entry_map_def)

lemma key_update [simp]:
  "key_of (e\<lparr>oa_waiting := w\<rparr>) = key_of e" "key_of (e\<lparr>oa_claimed := c\<rparr>) = key_of e"
  "key_of (e\<lparr>oa_waiting := w, oa_claimed := c\<rparr>) = key_of e"
  "key_of (e\<lparr>oa_by_policy := g, oa_answered_by := g'\<rparr>) = key_of e"
  "key_of (e\<lparr>oa_claimed := c, oa_by_policy := g, oa_answered_by := g', oa_waiting := w\<rparr>) = key_of e"
  by (simp_all add: key_of_def)

lemma key_fresh [simp]: "key_of (fresh_entry s r now from n) = (s, ar_id r)"
  by (simp add: key_of_def fresh_entry_def)

text \<open>What the primitives leave alone.\<close>

lemma put_fields [simp]:
  "hb_endings (put_entry e h) = hb_endings h" "hb_minted (put_entry e h) = hb_minted h"
  "hb_calls (put_entry e h) = hb_calls h" "hb_asks (put_entry e h) = hb_asks h"
  "hb_consulting (put_entry e h) = hb_consulting h" "hb_dispatching (put_entry e h) = hb_dispatching h"
  "hb_dispatched (put_entry e h) = hb_dispatched h" "hb_refused (put_entry e h) = hb_refused h"
  "hb_answers (put_entry e h) = hb_answers h" "hb_resolved (put_entry e h) = hb_resolved h"
  "hb_rows (put_entry e h) = hb_rows h"
  by (simp_all add: put_entry_def Let_def)

lemma drop_fields [simp]:
  "hb_endings (drop_entry e h) = hb_endings h" "hb_minted (drop_entry e h) = hb_minted h"
  "hb_calls (drop_entry e h) = hb_calls h" "hb_asks (drop_entry e h) = hb_asks h"
  "hb_consulting (drop_entry e h) = hb_consulting h" "hb_dispatching (drop_entry e h) = hb_dispatching h"
  "hb_dispatched (drop_entry e h) = hb_dispatched h" "hb_refused (drop_entry e h) = hb_refused h"
  "hb_answers (drop_entry e h) = hb_answers h" "hb_resolved (drop_entry e h) = hb_resolved h"
  "hb_rows (drop_entry e h) = hb_rows h"
  by (simp_all add: drop_entry_def Let_def)

lemma announce_fields [simp]:
  "hb_open (announce s h) = hb_open h" "hb_endings (announce s h) = hb_endings h"
  "hb_minted (announce s h) = hb_minted h" "hb_calls (announce s h) = hb_calls h"
  "hb_asks (announce s h) = hb_asks h" "hb_consulting (announce s h) = hb_consulting h"
  "hb_dispatching (announce s h) = hb_dispatching h" "hb_dispatched (announce s h) = hb_dispatched h"
  "hb_refused (announce s h) = hb_refused h" "hb_answers (announce s h) = hb_answers h"
  "hb_resolved (announce s h) = hb_resolved h"
  by (simp_all add: announce_def)

lemma remember_fields [simp]:
  "hb_open (remember_ending s i r h) = hb_open h" "hb_minted (remember_ending s i r h) = hb_minted h"
  "hb_calls (remember_ending s i r h) = hb_calls h" "hb_asks (remember_ending s i r h) = hb_asks h"
  "hb_consulting (remember_ending s i r h) = hb_consulting h"
  "hb_dispatching (remember_ending s i r h) = hb_dispatching h"
  "hb_dispatched (remember_ending s i r h) = hb_dispatched h"
  "hb_refused (remember_ending s i r h) = hb_refused h" "hb_answers (remember_ending s i r h) = hb_answers h"
  "hb_resolved (remember_ending s i r h) = hb_resolved h" "hb_rows (remember_ending s i r h) = hb_rows h"
  by (simp_all add: remember_ending_def Let_def)

lemma held_update: "hb_open h = hb_open h' \<Longrightarrow> held_of h = held_of h'"
  by (simp add: held_of_def fun_eq_iff)

lemma entry_map_open: "hb_open h = hb_open h' \<Longrightarrow> entry_map h = entry_map h'"
  by (simp add: entry_map_def lookup_open_def held_of_def fun_eq_iff)

lemma entry_map_same [simp]:
  "entry_map (announce s h) = entry_map h" "entry_map (remember_ending s i r h) = entry_map h"
  "entry_map (h\<lparr>hb_calls := c\<rparr>) = entry_map h" "entry_map (h\<lparr>hb_answers := a\<rparr>) = entry_map h"
  "entry_map (h\<lparr>hb_minted := n\<rparr>) = entry_map h" "entry_map (h\<lparr>hb_asks := n\<rparr>) = entry_map h"
  "entry_map (h\<lparr>hb_resolved := r1\<rparr>) = entry_map h" "entry_map (h\<lparr>hb_refused := x\<rparr>) = entry_map h"
  "entry_map (h\<lparr>hb_consulting := q\<rparr>) = entry_map h" "entry_map (h\<lparr>hb_dispatching := d\<rparr>) = entry_map h"
  "entry_map (h\<lparr>hb_dispatching := d, hb_dispatched := d'\<rparr>) = entry_map h"
  by (rule entry_map_open, simp)+

lemma held_put: "held_of (put_entry e h) s =
    (if s = oa_subject e then AList.update (ar_id (oa_request e)) e (held_of h s) else held_of h s)"
  by (simp add: held_of_def put_entry_def Let_def)

lemma held_drop: "held_of (drop_entry e h) s =
    (if s = oa_subject e then AList.delete (ar_id (oa_request e)) (held_of h s) else held_of h s)"
  by (simp add: held_of_def drop_entry_def Let_def)

lemma entry_map_put [simp]: "entry_map (put_entry e h) = (entry_map h)(key_of e \<mapsto> e)"
  by (auto simp: entry_map_def lookup_open_def held_put key_of_def fun_eq_iff)

lemma entry_map_drop [simp]: "entry_map (drop_entry e h) = (entry_map h)(key_of e := None)"
  by (auto simp: entry_map_def lookup_open_def held_drop key_of_def fun_eq_iff)

text \<open>The nesting: no subject without a request, every entry under its own key.\<close>

definition held_ok :: "subject \<times> held \<Rightarrow> bool" where
  "held_ok x \<longleftrightarrow> snd x \<noteq> [] \<and> distinct (keys_of (snd x)) \<and> (\<forall>(i, e) \<in> set (snd x). key_of e = (fst x, i))"

definition hub_wf :: "approvals \<Rightarrow> bool" where
  "hub_wf h \<longleftrightarrow> distinct (keys_of (hb_open h)) \<and> (\<forall>x \<in> set (hb_open h). held_ok x)"

lemma hub_wf_held:
  assumes "hub_wf h"
  shows "distinct (keys_of (held_of h s))" and "(i, e) \<in> set (held_of h s) \<Longrightarrow> key_of e = (s, i)"
proof -
  have "held_of h s = [] \<or> held_ok (s, held_of h s)"
    using assms by (auto simp: hub_wf_def held_of_def split: option.split dest!: map_of_SomeD)
  then show "distinct (keys_of (held_of h s))" and "(i, e) \<in> set (held_of h s) \<Longrightarrow> key_of e = (s, i)"
    by (auto simp: held_ok_def)
qed

lemma set_update_subset: "set (AList.update k v m) \<subseteq> insert (k, v) (set m)"
  by (induction m) auto

lemma update_not_Nil [simp]: "AList.update k v m \<noteq> []"
  by (cases m) auto

lemma hub_wf_put:
  assumes "hub_wf h"
  shows "hub_wf (put_entry e h)"
proof -
  let ?m = "AList.update (ar_id (oa_request e)) e (held_of h (oa_subject e))"
  have "distinct (keys_of ?m)" using hub_wf_held(1) [OF assms] by (rule distinct_update)
  moreover have "\<forall>(i, f) \<in> set ?m. key_of f = (oa_subject e, i)"
    using set_update_subset [of "ar_id (oa_request e)" e "held_of h (oa_subject e)"]
      hub_wf_held(2) [OF assms, of _ _ "oa_subject e"] by (fastforce simp: key_of_def)
  ultimately have "held_ok (oa_subject e, ?m)" by (simp add: held_ok_def)
  moreover have "distinct (keys_of (AList.update (oa_subject e) ?m (hb_open h)))"
    using assms by (intro distinct_update) (simp add: hub_wf_def)
  ultimately show ?thesis
    using assms set_update_subset [of "oa_subject e" ?m "hb_open h"]
    unfolding hub_wf_def put_entry_def Let_def by auto
qed

lemma hub_wf_drop:
  assumes "hub_wf h"
  shows "hub_wf (drop_entry e h)"
proof -
  let ?m = "AList.delete (ar_id (oa_request e)) (held_of h (oa_subject e))"
  have "distinct (keys_of ?m)" using hub_wf_held(1) [OF assms] by (rule distinct_delete)
  moreover have "\<forall>(i, f) \<in> set ?m. key_of f = (oa_subject e, i)"
    using set_delete_subset [of "ar_id (oa_request e)" "held_of h (oa_subject e)"]
      hub_wf_held(2) [OF assms, of _ _ "oa_subject e"] by blast
  ultimately have "?m \<noteq> [] \<Longrightarrow> held_ok (oa_subject e, ?m)" by (simp add: held_ok_def)
  moreover have "distinct (keys_of (AList.update (oa_subject e) ?m (hb_open h)))"
    "distinct (keys_of (AList.delete (oa_subject e) (hb_open h)))"
    using assms by (auto simp: hub_wf_def intro: distinct_update distinct_delete)
  ultimately show ?thesis
    using assms set_update_subset [of "oa_subject e" ?m "hb_open h"] set_delete_subset [of "oa_subject e" "hb_open h"]
    unfolding hub_wf_def drop_entry_def Let_def by auto
qed

lemma in_all_entries:
  assumes "hub_wf h"
  shows "e \<in> set (all_entries h) \<longleftrightarrow> entry_map h (key_of e) = Some e"
proof
  assume "e \<in> set (all_entries h)"
  then obtain s m i where m: "(s, m) \<in> set (hb_open h)" "(i, e) \<in> set m" by (auto simp: all_entries_def)
  then have "map_of (hb_open h) s = Some m" "map_of m i = Some e" "key_of e = (s, i)"
    using assms by (auto simp: hub_wf_def held_ok_def dest!: bspec)
  then show "entry_map h (key_of e) = Some e" by (simp add: entry_map_def lookup_open_def held_of_def)
next
  assume "entry_map h (key_of e) = Some e"
  then show "e \<in> set (all_entries h)"
    by (force simp: entry_map_def lookup_open_def held_of_def all_entries_def split: option.splits dest!: map_of_SomeD)
qed

lemma entry_map_key: "hub_wf h \<Longrightarrow> entry_map h k = Some e \<Longrightarrow> key_of e = k"
  using hub_wf_held(2) by (cases k) (auto simp: entry_map_def lookup_open_def dest!: map_of_SomeD)

lemma hub_wf_open: "hb_open h = hb_open h' \<Longrightarrow> hub_wf h = hub_wf h'"
  by (simp add: hub_wf_def)

section \<open>The entries as a multiset\<close>

definition entries_of :: "(subject \<times> held) list \<Rightarrow> open_approval multiset" where
  "entries_of os = mset (concat (map (\<lambda>(s, m). map snd m) os))"

lemma entries_of_Cons [simp]: "entries_of ((s, m) # os) = mset (map snd m) + entries_of os"
  by (simp add: entries_of_def)

lemma entries_of_Nil [simp]: "entries_of [] = {#}"
  by (simp add: entries_of_def)

definition held_in :: "(subject \<times> held) list \<Rightarrow> subject \<Rightarrow> held" where
  "held_in os s = (case map_of os s of None \<Rightarrow> [] | Some m \<Rightarrow> m)"

lemma entries_update:
  "distinct (keys_of os) \<Longrightarrow>
     entries_of (AList.update s m os) + mset (map snd (held_in os s)) = entries_of os + mset (map snd m)"
proof (induction os)
  case (Cons x os)
  obtain t m' where x: "x = (t, m')" by (cases x)
  show ?case
  proof (cases "t = s")
    case True
    then show ?thesis by (simp add: x held_in_def)
  next
    case False
    then show ?thesis using Cons by (simp add: x held_in_def)
  qed
qed (simp add: held_in_def)

lemma entries_delete:
  "distinct (keys_of os) \<Longrightarrow>
     entries_of (AList.delete s os) + mset (map snd (held_in os s)) = entries_of os"
proof (induction os)
  case (Cons x os)
  obtain t m' where x: "x = (t, m')" by (cases x)
  show ?case
  proof (cases "t = s")
    case True
    then have "map_of os s = None" using Cons.prems by (simp add: x map_of_eq_None_iff)
    then show ?thesis using True Cons by (simp add: x held_in_def)
  next
    case False
    then show ?thesis using Cons by (simp add: x held_in_def)
  qed
qed (simp add: held_in_def)

definition one_of :: "'a option \<Rightarrow> 'a multiset" where
  "one_of x = (case x of None \<Rightarrow> {#} | Some y \<Rightarrow> {#y#})"

lemma one_of_simps [simp]: "one_of None = {#}" "one_of (Some y) = {#y#}"
  by (simp_all add: one_of_def)

lemma values_update:
  "distinct (keys_of m) \<Longrightarrow>
     mset (map snd (AList.update i e m)) + one_of (map_of m i) = add_mset e (mset (map snd m))"
proof (induction m)
  case (Cons x m)
  obtain j f where x: "x = (j, f)" by (cases x)
  show ?case using Cons by (cases "j = i") (simp_all add: x)
qed simp

lemma values_delete:
  "distinct (keys_of m) \<Longrightarrow> mset (map snd (AList.delete i m)) + one_of (map_of m i) = mset (map snd m)"
proof (induction m)
  case (Cons x m)
  obtain j f where x: "x = (j, f)" by (cases x)
  show ?case
  proof (cases "j = i")
    case True
    then have "AList.delete i m = m" using Cons.prems by (intro delete_fresh) (simp add: x)
    then show ?thesis using True by (simp add: x)
  next
    case False
    then show ?thesis using Cons by (simp add: x)
  qed
qed simp

lemma all_entries_of: "mset (all_entries h) = entries_of (hb_open h)"
  by (simp add: all_entries_def entries_of_def)

lemma held_in_of: "held_in (hb_open h) s = held_of h s"
  by (simp add: held_in_def held_of_def)

lemma entries_put:
  assumes "hub_wf h"
  shows "mset (all_entries (put_entry e h)) + one_of (entry_map h (key_of e)) = add_mset e (mset (all_entries h))"
proof -
  let ?s = "oa_subject e" and ?i = "ar_id (oa_request e)"
  let ?m = "held_of h ?s"
  have d: "distinct (keys_of (hb_open h))" "distinct (keys_of ?m)"
    using assms hub_wf_held(1) [OF assms] by (simp_all add: hub_wf_def)
  have v: "mset (map snd (AList.update ?i e ?m)) + one_of (entry_map h (key_of e)) = add_mset e (mset (map snd ?m))"
    using values_update [OF d(2), of ?i e] by (simp add: entry_map_def lookup_open_def key_of_def)
  have "mset (all_entries (put_entry e h)) + mset (map snd ?m)
      = mset (all_entries h) + mset (map snd (AList.update ?i e ?m))"
    using entries_update [OF d(1), of ?s "AList.update ?i e ?m"]
    by (simp add: held_in_of all_entries_of put_entry_def Let_def)
  then have "mset (all_entries (put_entry e h)) + mset (map snd ?m) + one_of (entry_map h (key_of e))
      = mset (all_entries h) + add_mset e (mset (map snd ?m))"
    by (simp only: v [symmetric] ac_simps)
  then show ?thesis by simp
qed

lemma entries_drop:
  assumes "hub_wf h"
  shows "mset (all_entries (drop_entry e h)) + one_of (entry_map h (key_of e)) = mset (all_entries h)"
proof -
  let ?s = "oa_subject e" and ?i = "ar_id (oa_request e)"
  let ?m = "held_of h ?s"
  let ?d = "AList.delete ?i ?m"
  have d: "distinct (keys_of (hb_open h))" "distinct (keys_of ?m)"
    using assms hub_wf_held(1) [OF assms] by (simp_all add: hub_wf_def)
  have v: "mset (map snd ?d) + one_of (entry_map h (key_of e)) = mset (map snd ?m)"
    using values_delete [OF d(2), of ?i] by (simp add: entry_map_def lookup_open_def key_of_def)
  have "mset (all_entries (drop_entry e h)) + mset (map snd ?m) = mset (all_entries h) + mset (map snd ?d)"
    using entries_update [OF d(1), of ?s ?d] entries_delete [OF d(1), of ?s]
    by (cases "?d = []") (simp_all add: held_in_of all_entries_of drop_entry_def Let_def)
  then have "mset (all_entries (drop_entry e h)) + mset (map snd ?m) + one_of (entry_map h (key_of e))
      = mset (all_entries h) + mset (map snd ?m)"
    by (simp only: v [symmetric] ac_simps)
  then show ?thesis by simp
qed

text \<open>The calls of \<open>decide\<close> that were answered or wait on an open request.\<close>

definition calls_waiting :: "approvals \<Rightarrow> nat multiset" where
  "calls_waiting h = (\<Sum>e \<in># mset (all_entries h). mset (oa_waiting e))"

definition calls_answered :: "approvals \<Rightarrow> nat multiset" where
  "calls_answered h = mset (map fst (hb_answers h))"

definition waiters :: "open_approval option \<Rightarrow> nat multiset" where
  "waiters x = (case x of None \<Rightarrow> {#} | Some e \<Rightarrow> mset (oa_waiting e))"

lemma waiters_simps [simp]: "waiters None = {#}" "waiters (Some e) = mset (oa_waiting e)"
  by (simp_all add: waiters_def)

lemma waiting_put:
  assumes "hub_wf h"
  shows "calls_waiting (put_entry e h) + waiters (entry_map h (key_of e)) = calls_waiting h + mset (oa_waiting e)"
proof -
  have "calls_waiting (put_entry e h) + waiters (entry_map h (key_of e))
      = (\<Sum>e \<in># mset (all_entries (put_entry e h)) + one_of (entry_map h (key_of e)). mset (oa_waiting e))"
    by (simp add: calls_waiting_def split: option.split) (simp add: one_of_def waiters_def split: option.split)
  then show ?thesis unfolding entries_put [OF assms] by (simp add: calls_waiting_def)
qed

lemma waiting_drop:
  assumes "hub_wf h"
  shows "calls_waiting (drop_entry e h) + waiters (entry_map h (key_of e)) = calls_waiting h"
proof -
  have "calls_waiting (drop_entry e h) + waiters (entry_map h (key_of e))
      = (\<Sum>e \<in># mset (all_entries (drop_entry e h)) + one_of (entry_map h (key_of e)). mset (oa_waiting e))"
    by (simp add: calls_waiting_def one_of_def waiters_def split: option.split)
  then show ?thesis unfolding entries_drop [OF assms] by (simp add: calls_waiting_def)
qed

lemma waiting_open: "hb_open h = hb_open h' \<Longrightarrow> calls_waiting h = calls_waiting h'"
  by (simp add: calls_waiting_def all_entries_def)

end
