(* ===== verification/Hub_Once.thy ===== *)
theory Hub_Once
  imports Hub_Entries
begin

text \<open>
  Answering once: the invariant of the hub's approvals and what every run of them promises about claims,
  the decisions put to machines and the calls that wait.
\<close>

section \<open>The invariant\<close>

text \<open>The calls answered as the one applied, with the serial of the request.\<close>

fun applied_call :: "nat \<times> nat option \<times> approval_answer \<Rightarrow> (nat \<times> nat) option" where
  "applied_call (call, Some n, Applied outcome g) = Some (n, call)"
| "applied_call a = None"

definition applied :: "approvals \<Rightarrow> (nat \<times> nat) list" where
  "applied h = List.map_filter applied_call (hb_answers h)"

definition sent :: "approvals \<Rightarrow> nat \<Rightarrow> nat" where
  "sent h n = length (filter (\<lambda>p. pd_serial p = n) (hb_dispatched h))"

definition in_flight :: "approvals \<Rightarrow> nat \<Rightarrow> nat" where
  "in_flight h n = length (filter (\<lambda>p. pd_serial p = n) (hb_dispatching h))"

fun origin_fits :: "origin \<Rightarrow> subject \<Rightarrow> bool" where
  "origin_fits (Machine m) (Session_Subject store session) = True"
| "origin_fits (Hub_Origin about ask) (Run_Subject r n) = True"
| "origin_fits p s = False"

definition open_ok :: "approvals \<Rightarrow> open_approval \<Rightarrow> bool" where
  "open_ok h e \<longleftrightarrow>
     oa_serial e < hb_minted h
     \<and> (oa_claimed e \<longleftrightarrow> oa_waiting e \<noteq> [])
     \<and> origin_fits (oa_origin e) (oa_subject e)
     \<and> oa_by_policy e = oa_answered_by e
     \<and> (oa_by_policy e \<noteq> None \<longrightarrow> \<not> ar_truncated (oa_request e))
     \<and> (\<forall>p \<in> set (hb_dispatched h). pd_serial p = oa_serial e \<longrightarrow> oa_origin e = Machine (pd_machine p))
     \<and> (\<forall>m. oa_claimed e \<and> oa_origin e = Machine m \<longrightarrow>
          (\<exists>p \<in> set (hb_dispatched h). pd_serial p = oa_serial e \<and> pd_call p = hd (oa_waiting e)))
     \<and> sent h (oa_serial e) \<le> count_list (hb_refused h) (oa_serial e) + (if oa_claimed e then 1 else 0)
     \<and> in_flight h (oa_serial e) \<le> (if oa_claimed e then 1 else 0)
     \<and> oa_serial e \<notin> fst ` set (applied h)"

definition serials_ok :: "(open_key \<Rightarrow> open_approval option) \<Rightarrow> bool" where
  "serials_ok E \<longleftrightarrow> (\<forall>k e k' e'. E k = Some e \<longrightarrow> E k' = Some e' \<longrightarrow> oa_serial e = oa_serial e' \<longrightarrow> k = k')"

definition log_ok :: "approvals \<Rightarrow> bool" where
  "log_ok h \<longleftrightarrow> distinct (map fst (applied h))
     \<and> (\<forall>(n, c) \<in> set (applied h). n < hb_minted h \<and>
          (0 < sent h n \<longrightarrow> (\<exists>p \<in> set (hb_dispatched h). pd_serial p = n \<and> pd_call p = c)))
     \<and> (\<forall>p \<in> set (hb_dispatched h). pd_serial p < hb_minted h)
     \<and> set (hb_dispatching h) \<subseteq> set (hb_dispatched h)
     \<and> (\<forall>n. sent h n \<le> count_list (hb_refused h) n + 1)"

text \<open>Every call of \<open>decide\<close> was answered or waits on an open request, once.\<close>

definition calls_ok :: "approvals \<Rightarrow> bool" where
  "calls_ok h \<longleftrightarrow> calls_answered h + calls_waiting h = mset [0..<hb_calls h]"

definition hub_ok :: "approvals \<Rightarrow> bool" where
  "hub_ok h \<longleftrightarrow> hub_wf h \<and> (\<forall>k e. entry_map h k = Some e \<longrightarrow> open_ok h e)
     \<and> serials_ok (entry_map h) \<and> log_ok h \<and> calls_ok h"

lemma hub_ok_fields:
  assumes "hub_ok h" and "entry_map h k = Some e"
  shows "open_ok h e" and "key_of e = k"
  using assms entry_map_key unfolding hub_ok_def by blast+

section \<open>The logs a primitive leaves alone\<close>

lemma log_cong:
  "hb_answers h = hb_answers h' \<Longrightarrow> applied h = applied h'"
  "hb_dispatched h = hb_dispatched h' \<Longrightarrow> sent h = sent h'"
  "hb_dispatching h = hb_dispatching h' \<Longrightarrow> in_flight h = in_flight h'"
  "hb_answers h = hb_answers h' \<Longrightarrow> calls_answered h = calls_answered h'"
  by (simp_all add: applied_def sent_def in_flight_def calls_answered_def fun_eq_iff)

lemma log_simps [simp]:
  "applied (put_entry e h) = applied h" "applied (drop_entry e h) = applied h"
  "applied (announce s h) = applied h" "applied (remember_ending s i r h) = applied h"
  "applied (h\<lparr>hb_calls := c\<rparr>) = applied h" "applied (h\<lparr>hb_minted := c\<rparr>) = applied h"
  "applied (h\<lparr>hb_asks := c\<rparr>) = applied h" "applied (h\<lparr>hb_resolved := v\<rparr>) = applied h"
  "applied (h\<lparr>hb_refused := x\<rparr>) = applied h" "applied (h\<lparr>hb_consulting := q\<rparr>) = applied h"
  "applied (h\<lparr>hb_dispatching := d\<rparr>) = applied h"
  "applied (h\<lparr>hb_dispatching := d, hb_dispatched := d'\<rparr>) = applied h"
  "sent (put_entry e h) = sent h" "sent (drop_entry e h) = sent h"
  "sent (announce s h) = sent h" "sent (remember_ending s i r h) = sent h"
  "sent (h\<lparr>hb_calls := c\<rparr>) = sent h" "sent (h\<lparr>hb_minted := c\<rparr>) = sent h"
  "sent (h\<lparr>hb_asks := c\<rparr>) = sent h" "sent (h\<lparr>hb_resolved := v\<rparr>) = sent h"
  "sent (h\<lparr>hb_refused := x\<rparr>) = sent h" "sent (h\<lparr>hb_consulting := q\<rparr>) = sent h"
  "sent (h\<lparr>hb_dispatching := d\<rparr>) = sent h" "sent (h\<lparr>hb_answers := a\<rparr>) = sent h"
  "in_flight (put_entry e h) = in_flight h" "in_flight (drop_entry e h) = in_flight h"
  "in_flight (announce s h) = in_flight h" "in_flight (remember_ending s i r h) = in_flight h"
  "in_flight (h\<lparr>hb_calls := c\<rparr>) = in_flight h" "in_flight (h\<lparr>hb_minted := c\<rparr>) = in_flight h"
  "in_flight (h\<lparr>hb_asks := c\<rparr>) = in_flight h" "in_flight (h\<lparr>hb_resolved := v\<rparr>) = in_flight h"
  "in_flight (h\<lparr>hb_refused := x\<rparr>) = in_flight h" "in_flight (h\<lparr>hb_consulting := q\<rparr>) = in_flight h"
  "in_flight (h\<lparr>hb_answers := a\<rparr>) = in_flight h"
  "calls_answered (put_entry e h) = calls_answered h" "calls_answered (drop_entry e h) = calls_answered h"
  "calls_answered (announce s h) = calls_answered h"
  "calls_answered (remember_ending s i r h) = calls_answered h"
  by (simp_all add: applied_def sent_def in_flight_def calls_answered_def fun_eq_iff)

lemma waiting_simps [simp]:
  "calls_waiting (announce s h) = calls_waiting h" "calls_waiting (remember_ending s i r h) = calls_waiting h"
  "calls_waiting (h\<lparr>hb_calls := c\<rparr>) = calls_waiting h" "calls_waiting (h\<lparr>hb_minted := c\<rparr>) = calls_waiting h"
  "calls_waiting (h\<lparr>hb_asks := c\<rparr>) = calls_waiting h" "calls_waiting (h\<lparr>hb_resolved := v\<rparr>) = calls_waiting h"
  "calls_waiting (h\<lparr>hb_refused := x\<rparr>) = calls_waiting h" "calls_waiting (h\<lparr>hb_consulting := q\<rparr>) = calls_waiting h"
  "calls_waiting (h\<lparr>hb_dispatching := d\<rparr>) = calls_waiting h" "calls_waiting (h\<lparr>hb_answers := a\<rparr>) = calls_waiting h"
  "calls_waiting (h\<lparr>hb_dispatching := d, hb_dispatched := d'\<rparr>) = calls_waiting h"
  by (rule waiting_open, simp)+

lemma wf_simps [simp]:
  "hub_wf (announce s h) = hub_wf h" "hub_wf (remember_ending s i r h) = hub_wf h"
  "hub_wf (h\<lparr>hb_calls := c\<rparr>) = hub_wf h" "hub_wf (h\<lparr>hb_minted := c\<rparr>) = hub_wf h"
  "hub_wf (h\<lparr>hb_asks := c\<rparr>) = hub_wf h" "hub_wf (h\<lparr>hb_resolved := v\<rparr>) = hub_wf h"
  "hub_wf (h\<lparr>hb_refused := x\<rparr>) = hub_wf h" "hub_wf (h\<lparr>hb_consulting := q\<rparr>) = hub_wf h"
  "hub_wf (h\<lparr>hb_dispatching := d\<rparr>) = hub_wf h" "hub_wf (h\<lparr>hb_answers := a\<rparr>) = hub_wf h"
  "hub_wf (h\<lparr>hb_dispatching := d, hb_dispatched := d'\<rparr>) = hub_wf h"
  by (rule hub_wf_open, simp)+

lemma serials_put:
  assumes "serials_ok E" and "\<And>k e. E k = Some e \<Longrightarrow> oa_serial e = oa_serial f \<Longrightarrow> k = key_of f"
  shows "serials_ok (E(key_of f \<mapsto> f))"
  using assms unfolding serials_ok_def fun_upd_apply by (metis option.inject)

lemma serials_drop: "serials_ok E \<Longrightarrow> serials_ok (E(k := None))"
  unfolding serials_ok_def fun_upd_apply by (metis option.distinct(1))

section \<open>Replacing, adding and ending an entry\<close>

lemma calls_algebra:
  fixes A :: "'a multiset"
  assumes "A' + u + M = A + v + M'" and "W' + v = W + u" and "A + W = M"
  shows "A' + W' = M'"
proof (rule multiset_eqI)
  fix x
  have "count A' x + count u x + count M x = count A x + count v x + count M' x"
    using arg_cong [OF assms(1), of "\<lambda>m. count m x"] by simp
  moreover have "count W' x + count v x = count W x + count u x"
    using arg_cong [OF assms(2), of "\<lambda>m. count m x"] by simp
  moreover have "count A x + count W x = count M x"
    using arg_cong [OF assms(3), of "\<lambda>m. count m x"] by simp
  ultimately show "count (A' + W') x = count M' x" by simp
qed

lemma hub_ok_put:
  assumes ok: "hub_ok h" and e: "entry_map h (key_of f) = Some e" and serial: "oa_serial f = oa_serial e"
    and opened: "hb_open h' = hb_open (put_entry f h)"
    and calls: "calls_answered h' + mset (oa_waiting f) + mset [0..<hb_calls h]
      = calls_answered h + mset (oa_waiting e) + mset [0..<hb_calls h']"
    and fine: "open_ok h' f" and logs: "log_ok h'"
    and others: "\<And>e'. open_ok h e' \<Longrightarrow> oa_serial e' \<noteq> oa_serial e \<Longrightarrow> open_ok h' e'"
  shows "hub_ok h'"
proof -
  have wf: "hub_wf h" and serials: "serials_ok (entry_map h)" using ok by (auto simp: hub_ok_def)
  have E: "entry_map h' = (entry_map h)(key_of f \<mapsto> f)" using entry_map_open [OF opened] by simp
  have "open_ok h' e'" if "entry_map h' k = Some e'" for k e'
  proof (cases "k = key_of f")
    case True
    then show ?thesis using that fine by (simp add: E)
  next
    case False
    then have k: "entry_map h k = Some e'" using that by (simp add: E)
    then have "oa_serial e' \<noteq> oa_serial e" using serials e False unfolding serials_ok_def by metis
    then show ?thesis using others hub_ok_fields(1) [OF ok k] by blast
  qed
  moreover have "serials_ok (entry_map h')"
    unfolding E by (rule serials_put [OF serials]) (use serials e serial in \<open>unfold serials_ok_def, metis\<close>)
  moreover have "calls_ok h'"
  proof -
    have "calls_waiting h' + mset (oa_waiting e) = calls_waiting h + mset (oa_waiting f)"
      using waiting_put [OF wf, of f] waiting_open [OF opened] e by simp
    then show ?thesis
      unfolding calls_ok_def using calls_algebra [OF calls] ok by (simp add: hub_ok_def calls_ok_def)
  qed
  ultimately show ?thesis
    using hub_wf_put [OF wf, of f] hub_wf_open [OF opened] logs by (simp add: hub_ok_def)
qed

lemma hub_ok_new:
  assumes ok: "hub_ok h" and e: "entry_map h (key_of f) = None" and serial: "oa_serial f = hb_minted h"
    and waiting: "oa_waiting f = []"
    and opened: "hb_open h' = hb_open (put_entry f h)"
    and calls: "calls_answered h' = calls_answered h" "hb_calls h' = hb_calls h"
    and fine: "open_ok h' f" and logs: "log_ok h'"
    and others: "\<And>e'. open_ok h e' \<Longrightarrow> open_ok h' e'"
  shows "hub_ok h'"
proof -
  have wf: "hub_wf h" and serials: "serials_ok (entry_map h)" using ok by (auto simp: hub_ok_def)
  have E: "entry_map h' = (entry_map h)(key_of f \<mapsto> f)" using entry_map_open [OF opened] by simp
  have "serials_ok (entry_map h')"
    unfolding E by (rule serials_put [OF serials])
      (use hub_ok_fields(1) [OF ok] serial in \<open>unfold open_ok_def, metis less_irrefl\<close>)
  moreover have "open_ok h' e'" if "entry_map h' k = Some e'" for k e'
    using that fine others hub_ok_fields(1) [OF ok] unfolding E fun_upd_apply by (metis option.inject)
  moreover have "calls_ok h'"
    using ok waiting_put [OF wf, of f] waiting_open [OF opened] waiting e calls by (simp add: hub_ok_def calls_ok_def)
  ultimately show ?thesis
    using hub_wf_put [OF wf, of f] hub_wf_open [OF opened] logs by (simp add: hub_ok_def)
qed

lemma applied_append:
  "hb_answers h' = hb_answers h @ xs \<Longrightarrow> applied h' = applied h @ List.map_filter applied_call xs"
  by (simp add: applied_def List.map_filter_def)

lemma applied_end:
  "List.map_filter applied_call (end_answers e r) =
     (if (r = Granted \<or> r = Denied) \<and> oa_waiting e \<noteq> [] then [(oa_serial e, hd (oa_waiting e))] else [])"
proof -
  have none: "List.map_filter applied_call xs = []" if "\<forall>x \<in> set xs. applied_call x = None" for xs
    using that by (induction xs) (auto simp: List.map_filter_def)
  have later: "List.map_filter applied_call
      (map (\<lambda>(index, call). (call, Some (oa_serial e), ending_answer e r index)) (enumerate (Suc 0) cs)) = []" for cs
    by (rule none) (auto simp: in_set_enumerate_eq ending_answer_def)
  show ?thesis
  proof (cases "oa_waiting e")
    case (Cons c cs)
    then show ?thesis
      using later [of cs] by (auto simp: end_answers_def ending_answer_def List.map_filter_def)
  qed (simp add: end_answers_def List.map_filter_def)
qed

lemma answered_end: "map fst (end_answers e r) = oa_waiting e"
  by (simp add: end_answers_def comp_def case_prod_beta)

lemma end_fields [simp]:
  "hb_minted (end_approval e r h) = hb_minted h" "hb_calls (end_approval e r h) = hb_calls h"
  "hb_dispatching (end_approval e r h) = hb_dispatching h" "hb_dispatched (end_approval e r h) = hb_dispatched h"
  "hb_refused (end_approval e r h) = hb_refused h" "hb_open (end_approval e r h) = hb_open (drop_entry e h)"
  "hb_answers (end_approval e r h) = hb_answers h @ end_answers e r"
  by (simp_all add: end_approval_def Let_def split: origin.split)

lemma end_ok:
  assumes ok: "hub_ok h" and e: "entry_map h k = Some e"
  shows "hub_ok (end_approval e r h)"
proof -
  let ?h = "end_approval e r h"
  have k: "key_of e = k" and eok: "open_ok h e" using hub_ok_fields [OF ok e] by auto
  have wf: "hub_wf h" and serials: "serials_ok (entry_map h)" and logs: "log_ok h"
    using ok by (auto simp: hub_ok_def)
  have E: "entry_map ?h = (entry_map h)(k := None)"
    using entry_map_open [of ?h "drop_entry e h"] k by simp
  have app: "applied ?h = applied h @ (if (r = Granted \<or> r = Denied) \<and> oa_waiting e \<noteq> [] then [(oa_serial e, hd (oa_waiting e))] else [])"
    using applied_append [of ?h h "end_answers e r"] by (simp add: applied_end)
  have same: "sent ?h = sent h" "in_flight ?h = in_flight h"
    by (rule log_cong(2), simp) (rule log_cong(3), simp)
  have "open_ok ?h e'" if "entry_map ?h k' = Some e'" for k' e'
  proof -
    have k': "entry_map h k' = Some e'" "k' \<noteq> k" using that by (auto simp: E split: if_splits)
    then have "oa_serial e' \<noteq> oa_serial e" using serials e unfolding serials_ok_def by metis
    then show ?thesis using hub_ok_fields(1) [OF ok k'(1)] by (auto simp: open_ok_def app same)
  qed
  moreover have "log_ok ?h"
  proof -
    have "\<exists>p \<in> set (hb_dispatched h). pd_serial p = oa_serial e \<and> pd_call p = hd (oa_waiting e)"
      if any: "0 < sent h (oa_serial e)" and some: "oa_waiting e \<noteq> []"
    proof -
      obtain p where "p \<in> set (hb_dispatched h)" "pd_serial p = oa_serial e"
        using any by (auto simp: sent_def filter_empty_conv)
      then show ?thesis using eok some by (auto simp: open_ok_def)
    qed
    then show ?thesis using logs eok by (auto simp: log_ok_def app same open_ok_def)
  qed
  moreover have "calls_ok ?h"
  proof -
    have "calls_waiting ?h + mset (oa_waiting e) = calls_waiting h"
      using waiting_drop [OF wf, of e] waiting_open [of ?h "drop_entry e h"] e k by simp
    moreover have "calls_answered ?h = calls_answered h + mset (oa_waiting e)"
      by (simp add: calls_answered_def answered_end)
    ultimately show ?thesis using ok by (simp add: hub_ok_def calls_ok_def ac_simps)
  qed
  ultimately show ?thesis
    using hub_wf_drop [OF wf, of e] hub_wf_open [of ?h "drop_entry e h"] serials_drop [OF serials, of k]
    by (simp add: hub_ok_def E)
qed

section \<open>Deciding\<close>

lemma open_ok_cong:
  assumes "hb_minted h = hb_minted h'" "hb_dispatched h = hb_dispatched h'" "hb_dispatching h = hb_dispatching h'"
    "hb_refused h = hb_refused h'" "applied h = applied h'"
  shows "open_ok h e = open_ok h' e"
  using assms by (simp add: open_ok_def sent_def in_flight_def)

lemma log_ok_cong:
  assumes "hb_minted h = hb_minted h'" "hb_dispatched h = hb_dispatched h'" "hb_dispatching h = hb_dispatching h'"
    "hb_refused h = hb_refused h'" "applied h = applied h'"
  shows "log_ok h = log_ok h'"
  using assms by (simp add: log_ok_def sent_def)

lemma applied_answer_call [simp]: "applied (answer_call c a h) = applied h"
  by (simp add: answer_call_def applied_def List.map_filter_def)

lemma answer_call_ok:
  assumes ok: "hub_ok h"
  shows "hub_ok (answer_call (hb_calls h) a (h\<lparr>hb_calls := hb_calls h + 1\<rparr>))"
proof -
  let ?h = "answer_call (hb_calls h) a (h\<lparr>hb_calls := hb_calls h + 1\<rparr>)"
  have opened: "hb_open ?h = hb_open h" by (simp add: answer_call_def)
  have e: "open_ok ?h = open_ok h" by (intro ext open_ok_cong) (simp_all add: answer_call_def applied_def List.map_filter_def)
  have l: "log_ok ?h = log_ok h" by (rule log_ok_cong) (simp_all add: answer_call_def applied_def List.map_filter_def)
  have "calls_answered ?h + calls_waiting ?h = mset [0..<hb_calls ?h]"
    using ok waiting_open [OF opened] by (simp add: hub_ok_def calls_ok_def calls_answered_def answer_call_def)
  then show ?thesis
    using ok unfolding hub_ok_def e l calls_ok_def entry_map_open [OF opened] hub_wf_open [OF opened] by blast
qed

text \<open>Waiting on a request that is claimed already, and taking the claim.\<close>

lemma wait_ok:
  assumes ok: "hub_ok h" and e: "entry_map h (key_of e) = Some e"
    and claim: "oa_claimed e \<or> (c \<and> (\<exists>about ask. oa_origin e = Hub_Origin about ask))"
  shows "hub_ok (put_entry (e\<lparr>oa_waiting := oa_waiting e @ [hb_calls h], oa_claimed := oa_claimed e \<or> c\<rparr>)
      (h\<lparr>hb_calls := hb_calls h + 1\<rparr>))" (is "hub_ok ?h")
proof (rule hub_ok_put [OF ok, where e = e])
  let ?f = "e\<lparr>oa_waiting := oa_waiting e @ [hb_calls h], oa_claimed := oa_claimed e \<or> c\<rparr>"
  have eok: "open_ok h e" by (rule hub_ok_fields [OF ok e])
  show "entry_map h (key_of ?f) = Some e" using e by simp
  show "hb_open ?h = hb_open (put_entry ?f h)" by (simp add: put_entry_def Let_def held_of_def)
  have same: "open_ok ?h = open_ok h" by (intro ext open_ok_cong) simp_all
  have "hd (oa_waiting e @ [hb_calls h]) = hd (oa_waiting e)" if "oa_claimed e"
    using eok that by (simp add: open_ok_def)
  then show "open_ok ?h ?f" using eok claim by (auto simp: same) (auto simp: open_ok_def)
  show "open_ok ?h e'" if "open_ok h e'" for e' using that unfolding same .
  have "log_ok ?h = log_ok h" by (rule log_ok_cong) simp_all
  then show "log_ok ?h" using ok by (simp add: hub_ok_def)
qed (simp_all add: calls_answered_def)

lemma dispatch_ok:
  assumes ok: "hub_ok h" and e: "entry_map h (key_of e) = Some e" and free: "\<not> oa_claimed e"
    and put: "pd_serial put = oa_serial e" "pd_call put = hb_calls h" "oa_origin e = Machine (pd_machine put)"
  shows "hub_ok ((put_entry (e\<lparr>oa_waiting := oa_waiting e @ [hb_calls h], oa_claimed := True\<rparr>)
      (h\<lparr>hb_calls := hb_calls h + 1\<rparr>))
        \<lparr>hb_dispatching := hb_dispatching h @ [put], hb_dispatched := hb_dispatched h @ [put]\<rparr>)" (is "hub_ok ?h")
proof (rule hub_ok_put [OF ok, where e = e])
  let ?f = "e\<lparr>oa_waiting := oa_waiting e @ [hb_calls h], oa_claimed := True\<rparr>"
  have eok: "open_ok h e" by (rule hub_ok_fields [OF ok e])
  show "entry_map h (key_of ?f) = Some e" using e by simp
  show "hb_open ?h = hb_open (put_entry ?f h)" by (simp add: put_entry_def Let_def held_of_def)
  have sent: "sent ?h n = sent h n + (if n = oa_serial e then 1 else 0)" for n
    by (simp add: sent_def put)
  have flight: "in_flight ?h n = in_flight h n + (if n = oa_serial e then 1 else 0)" for n
    by (simp add: in_flight_def put)
  have none: "oa_waiting e = []" using eok free by (simp add: open_ok_def)
  show "open_ok ?h ?f"
    unfolding open_ok_def sent flight using eok free put none by (auto simp: open_ok_def)
  show "open_ok ?h e'" if "open_ok h e'" "oa_serial e' \<noteq> oa_serial e" for e'
    using that unfolding open_ok_def sent flight by (auto simp: put)
  have "sent h (oa_serial e) \<le> count_list (hb_refused h) (oa_serial e)" "oa_serial e < hb_minted h"
    "oa_serial e \<notin> fst ` set (applied h)"
    using eok free by (auto simp: open_ok_def)
  moreover have logs: "log_ok h" using ok by (simp add: hub_ok_def)
  ultimately have "n \<noteq> oa_serial e" if "(n, c) \<in> set (applied h)" for n c using that by force
  with logs show "log_ok ?h"
    unfolding log_ok_def sent
    using \<open>sent h (oa_serial e) \<le> count_list (hb_refused h) (oa_serial e)\<close> \<open>oa_serial e < hb_minted h\<close>
    by (auto simp: put split: if_splits)
qed (simp_all add: calls_answered_def)

lemma decide_ok:
  assumes ok: "hub_ok h"
  shows "hub_ok (decide_request s i d h)"
proof (cases "entry_map h (s, i)")
  case None
  then have look: "lookup_open (h\<lparr>hb_calls := Suc (hb_calls h)\<rparr>) s i = None"
    by (simp add: entry_map_lookup)
  show ?thesis
    using answer_call_ok [OF ok] by (simp add: decide_request_def Let_def look split: option.split)
next
  case (Some e)
  have look: "lookup_open (h\<lparr>hb_calls := Suc (hb_calls h)\<rparr>) s i = Some e"
    using Some by (simp add: entry_map_lookup)
  have k: "key_of e = (s, i)" by (rule hub_ok_fields [OF ok Some])
  then have e: "entry_map h (key_of e) = Some e" using Some by simp
  show ?thesis
  proof (cases "oa_claimed e")
    case True
    then have eq: "e\<lparr>oa_waiting := oa_waiting e @ [hb_calls h], oa_claimed := True\<rparr>
        = e\<lparr>oa_waiting := oa_waiting e @ [hb_calls h]\<rparr>"
      by (cases e) simp
    have "hub_ok (put_entry (e\<lparr>oa_waiting := oa_waiting e @ [hb_calls h], oa_claimed := True\<rparr>)
        (h\<lparr>hb_calls := Suc (hb_calls h)\<rparr>))"
      using wait_ok [OF ok e, of False] True by simp
    then show ?thesis
      unfolding eq using True by (simp add: decide_request_def Let_def look)
  next
    case False
    show ?thesis
    proof (cases "oa_origin e")
      case (Machine m)
      show ?thesis
        using dispatch_ok [OF ok e False, of "\<lparr>pd_serial = oa_serial e, pd_call = hb_calls h, pd_subject = s, pd_id = i,
            pd_machine = m, pd_decision = d\<rparr>"] False Machine
        by (simp add: decide_request_def Let_def look)
    next
      case (Hub_Origin about ask)
      have "hub_ok (put_entry (e\<lparr>oa_waiting := oa_waiting e @ [hb_calls h], oa_claimed := True\<rparr>)
          (h\<lparr>hb_calls := hb_calls h + 1\<rparr>))"
        using wait_ok [OF ok e, of True] Hub_Origin by simp
      from end_ok [OF this, where k = "key_of e"] show ?thesis
        using False Hub_Origin by (simp add: decide_request_def Let_def look)
    qed
  qed
qed

section \<open>What comes back from a machine\<close>

lemma drop_nth_part: "k < length xs \<Longrightarrow> filter P xs = filter P (take k xs) @ (if P (xs ! k) then [xs ! k] else []) @ filter P (drop (Suc k) xs)"
  by (subst id_take_nth_drop [of k xs]) simp_all

lemma in_flight_drop:
  assumes "k < length (hb_dispatching h)"
  shows "in_flight (h\<lparr>hb_dispatching := drop_nth k (hb_dispatching h)\<rparr>) n
      = in_flight h n - (if pd_serial (hb_dispatching h ! k) = n then 1 else 0)"
  using drop_nth_part [OF assms, of "\<lambda>p. pd_serial p = n"] by (simp add: in_flight_def drop_nth_def)

lemma set_drop_nth: "set (drop_nth k xs) \<subseteq> set xs"
  by (auto simp: drop_nth_def dest: in_set_takeD in_set_dropD)

lemma flight_ok:
  assumes ok: "hub_ok h"
    and less: "set d \<subseteq> set (hb_dispatching h)" "\<And>n. in_flight (h\<lparr>hb_dispatching := d\<rparr>) n \<le> in_flight h n"
  shows "hub_ok (h\<lparr>hb_dispatching := d\<rparr>)" (is "hub_ok ?h")
proof -
  have "open_ok ?h e" if "open_ok h e" for e
    using that less(2) [of "oa_serial e"] unfolding open_ok_def by (auto split: if_splits)
  moreover have "log_ok ?h" using ok less(1) by (auto simp: hub_ok_def log_ok_def)
  moreover have "calls_ok ?h" using ok by (simp add: hub_ok_def calls_ok_def calls_answered_def)
  ultimately show ?thesis using ok unfolding hub_ok_def by simp
qed

lemma refused_ok:
  assumes ok: "hub_ok h"
  shows "hub_ok (h\<lparr>hb_refused := hb_refused h @ [n]\<rparr>)" (is "hub_ok ?h")
proof -
  have "open_ok ?h e" if "open_ok h e" for e
    using that unfolding open_ok_def by auto
  moreover have "log_ok ?h" using ok by (auto simp: hub_ok_def log_ok_def le_SucI)
  moreover have "calls_ok ?h" using ok by (simp add: hub_ok_def calls_ok_def calls_answered_def)
  ultimately show ?thesis using ok unfolding hub_ok_def by simp
qed

lemma applied_refusals:
  "List.map_filter applied_call (map (\<lambda>call. (call, n, Not_Applied r g w)) cs) = []"
  by (induction cs) (cases n; simp add: List.map_filter_def)+

lemma refuse_ok:
  assumes ok: "hub_ok h" and idle: "in_flight h (pd_serial put) = 0"
  shows "hub_ok (refuse_dispatch put code problem h)"
proof -
  let ?r = "h\<lparr>hb_refused := hb_refused h @ [pd_serial put]\<rparr>"
  have r: "hub_ok ?r" by (rule refused_ok [OF ok])
  have look: "lookup_open ?r s i = entry_map h (s, i)" for s i by (simp add: entry_map_lookup)
  show ?thesis
  proof (cases "\<exists>e. entry_map h (pd_subject put, pd_id put) = Some e \<and> oa_serial e = pd_serial put")
    case False
    then show ?thesis using r by (auto simp: refuse_dispatch_def Let_def look split: option.split)
  next
    case True
    then obtain e where E: "entry_map h (pd_subject put, pd_id put) = Some e" and n: "oa_serial e = pd_serial put"
      by blast
    have eok: "open_ok h e" and key: "key_of e = (pd_subject put, pd_id put)" using hub_ok_fields [OF ok E] by auto
    define f where "f = e\<lparr>oa_claimed := False, oa_by_policy := None, oa_answered_by :=
        (if oa_by_policy e \<noteq> None then None else oa_answered_by e), oa_waiting := []\<rparr>"
    define g where "g = (if oa_by_policy e \<noteq> None then announce (oa_subject e) (put_entry f ?r) else put_entry f ?r)"
    let ?h = "g\<lparr>hb_answers := hb_answers g @ map (\<lambda>call. (call, Some (oa_serial e), Not_Applied None None (Not_Put code problem))) (oa_waiting e)\<rparr>"
    have fields: "hb_open g = hb_open (put_entry f h)" "hb_minted g = hb_minted h" "hb_calls g = hb_calls h"
      "hb_dispatched g = hb_dispatched h" "hb_dispatching g = hb_dispatching h" "hb_answers g = hb_answers h"
      "hb_refused g = hb_refused h @ [pd_serial put]"
      by (simp_all add: g_def put_entry_def Let_def held_of_def)
    have app: "applied ?h = applied h"
      using applied_append [of ?h h] by (simp add: fields applied_refusals)
    have logs: "sent ?h = sent h" "in_flight ?h = in_flight h"
      by (simp_all add: sent_def in_flight_def fields fun_eq_iff)
    have shape: "key_of f = key_of e" "oa_serial f = oa_serial e" "oa_waiting f = []" "\<not> oa_claimed f"
      "oa_origin f = oa_origin e" "oa_subject f = oa_subject e" "oa_by_policy f = None" "oa_answered_by f = None"
      using eok by (auto simp: f_def key_of_def open_ok_def)
    have bound: "sent h (oa_serial e) \<le> count_list (hb_refused h) (oa_serial e) + 1"
      using eok by (auto simp: open_ok_def split: if_splits)
    have "hub_ok ?h"
    proof (rule hub_ok_put [OF ok, where e = e and f = f])
      show "entry_map h (key_of f) = Some e" using E key shape by simp
      show "hb_open ?h = hb_open (put_entry f h)" by (simp add: fields)
      show "calls_answered ?h + mset (oa_waiting f) + mset [0..<hb_calls h]
          = calls_answered h + mset (oa_waiting e) + mset [0..<hb_calls ?h]"
        by (simp add: calls_answered_def fields shape comp_def)
      show "open_ok ?h f"
        unfolding open_ok_def app logs using eok bound idle n by (auto simp: shape fields open_ok_def)
      show "open_ok ?h e'" if "open_ok h e'" for e'
        using that unfolding open_ok_def app logs by (auto simp: fields)
      show "log_ok ?h" using ok unfolding hub_ok_def log_ok_def app logs by (auto simp: fields le_SucI)
    qed (simp add: shape)
    moreover have "refuse_dispatch put code problem h = ?h"
      using E n by (simp add: refuse_dispatch_def Let_def look f_def g_def)
    ultimately show ?thesis by simp
  qed
qed

lemma dispatch_answers_ok:
  assumes ok: "hub_ok h"
  shows "hub_ok (dispatch_answers k result h)"
proof (cases "k < length (hb_dispatching h)")
  case True
  let ?put = "hb_dispatching h ! k" and ?h = "h\<lparr>hb_dispatching := drop_nth k (hb_dispatching h)\<rparr>"
  have ok1: "hub_ok ?h"
    by (rule flight_ok [OF ok set_drop_nth]) (simp add: in_flight_drop [OF True])
  have refuse: "hub_ok (refuse_dispatch ?put code problem ?h)" for code problem
  proof (cases "\<exists>k e. entry_map h k = Some e \<and> oa_serial e = pd_serial ?put")
    case open_one: True
    then obtain k' e where "entry_map h k' = Some e" "oa_serial e = pd_serial ?put" by blast
    then have "in_flight h (pd_serial ?put) \<le> 1"
      using hub_ok_fields(1) [OF ok] by (fastforce simp: open_ok_def split: if_splits)
    then have "in_flight ?h (pd_serial ?put) = 0" by (simp add: in_flight_drop [OF True])
    then show ?thesis by (rule refuse_ok [OF ok1])
  next
    case False
    then show ?thesis
      using refused_ok [OF ok1, of "pd_serial ?put"]
      by (auto simp: refuse_dispatch_def Let_def entry_map_lookup split: option.split)
  qed
  show ?thesis
    using True ok1 refuse by (simp add: dispatch_answers_def Let_def split: put_result.split)
qed (use ok in \<open>simp add: dispatch_answers_def\<close>)

section \<open>The policy's reads, and the mark of a rule\<close>

definition consults_ok :: "approvals \<Rightarrow> bool" where
  "consults_ok h \<longleftrightarrow> (\<forall>(n, s, i) \<in> set (hb_consulting h). n < hb_minted h
     \<and> (\<exists>store session. s = Session_Subject store session)
     \<and> (\<forall>e. entry_map h (s, i) = Some e \<longrightarrow> oa_serial e = n \<longrightarrow> \<not> ar_truncated (oa_request e)))"

definition marks_ok :: "approvals \<Rightarrow> bool" where
  "marks_ok h \<longleftrightarrow> (\<forall>k e. entry_map h k = Some e \<longrightarrow> oa_by_policy e \<noteq> None \<longrightarrow> oa_claimed e)"

definition all_ok :: "approvals \<Rightarrow> bool" where
  "all_ok h \<longleftrightarrow> hub_ok h \<and> consults_ok h \<and> marks_ok h"

text \<open>A step that opens no request, marks none and releases no marked claim.\<close>

definition calmer :: "open_approval \<Rightarrow> open_approval \<Rightarrow> bool" where
  "calmer e e' \<longleftrightarrow> oa_serial e' = oa_serial e \<and> oa_request e' = oa_request e
     \<and> oa_origin e' = oa_origin e \<and> oa_subject e' = oa_subject e
     \<and> (oa_by_policy e' \<noteq> None \<longrightarrow> oa_by_policy e' = oa_by_policy e \<and> (oa_claimed e \<longrightarrow> oa_claimed e'))"

lemma calmer_refl [simp]: "calmer e e"
  by (simp add: calmer_def)

lemma calmer_trans: "calmer e f \<Longrightarrow> calmer f g \<Longrightarrow> calmer e g"
  by (auto simp: calmer_def)

definition calms :: "approvals \<Rightarrow> approvals \<Rightarrow> bool" where
  "calms h h' \<longleftrightarrow> hb_consulting h' = hb_consulting h \<and> hb_minted h' = hb_minted h
     \<and> (\<forall>k e'. entry_map h' k = Some e' \<longrightarrow> (\<exists>e. entry_map h k = Some e \<and> calmer e e'))"

lemma calms_refl: "calms h h"
  unfolding calms_def using calmer_refl by blast

lemma calms_trans: "calms h g \<Longrightarrow> calms g f \<Longrightarrow> calms h f"
  unfolding calms_def using calmer_trans by metis

lemma calms_consults:
  assumes c: "calms h h'" and ok: "consults_ok h"
  shows "consults_ok h'"
  unfolding consults_ok_def
proof clarify
  fix n s i
  assume "(n, s, i) \<in> set (hb_consulting h')"
  then have "n < hb_minted h \<and> (\<exists>store session. s = Session_Subject store session)
      \<and> (\<forall>e. entry_map h (s, i) = Some e \<longrightarrow> oa_serial e = n \<longrightarrow> \<not> ar_truncated (oa_request e))"
    using ok c by (auto simp: consults_ok_def calms_def)
  then show "n < hb_minted h' \<and> (\<exists>store session. s = Session_Subject store session)
      \<and> (\<forall>e. entry_map h' (s, i) = Some e \<longrightarrow> oa_serial e = n \<longrightarrow> \<not> ar_truncated (oa_request e))"
    using c unfolding calms_def calmer_def by metis
qed

lemma calms_rest: "calms h h' \<Longrightarrow> consults_ok h \<and> marks_ok h \<Longrightarrow> consults_ok h' \<and> marks_ok h'"
  using calms_consults unfolding calms_def calmer_def marks_ok_def by metis

lemma calms_all: "all_ok h \<Longrightarrow> hub_ok h' \<Longrightarrow> calms h h' \<Longrightarrow> all_ok h'"
  using calms_rest by (auto simp: all_ok_def)

lemma end_consulting [simp]: "hb_consulting (end_approval e r h) = hb_consulting h"
  by (simp add: end_approval_def Let_def split: origin.split)

lemma entry_map_end [simp]: "entry_map (end_approval e r h) = (entry_map h)(key_of e := None)"
  using entry_map_open [of "end_approval e r h" "drop_entry e h"] by simp

lemma calms_end: "calms h (end_approval e r h)"
  by (auto simp: calms_def)

lemma calms_decide:
  assumes ok: "hub_ok h"
  shows "calms h (decide_request s i d h)"
    and "entry_map (decide_request s i d h) (s, i) = Some e' \<Longrightarrow> oa_claimed e'"
proof -
  have look: "lookup_open (h\<lparr>hb_calls := Suc (hb_calls h)\<rparr>) s i = entry_map h (s, i)"
    by (simp add: entry_map_lookup)
  have same: "entry_map (answer_call c a (h\<lparr>hb_calls := n\<rparr>)) = entry_map h" for c a n
    by (simp add: answer_call_def)
  have "calms h (decide_request s i d h) \<and> (\<forall>e'. entry_map (decide_request s i d h) (s, i) = Some e' \<longrightarrow> oa_claimed e')"
  proof (cases "entry_map h (s, i)")
    case None
    then show ?thesis
      by (simp add: decide_request_def Let_def look calms_def same split: option.split) (simp add: answer_call_def)
  next
    case (Some e)
    then have "key_of e = (s, i)" by (rule hub_ok_fields [OF ok])
    then show ?thesis
      using Some by (auto simp: decide_request_def Let_def look calms_def calmer_def split: origin.split)
  qed
  then show "calms h (decide_request s i d h)"
    and "entry_map (decide_request s i d h) (s, i) = Some e' \<Longrightarrow> oa_claimed e'"
    by auto
qed

lemma calms_refuse:
  assumes ok: "hub_ok h"
  shows "calms h (refuse_dispatch put code problem h)"
proof (cases "entry_map h (pd_subject put, pd_id put)")
  case None
  then show ?thesis by (simp add: refuse_dispatch_def Let_def entry_map_lookup calms_def)
next
  case (Some e)
  then have "key_of e = (pd_subject put, pd_id put)" by (rule hub_ok_fields [OF ok])
  then show ?thesis
    using Some by (auto simp: refuse_dispatch_def Let_def entry_map_lookup calms_def calmer_def key_of_def)
qed

lemma calms_dispatch: "hub_ok h \<Longrightarrow> calms h (dispatch_answers k result h)"
proof -
  assume ok: "hub_ok h"
  have one: "hub_ok (h\<lparr>hb_dispatching := drop_nth k (hb_dispatching h)\<rparr>)" if "k < length (hb_dispatching h)"
    by (rule flight_ok [OF ok set_drop_nth]) (simp add: in_flight_drop [OF that])
  have "calms h (h\<lparr>hb_dispatching := drop_nth k (hb_dispatching h)\<rparr>)" by (simp add: calms_def)
  with one show ?thesis
    by (auto simp: dispatch_answers_def Let_def calms_refl split: put_result.split
        intro: calms_trans [OF _ calms_refuse])
qed

section \<open>The other events\<close>

lemma end_where_ok:
  assumes "hub_ok h"
  shows "hub_ok (end_where P h) \<and> calms h (end_where P h)"
proof -
  let ?f = "\<lambda>h e. case lookup_open h (oa_subject e) (ar_id (oa_request e)) of
              None \<Rightarrow> h | Some e \<Rightarrow> if P e then end_approval e Withdrawn h else h"
  have "hub_ok (foldl ?f g xs) \<and> calms g (foldl ?f g xs)" if "hub_ok g" for g xs
    using that
  proof (induction xs arbitrary: g)
    case (Cons x xs)
    have "hub_ok (?f g x) \<and> calms g (?f g x)"
      using Cons.prems end_ok [OF Cons.prems] calms_end [of g]
      by (auto simp: entry_map_lookup calms_refl split: option.split)
    then show ?case using Cons.IH [of "?f g x"] calms_trans by auto
  qed (simp add: calms_refl)
  then show ?thesis using assms by (simp add: end_where_def)
qed

lemma fresh_ok:
  fixes now :: nat
  assumes ok: "all_ok h" and none: "entry_map h (s, ar_id request) = None" and fits: "origin_fits from s"
  defines "f \<equiv> fresh_entry s request now from (hb_minted h)"
  shows "all_ok (announce s ((put_entry f h)\<lparr>hb_minted := hb_minted h + 1\<rparr>))" (is "all_ok ?h")
proof -
  have hok: "hub_ok h" using ok by (simp add: all_ok_def)
  have logs: "applied ?h = applied h" "sent ?h = sent h" "in_flight ?h = in_flight h" by simp_all
  have log: "log_ok h" using hok by (simp add: hub_ok_def)
  have quiet: "sent h (hb_minted h) = 0" "in_flight h (hb_minted h) = 0" "hb_minted h \<notin> fst ` set (applied h)"
    using log by (fastforce simp: log_ok_def sent_def in_flight_def filter_empty_conv)+
  have "hub_ok ?h"
  proof (rule hub_ok_new [OF hok, where f = f])
    show "entry_map h (key_of f) = None" using none by (simp add: f_def)
    show "hb_open ?h = hb_open (put_entry f h)" by simp
    show "open_ok ?h f"
      unfolding open_ok_def logs using fits quiet log
      by (auto simp: f_def fresh_entry_def log_ok_def dest!: bspec)
    show "open_ok ?h e'" if "open_ok h e'" for e'
      using that unfolding open_ok_def logs by auto
    show "log_ok ?h" using log unfolding log_ok_def logs by (auto intro: less_SucI)
  qed (simp_all add: f_def fresh_entry_def calls_answered_def)
  moreover have "consults_ok ?h"
  proof -
    have "oa_serial f = hb_minted h" by (simp add: f_def fresh_entry_def)
    then show ?thesis using ok by (fastforce simp: all_ok_def consults_ok_def split: if_splits)
  qed
  moreover have "marks_ok ?h"
    using ok by (auto simp: all_ok_def marks_ok_def f_def fresh_entry_def)
  ultimately show ?thesis by (simp add: all_ok_def)
qed

lemma all_ok_cong:
  assumes "all_ok h" "hb_open h = hb_open h'" "hb_minted h = hb_minted h'" "hb_dispatched h = hb_dispatched h'"
    "hb_dispatching h = hb_dispatching h'" "hb_refused h = hb_refused h'" "hb_answers h = hb_answers h'"
    "hb_calls h = hb_calls h'" and cons: "consults_ok h'"
  shows "all_ok h'"
proof -
  have app: "applied h = applied h'" using assms by (simp add: applied_def)
  have "open_ok h = open_ok h'" by (intro ext open_ok_cong) (use assms app in auto)
  moreover have "log_ok h = log_ok h'" by (rule log_ok_cong) (use assms app in auto)
  moreover have "calls_ok h = calls_ok h'"
    using assms waiting_open [of h h'] by (simp add: calls_ok_def calls_answered_def)
  ultimately show ?thesis
    using assms entry_map_open [of h h'] hub_wf_open [of h h'] by (simp add: all_ok_def hub_ok_def marks_ok_def)
qed

lemma consult_all_ok:
  assumes ok: "all_ok h"
  shows "all_ok (consult (Session_Subject store session) i h)"
proof (cases "entry_map h (Session_Subject store session, i)")
  case (Some e)
  have "oa_serial e < hb_minted h"
    using ok hub_ok_fields(1) [OF _ Some] by (simp add: all_ok_def open_ok_def)
  then show ?thesis
    using ok Some unfolding consult_def entry_map_lookup
    by (auto intro!: all_ok_cong [OF ok]) (auto simp: all_ok_def consults_ok_def)
qed (use ok in \<open>simp add: consult_def entry_map_lookup\<close>)

lemma mark_ok:
  assumes ok: "hub_ok h" and e: "entry_map h (s, i) = Some e" and cut: "\<not> ar_truncated (oa_request e)"
  shows "hub_ok (announce s (put_entry (e\<lparr>oa_by_policy := Some g, oa_answered_by := Some g\<rparr>) h))" (is "hub_ok ?g")
proof (rule hub_ok_put [OF ok, where e = e])
  let ?f = "e\<lparr>oa_by_policy := Some g, oa_answered_by := Some g\<rparr>"
  have key: "key_of e = (s, i)" and eok: "open_ok h e" using hub_ok_fields [OF ok e] by auto
  show "entry_map h (key_of ?f) = Some e" using e key by simp
  show "open_ok ?g ?f" using eok cut by (auto simp: open_ok_def)
  show "open_ok ?g e'" if "open_ok h e'" for e' using that by (auto simp: open_ok_def)
  show "log_ok ?g" using ok by (auto simp: hub_ok_def log_ok_def)
qed (simp_all add: calls_answered_def)

lemma policy_all_ok:
  assumes ok: "all_ok h"
  shows "all_ok (policy_answers k grant h)"
proof (cases "k < length (hb_consulting h)")
  case True
  obtain n s i where nsi: "hb_consulting h ! k = (n, s, i)" by (cases "hb_consulting h ! k")
  let ?h = "h\<lparr>hb_consulting := drop_nth k (hb_consulting h)\<rparr>"
  have part: "(n, s, i) \<in> set (hb_consulting h)" using nth_mem [OF True] by (simp add: nsi)
  have ok1: "all_ok ?h"
  proof (rule all_ok_cong [OF ok])
    show "consults_ok ?h"
      using ok set_drop_nth [of k "hb_consulting h"] unfolding all_ok_def consults_ok_def by simp blast
  qed simp_all
  show ?thesis
  proof (cases "\<exists>g e. grant = Some g \<and> entry_map h (s, i) = Some e \<and> oa_serial e = n \<and> \<not> oa_claimed e")
    case False
    then show ?thesis
      using ok1 True by (auto simp: policy_answers_def Let_def nsi entry_map_lookup split: option.split)
  next
    case marks: True
    then obtain g e where g: "grant = Some g" and e: "entry_map h (s, i) = Some e" "oa_serial e = n" "\<not> oa_claimed e"
      by blast
    have key: "key_of e = (s, i)"
      using ok1 e(1) hub_ok_fields [of ?h "(s, i)" e] by (auto simp: all_ok_def)
    have cut: "\<not> ar_truncated (oa_request e)"
      using ok part e by (fastforce simp: all_ok_def consults_ok_def)
    define f where "f = e\<lparr>oa_by_policy := Some g, oa_answered_by := Some g\<rparr>"
    let ?g = "announce s (put_entry f ?h)"
    have hub: "hub_ok ?g"
      using mark_ok [of ?h s i e g] ok1 e cut by (simp add: all_ok_def f_def)
    let ?d = "decide_request s i Grant ?g"
    have d: "hub_ok ?d" "calms ?g ?d" and won: "\<And>e'. entry_map ?d (s, i) = Some e' \<Longrightarrow> oa_claimed e'"
      using decide_ok [OF hub] calms_decide [OF hub] by auto
    have cons: "consults_ok ?g"
      using ok1 e key by (fastforce simp: all_ok_def consults_ok_def f_def split: if_splits)
    have "consults_ok ?d"
      by (rule calms_consults [OF d(2) cons])
    moreover have "marks_ok ?d"
      unfolding marks_ok_def
    proof (intro allI impI)
      fix k' e'
      assume e': "entry_map ?d k' = Some e'" and m: "oa_by_policy e' \<noteq> None"
      show "oa_claimed e'"
      proof (cases "k' = (s, i)")
        case False
        obtain e0 where "entry_map ?g k' = Some e0" "oa_by_policy e0 \<noteq> None" "oa_claimed e0 \<longrightarrow> oa_claimed e'"
          using d(2) e' m unfolding calms_def calmer_def by metis
        moreover from this have "entry_map ?h k' = Some e0" using False key by (simp add: f_def)
        ultimately show ?thesis using ok1 unfolding all_ok_def marks_ok_def by metis
      qed (use won e' in simp)
    qed
    moreover have "policy_answers k grant h = ?d"
      using True g e by (simp add: policy_answers_def Let_def nsi entry_map_lookup f_def)
    ultimately show ?thesis using d by (simp add: all_ok_def)
  qed
qed (use ok in \<open>simp add: policy_answers_def\<close>)

lemma all_ok_asks:
  assumes ok: "all_ok h"
  shows "all_ok (h\<lparr>hb_asks := n\<rparr>)" and "all_ok (h\<lparr>hb_resolved := q\<rparr>)"
proof -
  have "consults_ok (h\<lparr>hb_asks := n\<rparr>)" "consults_ok (h\<lparr>hb_resolved := q\<rparr>)"
    using ok by (simp_all add: all_ok_def consults_ok_def)
  then show "all_ok (h\<lparr>hb_asks := n\<rparr>)" and "all_ok (h\<lparr>hb_resolved := q\<rparr>)"
    by - (rule all_ok_cong [OF ok]; simp)+
qed

lemma hub_step_ok:
  assumes ok: "all_ok h"
  shows "all_ok (hub_step h e)"
proof -
  have hok: "hub_ok h" using ok by (simp add: all_ok_def)
  have ends: "all_ok (end_approval e r h)" if "entry_map h k = Some e" for k e r
    using calms_all [OF ok end_ok [OF hok that] calms_end] .
  show ?thesis
  proof (cases e)
    case (Machine_Asks source store session request now)
    let ?s = "Session_Subject store session"
    show ?thesis
    proof (cases "entry_map h (?s, ar_id request)")
      case None
      have "all_ok (announce ?s ((put_entry (fresh_entry ?s request now (Machine source) (hb_minted h)) h)
          \<lparr>hb_minted := hb_minted h + 1\<rparr>))"
        by (rule fresh_ok [OF ok None]) simp
      from consult_all_ok [OF this] show ?thesis
        using None by (simp add: Machine_Asks requested_def Let_def entry_map_lookup)
    qed (use ok in \<open>simp add: Machine_Asks requested_def Let_def entry_map_lookup\<close>)
  next
    case (Machine_Says source store session i outcome)
    then show ?thesis
      using ok ends by (auto simp: machine_says_def held_by_def entry_map_lookup split: option.split origin.split)
  next
    case (Server_Gone source)
    then show ?thesis
      using calms_all [OF ok] end_where_ok [OF hok] by (simp add: server_gone_def)
  next
    case (Client_Decides s i decision)
    then show ?thesis using calms_all [OF ok decide_ok [OF hok] calms_decide(1) [OF hok]] by simp
  next
    case (Dispatch_Answers k result)
    then show ?thesis using calms_all [OF ok dispatch_answers_ok [OF hok] calms_dispatch [OF hok]] by simp
  next
    case (Policy_Answers k grant)
    then show ?thesis using policy_all_ok [OF ok] by simp
  next
    case (Run_Asks r n request about now)
    let ?s = "Run_Subject r n" and ?h = "h\<lparr>hb_asks := Suc (hb_asks h)\<rparr>"
    have ok1: "all_ok (?h\<lparr>hb_resolved := q\<rparr>)" "all_ok ?h" for q
      using all_ok_asks [OF all_ok_asks(1) [OF ok]] by simp_all
    show ?thesis
    proof (cases "entry_map h (?s, ar_id request)")
      case None
      have "all_ok (announce ?s ((put_entry (fresh_entry ?s request now (Hub_Origin about (hb_asks h)) (hb_minted ?h)) ?h)
          \<lparr>hb_minted := hb_minted ?h + 1\<rparr>))"
        by (rule fresh_ok [OF ok1(2)]) (simp_all add: None)
      then show ?thesis using None by (simp add: Run_Asks requested_by_hub_def Let_def entry_map_lookup)
    qed (use ok1 in \<open>simp add: Run_Asks requested_by_hub_def Let_def entry_map_lookup\<close>)
  next
    case (Run_Stops r)
    then show ?thesis using calms_all [OF ok] end_where_ok [OF hok] by (simp add: withdrawn_by_hub_def)
  next
    case (Step_Stops r n i)
    then show ?thesis
      using ok ends by (auto simp: withdrawn_one_by_hub_def entry_map_lookup split: option.split origin.split)
  qed
qed

lemma create_approvals_ok: "all_ok create_approvals"
proof -
  have "entry_map create_approvals = (\<lambda>k. None)"
    by (simp add: entry_map_def lookup_open_def held_of_def create_approvals_def fun_eq_iff)
  then show ?thesis
    by (simp add: all_ok_def hub_ok_def serials_ok_def consults_ok_def marks_ok_def)
       (simp add: create_approvals_def hub_wf_def log_ok_def calls_ok_def calls_answered_def calls_waiting_def
          all_entries_def applied_def sent_def List.map_filter_def)
qed

interpretation hub_machine: event_machine hub_step all_ok
  by unfold_locales (rule hub_step_ok)

lemma hub_run_ok: "all_ok (hub_run es)"
  unfolding hub_run_def by (rule hub_machine.run_inv [OF create_approvals_ok])

text \<open>
  Claim C7: nobody's answer is lost and nobody is answered twice.  Of the calls of \<open>decide\<close> a run has
  seen, each has been answered exactly once or waits exactly once, on a request that is still open;
  so once nothing is open, everybody has been answered.
\<close>

theorem every_call_answered_once:
  "calls_answered (hub_run es) + calls_waiting (hub_run es) = mset [0..<hb_calls (hub_run es)]
     \<and> distinct (map fst (hb_answers (hub_run es)))
     \<and> (hb_open (hub_run es) = [] \<longrightarrow> set (map fst (hb_answers (hub_run es))) = {0..<hb_calls (hub_run es)})"
proof -
  let ?h = "hub_run es"
  have calls: "calls_answered ?h + calls_waiting ?h = mset [0..<hb_calls ?h]"
    using hub_run_ok [of es] by (simp add: all_ok_def hub_ok_def calls_ok_def)
  have "mset (map fst (hb_answers ?h)) \<subseteq># mset [0..<hb_calls ?h]"
    using calls unfolding calls_answered_def by (metis mset_subset_eq_add_left)
  then have le: "count (mset (map fst (hb_answers ?h))) a \<le> count (mset [0..<hb_calls ?h]) a" for a
    by (rule mset_subset_eq_count)
  have "count (mset [0..<hb_calls ?h]) a \<le> 1" for a
    using distinct_count_atmost_1 [of "[0..<hb_calls ?h]"] by simp
  then have one: "count (mset (map fst (hb_answers ?h))) a \<le> 1" for a
    using le [of a] le_trans by blast
  have dist: "distinct (map fst (hb_answers ?h))"
    unfolding distinct_count_atmost_1
  proof
    fix a
    show "count (mset (map fst (hb_answers ?h))) a = (if a \<in> set (map fst (hb_answers ?h)) then 1 else 0)"
      using one [of a] count_greater_zero_iff [of "mset (map fst (hb_answers ?h))" a]
      by (cases "count (mset (map fst (hb_answers ?h))) a") (auto simp del: count_greater_zero_iff)
  qed
  have "set (map fst (hb_answers ?h)) = {0..<hb_calls ?h}" if "hb_open ?h = []"
  proof -
    have "calls_waiting ?h = {#}" using that by (simp add: calls_waiting_def all_entries_def)
    then have "mset (map fst (hb_answers ?h)) = mset [0..<hb_calls ?h]" using calls by (simp add: calls_answered_def)
    then show ?thesis using mset_eq_setD by fastforce
  qed
  with calls dist show ?thesis by blast
qed

text \<open>
  Claim C6: a request is decided once.  Whatever clients, machines and the policy do: a decision is put
  to a machine again only after every earlier one for that request was refused; it is put only to the
  machine that reported the request; at most one call per request is told its answer was applied, and if
  anything was sent for the request, that call is one whose decision was sent.
\<close>

theorem request_decided_once:
  "sent (hub_run es) n \<le> count_list (hb_refused (hub_run es)) n + 1
     \<and> distinct (map fst (applied (hub_run es)))
     \<and> (\<forall>(m, c) \<in> set (applied (hub_run es)). 0 < sent (hub_run es) m \<longrightarrow>
          (\<exists>p \<in> set (hb_dispatched (hub_run es)). pd_serial p = m \<and> pd_call p = c))
     \<and> (\<forall>k e. entry_map (hub_run es) k = Some e \<longrightarrow>
          (\<forall>p \<in> set (hb_dispatched (hub_run es)). pd_serial p = oa_serial e \<longrightarrow> oa_origin e = Machine (pd_machine p))
          \<and> oa_serial e \<notin> fst ` set (applied (hub_run es))
          \<and> in_flight (hub_run es) (oa_serial e) \<le> (if oa_claimed e then 1 else 0))"
proof -
  have ok: "hub_ok (hub_run es)" using hub_run_ok [of es] by (simp add: all_ok_def)
  have "log_ok (hub_run es)" using ok by (simp add: hub_ok_def)
  then have "sent (hub_run es) n \<le> count_list (hb_refused (hub_run es)) n + 1" "distinct (map fst (applied (hub_run es)))"
    "\<forall>(m, c) \<in> set (applied (hub_run es)). 0 < sent (hub_run es) m \<longrightarrow>
       (\<exists>p \<in> set (hb_dispatched (hub_run es)). pd_serial p = m \<and> pd_call p = c)"
    unfolding log_ok_def by (blast, blast, fast)
  moreover have "(\<forall>p \<in> set (hb_dispatched (hub_run es)). pd_serial p = oa_serial e \<longrightarrow> oa_origin e = Machine (pd_machine p))
      \<and> oa_serial e \<notin> fst ` set (applied (hub_run es))
      \<and> in_flight (hub_run es) (oa_serial e) \<le> (if oa_claimed e then 1 else 0)"
    if "entry_map (hub_run es) k = Some e" for k e
    using hub_ok_fields(1) [OF ok that] unfolding open_ok_def by blast
  ultimately show ?thesis by blast
qed

section \<open>Who may end a request\<close>

lemma end_where_entries:
  assumes wf: "hub_wf h"
  shows "entry_map (end_where P h) = (\<lambda>k. case entry_map h k of None \<Rightarrow> None | Some e \<Rightarrow> if P e then None else Some e)"
proof -
  let ?f = "\<lambda>h e. case lookup_open h (oa_subject e) (ar_id (oa_request e)) of
              None \<Rightarrow> h | Some e \<Rightarrow> if P e then end_approval e Withdrawn h else h"
  have step: "hub_wf (?f g x) \<and> entry_map (?f g x) k = (case entry_map g k of None \<Rightarrow> None
      | Some e \<Rightarrow> if P e \<and> k = key_of x then None else Some e)" if wf: "hub_wf g" for g x k
  proof (cases "entry_map g (key_of x)")
    case None
    then have "?f g x = g" by (simp add: entry_map_lookup key_of_def)
    then show ?thesis using wf None by (auto split: option.split)
  next
    case (Some e)
    have "hub_wf (end_approval e Withdrawn g)"
      using hub_wf_drop [OF wf, of e] hub_wf_open [of "end_approval e Withdrawn g" "drop_entry e g"] by simp
    moreover have "?f g x = (if P e then end_approval e Withdrawn g else g)"
      using Some by (simp add: entry_map_lookup key_of_def)
    ultimately show ?thesis
      using Some wf entry_map_key [OF wf Some] by (auto split: option.split)
  qed
  have "entry_map (foldl ?f g xs) k = (case entry_map g k of None \<Rightarrow> None
      | Some e \<Rightarrow> if P e \<and> k \<in> key_of ` set xs then None else Some e)" if "hub_wf g" for g xs k
    using that
  proof (induction xs arbitrary: g)
    case (Cons x xs)
    have "hub_wf (?f g x)" using step [OF Cons.prems] by blast
    note Cons.IH [OF this]
    then show ?case
      using step [OF Cons.prems, of x k] by (cases "entry_map g k") (simp_all del: foldl.simps add: foldl_Cons)
  qed (auto split: option.split)
  note folded = this [OF wf, of "all_entries h"]
  show ?thesis
  proof
    fix k
    show "entry_map (end_where P h) k = (case entry_map h k of None \<Rightarrow> None | Some e \<Rightarrow> if P e then None else Some e)"
    proof (cases "entry_map h k")
      case (Some e)
      then have "e \<in> set (all_entries h)" "key_of e = k"
        using in_all_entries [OF wf, of e] entry_map_key [OF wf Some] by auto
      then show ?thesis using folded [of k] Some by (auto simp: end_where_def)
    qed (use folded in \<open>simp add: end_where_def\<close>)
  qed
qed

text \<open>
  Claim C15: only the holder ends a request.  Whatever a machine says, a request it does not hold stays
  as it is, and so does every request a run raised; a machine that is gone takes exactly its own requests
  with it; a run that stops asking takes exactly its own.
\<close>

theorem only_holder_ends:
  "(entry_map (hub_run es) k = Some e \<and> oa_origin e \<noteq> Machine source \<longrightarrow>
       entry_map (hub_run (es @ [Machine_Says source store session i outcome])) k = Some e)
   \<and> entry_map (hub_run (es @ [Server_Gone source])) k =
       (case entry_map (hub_run es) k of None \<Rightarrow> None | Some e \<Rightarrow> if oa_origin e = Machine source then None else Some e)
   \<and> entry_map (hub_run (es @ [Run_Stops r])) k =
       (case entry_map (hub_run es) k of None \<Rightarrow> None
        | Some e \<Rightarrow> if \<exists>n. oa_subject e = Run_Subject r n then None else Some e)"
proof -
  have ok: "hub_ok (hub_run es)" using hub_run_ok [of es] by (simp add: all_ok_def)
  then have wf: "hub_wf (hub_run es)" by (simp add: hub_ok_def)
  have step: "hub_run (es @ [x]) = hub_step (hub_run es) x" for x by (simp add: hub_run_def run_append)
  have says: "entry_map (machine_says source store session i outcome (hub_run es)) k = Some e"
    if e: "entry_map (hub_run es) k = Some e" "oa_origin e \<noteq> Machine source"
  proof (cases "held_by source store session i (hub_run es)")
    case (Some f)
    then have f: "entry_map (hub_run es) (Session_Subject store session, i) = Some f" "oa_origin f = Machine source"
      by (auto simp: held_by_def entry_map_lookup split: option.splits origin.splits if_splits)
    then have "k \<noteq> key_of f" using e entry_map_key [OF wf f(1)] by auto
    then show ?thesis using Some e by (simp add: machine_says_def)
  qed (use e in \<open>simp add: machine_says_def\<close>)
  have of_run: "of_run r e \<longleftrightarrow> (\<exists>n. oa_subject e = Run_Subject r n)" if "entry_map (hub_run es) k = Some e" for e
    using hub_ok_fields(1) [OF ok that] by (auto simp: open_ok_def split: origin.split subject.split)
  show ?thesis
    using says of_run unfolding step
    by (auto simp: server_gone_def withdrawn_by_hub_def end_where_entries [OF wf] split: option.split)
qed

end
