(* ===== verification/Hub_Rows.thy ===== *)
theory Hub_Rows
  imports Hub_Once
begin

text \<open>
  What clients are shown: the announcements of \<open>Hub_Approvals\<close> keep the fleet's copy of the open requests,
  one list per session and one of the runs, equal to what the hub holds.
\<close>

section \<open>The fleet's copy\<close>

text \<open>\<open>FleetState.applyApprovals\<close> and \<open>applyGraphRunApprovals\<close> keep the last list they were handed.\<close>

fun shown_row :: "jstr \<Rightarrow> jstr \<Rightarrow> pending_row list \<Rightarrow> announcement \<Rightarrow> pending_row list" where
  "shown_row store session rows (Session_Row store' session' rows') =
     (if store' = store \<and> session' = session then rows' else rows)"
| "shown_row store session rows (Runs_Waiting runs) = rows"

fun shown_runs :: "(run_about \<times> pending_row) list \<Rightarrow> announcement \<Rightarrow> (run_about \<times> pending_row) list" where
  "shown_runs rows (Session_Row store session rows') = rows"
| "shown_runs rows (Runs_Waiting runs) = runs"

definition session_shown :: "approvals \<Rightarrow> jstr \<Rightarrow> jstr \<Rightarrow> pending_row list" where
  "session_shown h store session = foldl (shown_row store session) [] (hb_rows h)"

definition runs_shown :: "approvals \<Rightarrow> (run_about \<times> pending_row) list" where
  "runs_shown h = foldl shown_runs [] (hb_rows h)"

definition rows_but :: "subject option \<Rightarrow> approvals \<Rightarrow> bool" where
  "rows_but s h \<longleftrightarrow>
     (\<forall>store session. s \<noteq> Some (Session_Subject store session) \<longrightarrow>
        session_shown h store session = session_row h (Session_Subject store session))
     \<and> ((\<forall>r n. s \<noteq> Some (Run_Subject r n)) \<longrightarrow> runs_shown h = runs_waiting h)"

abbreviation rows_ok :: "approvals \<Rightarrow> bool" where
  "rows_ok h \<equiv> rows_but None h"

lemma rows_weaken: "rows_ok h \<Longrightarrow> rows_but s h"
  by (simp add: rows_but_def)

lemma rows_cong: "hb_open h = hb_open h' \<Longrightarrow> hb_rows h = hb_rows h' \<Longrightarrow> rows_but s h = rows_but s h'"
  by (simp add: rows_but_def session_shown_def runs_shown_def session_row_def held_of_def runs_waiting_def all_entries_def)

lemma rows_fields [simp]:
  "rows_but s (h\<lparr>hb_calls := c\<rparr>) = rows_but s h" "rows_but s (h\<lparr>hb_minted := n\<rparr>) = rows_but s h"
  "rows_but s (h\<lparr>hb_asks := n\<rparr>) = rows_but s h" "rows_but s (h\<lparr>hb_resolved := v\<rparr>) = rows_but s h"
  "rows_but s (h\<lparr>hb_refused := x\<rparr>) = rows_but s h" "rows_but s (h\<lparr>hb_consulting := q\<rparr>) = rows_but s h"
  "rows_but s (h\<lparr>hb_dispatching := d\<rparr>) = rows_but s h" "rows_but s (h\<lparr>hb_answers := a\<rparr>) = rows_but s h"
  "rows_but s (h\<lparr>hb_dispatching := d, hb_dispatched := d'\<rparr>) = rows_but s h"
  "rows_but s (remember_ending t i r h) = rows_but s h"
  by (rule rows_cong; simp)+


section \<open>Changing one entry\<close>

definition runs_of :: "held \<Rightarrow> (run_about \<times> pending_row) list" where
  "runs_of m = List.map_filter run_row (map snd m)"



lemma runs_of_Nil [simp]: "runs_of [] = []"
  by (simp add: runs_of_def List.map_filter_def)










section \<open>Every event\<close>











section \<open>A small hub\<close>

definition small_request :: approval_request where
  "small_request = \<lparr>ar_id = [1], ar_tool = [66], ar_proposal = [108, 115], ar_truncated = False, ar_suggestions = []\<rparr>"

text \<open>Two clients tap; meanwhile the machine settles the request, answered through another hub.\<close>

definition two_taps :: "hub_event list" where
  "two_taps =
     [Machine_Asks [9] [2] [3] small_request 5,
      Client_Decides (Session_Subject [2] [3]) [1] Deny,
      Client_Decides (Session_Subject [2] [3]) [1] Grant]"

lemma two_taps_state:
  "hb_calls (hub_run two_taps) = 2" "hb_answers (hub_run two_taps) = []"
  "map fst (hb_open (hub_run two_taps)) = [Session_Subject [2] [3]]"
  by code_simp+

text \<open>
  The machine's word ends a request for whoever waits on it.  Where two hubs serve one machine, a deny in
  flight here while the other hub's grant is applied there is answered as the decision that was applied.
\<close>

lemma deny_answered_as_applied_grant:
  "hb_answers (hub_run (two_taps @ [Machine_Says [9] [2] [3] [1] Granted]))
     = [(0, Some 0, Applied Granted None), (1, Some 0, Not_Applied (Some Granted) None (Was_Answered Granted))]
   \<and> map pd_decision (hb_dispatched (hub_run two_taps)) = [Deny]"
  by code_simp

theorem every_call_answered_once_witness:
  "hb_open (hub_run (two_taps @ [Server_Gone [9]])) = []
     \<and> set (map fst (hb_answers (hub_run (two_taps @ [Server_Gone [9]])))) = {0, 1}"
proof -
  have o: "hb_open (hub_run (two_taps @ [Server_Gone [9]])) = []" by code_simp
  have c: "hb_calls (hub_run (two_taps @ [Server_Gone [9]])) = 2" by code_simp
  have "set (map fst (hb_answers (hub_run (two_taps @ [Server_Gone [9]])))) = {0..<2}"
    using every_call_answered_once [of "two_taps @ [Server_Gone [9]]"] o c by simp
  then show ?thesis using o by (simp add: atLeastLessThan_nat_numeral) auto
qed

theorem request_decided_once_witness:
  "applied (hub_run (two_taps @ [Machine_Says [9] [2] [3] [1] Granted])) = [(0, 0)]
     \<and> (\<exists>p \<in> set (hb_dispatched (hub_run (two_taps @ [Machine_Says [9] [2] [3] [1] Granted]))). pd_serial p = 0 \<and> pd_call p = 0)"
proof -
  have a: "applied (hub_run (two_taps @ [Machine_Says [9] [2] [3] [1] Granted])) = [(0, 0)]" by code_simp
  have "sent (hub_run (two_taps @ [Machine_Says [9] [2] [3] [1] Granted])) 0 = 1" by code_simp
  then show ?thesis
    using request_decided_once [of "two_taps @ [Machine_Says [9] [2] [3] [1] Granted]" 0] a by auto
qed

theorem only_holder_ends_witness:
  "map_option oa_serial (entry_map (hub_run (two_taps @ [Machine_Says [8] [2] [3] [1] Granted])) (Session_Subject [2] [3], [1])) = Some 0"
proof -
  have "map_option (\<lambda>e. (oa_serial e, oa_origin e)) (entry_map (hub_run two_taps) (Session_Subject [2] [3], [1])) = Some (0, Machine [9])"
    by code_simp
  then obtain e where e: "entry_map (hub_run two_taps) (Session_Subject [2] [3], [1]) = Some e"
      "oa_serial e = 0" "oa_origin e = Machine [9]"
    by auto
  then show ?thesis
    using only_holder_ends [of two_taps "(Session_Subject [2] [3], [1])" e "[8]" "[2]" "[3]" "[1]" Granted] by simp
qed


end
