(* ===== verification/Policy_Table.thy ===== *)
theory Policy_Table
  imports Approval_Policy
begin

text \<open>
  The table the standing policy keeps, when this program is its only writer: its invariant, and the map
  from a project, a tool and a proposal to the rule that covers them, which every operation updates in
  one entry.
\<close>

section \<open>The invariant\<close>

type_synonym rule_key = "jstr \<times> jstr \<times> jstr"

definition row_key :: "policy_row \<Rightarrow> rule_key" where
  "row_key w = (pw_node w, pw_tool w, pw_proposal w)"

definition policy_ok :: "(nat \<Rightarrow> jstr) \<Rightarrow> policy_db \<Rightarrow> bool" where
  "policy_ok ids db \<longleftrightarrow> inj ids \<and> (\<forall>n. opaque_id (ids n))
     \<and> distinct (map row_key (pd_rows db))
     \<and> distinct (map pw_id (pd_rows db))
     \<and> (\<forall>w \<in> set (pd_rows db). read_row w \<noteq> None \<and> pw_node w \<in> set (pd_projects db)
          \<and> (\<exists>n < pd_minted db. pw_id w = ids n))
     \<and> (\<forall>p \<in> set (pd_projects db). opaque_id p)
     \<and> (\<forall>(p, r) \<in> set (pd_adding db). parse_policy_rule (Some (pl_tool r, pl_proposal r)) = Inr r)"

lemma empty_policy_ok: "inj ids \<Longrightarrow> \<forall>n. opaque_id (ids n) \<Longrightarrow> policy_ok ids empty_policy"
  by (simp add: policy_ok_def empty_policy_def)

text \<open>The rule that covers a request, as the map the policy stands for.\<close>

definition granted :: "policy_db \<Rightarrow> rule_key \<Rightarrow> jstr option" where
  "granted db k = (case k of (project, tool, proposal) \<Rightarrow>
     map_option pg_rule_id (grant_for (In_Project project) True db tool proposal))"

abbreviation row_map :: "policy_row list \<Rightarrow> rule_key \<Rightarrow> jstr option" where
  "row_map rows \<equiv> map_of (map (\<lambda>w. (row_key w, pw_id w)) rows)"

lemma row_map_eq:
  "distinct (map row_key rows) \<Longrightarrow> row_map rows k = Some i \<longleftrightarrow> (\<exists>w \<in> set rows. row_key w = k \<and> pw_id w = i)"
  by (subst map_of_eq_Some_iff) (auto simp: comp_def)

lemma row_map_None: "row_map rows k = None \<longleftrightarrow> (\<forall>w \<in> set rows. row_key w \<noteq> k)"
  by (auto simp: map_of_eq_None_iff image_iff)

lemma granted_rows:
  assumes ok: "policy_ok ids db"
  shows "granted db = row_map (pd_rows db)"
proof
  fix k :: rule_key
  obtain p t q where k: "k = (p, t, q)" by (cases k)
  show "granted db k = row_map (pd_rows db) k"
  proof (cases "grant_for (In_Project p) True db t q")
    case None
    have "row_key w \<noteq> k" if "w \<in> set (pd_rows db)" for w
      using grant_complete [OF that] ok that None by (auto simp: policy_ok_def row_key_def k)
    then have "row_map (pd_rows db) k = None" unfolding row_map_None by blast
    then show ?thesis using None by (simp add: granted_def k)
  next
    case (Some g)
    obtain w where w: "w \<in> set (pd_rows db)" "row_key w = k" "pw_id w = pg_rule_id g"
    proof (rule grant_sound [OF Some])
      fix w r
      assume "In_Project p = In_Project (pg_project g)" "w \<in> set (pd_rows db)" "pw_tool w = t" "pw_proposal w = q"
        "g = \<lparr>pg_project = pw_node w, pg_rule_id = pw_id w, pg_rule = \<lparr>pl_tool = t, pl_proposal = q\<rparr>\<rparr>"
      then show thesis using that [of w] by (simp add: row_key_def k)
    qed
    have "row_map (pd_rows db) k = Some (pg_rule_id g)"
      using w ok by (subst row_map_eq) (auto simp: policy_ok_def)
    then show ?thesis using Some by (simp add: granted_def k)
  qed
qed

section \<open>Every operation\<close>

lemma row_map_filter:
  "distinct (map row_key rows) \<Longrightarrow>
     row_map (filter P rows) k = (case find (\<lambda>w. row_key w = k) rows of
        None \<Rightarrow> None | Some w \<Rightarrow> if P w then Some (pw_id w) else None)"
  by (induction rows) (auto simp: row_map_None find_None_iff split: option.split dest!: find_Some_in)

lemma row_map_find:
  "row_map rows k = map_option pw_id (find (\<lambda>w. row_key w = k) rows)"
  by (induction rows) auto

lemma policy_ok_rows:
  assumes "policy_ok ids db"
  shows "policy_ok ids (db\<lparr>pd_rows := filter P (pd_rows db)\<rparr>)"
    and "policy_ok ids (db\<lparr>pd_projects := removeAll p (pd_projects db), pd_rows := filter (\<lambda>w. pw_node w \<noteq> p) (pd_rows db)\<rparr>)"
  using assms by (auto simp: policy_ok_def distinct_map_filter)

definition new_row :: "(nat \<Rightarrow> jstr) \<Rightarrow> jstr \<Rightarrow> policy_rule \<Rightarrow> nat \<Rightarrow> policy_db \<Rightarrow> policy_row" where
  "new_row ids p r now db = \<lparr>pw_id = ids (pd_minted db), pw_node = p, pw_tool = pl_tool r,
     pw_proposal = pl_proposal r, pw_created = int now\<rparr>"

lemma policy_ok_minted: "policy_ok ids db \<Longrightarrow> policy_ok ids (db\<lparr>pd_minted := Suc (pd_minted db)\<rparr>)"
  by (simp add: policy_ok_def) (meson less_SucI)

lemma same_rule_key: "same_rule v w \<longleftrightarrow> row_key v = row_key w"
  by (auto simp: same_rule_def row_key_def)

text \<open>What a write does to an invariant table.\<close>

lemma write_add_cases:
  fixes p :: jstr and now :: nat
  assumes ok: "policy_ok ids db" and r: "parse_policy_rule (Some (pl_tool r, pl_proposal r)) = Inr r"
  defines "w \<equiv> new_row ids p r now db" and "db1 \<equiv> db\<lparr>pd_minted := pd_minted db + 1\<rparr>"
  shows "write_add ids p r now db =
     (if row_key w \<in> row_key ` set (pd_rows db) then (db1, True)
      else if p \<notin> set (pd_projects db) then (db1, False)
      else (db1\<lparr>pd_rows := pd_rows db @ [w]\<rparr>, True))"
    and "policy_ok ids (fst (write_add ids p r now db))"
proof -
  have fresh: "pw_id w \<notin> pw_id ` set (pd_rows db)"
    using ok by (auto simp: policy_ok_def w_def new_row_def image_iff dest!: bspec dest: injD)
  have ins: "insert_rule w db1 = (if row_key w \<in> row_key ` set (pd_rows db) then Some db1
      else if p \<notin> set (pd_projects db) then None else Some (db1\<lparr>pd_rows := pd_rows db @ [w]\<rparr>))"
    using fresh by (auto simp: insert_rule_def db1_def same_rule_key list_ex_iff image_iff w_def new_row_def)
  show eq: "write_add ids p r now db =
     (if row_key w \<in> row_key ` set (pd_rows db) then (db1, True)
      else if p \<notin> set (pd_projects db) then (db1, False)
      else (db1\<lparr>pd_rows := pd_rows db @ [w]\<rparr>, True))"
    unfolding write_add_def Let_def using ins by (simp add: w_def new_row_def db1_def)
  have db1: "policy_ok ids db1" using policy_ok_minted [OF ok] by (simp add: db1_def)
  have readable: "read_row w \<noteq> None" if "p \<in> set (pd_projects db)"
  proof -
    have "opaque_id p" "opaque_id (ids (pd_minted db))" using ok that by (auto simp: policy_ok_def)
    moreover have "pl_tool r \<noteq> []" "pl_proposal r \<noteq> []" "length (pl_proposal r) \<le> approval_proposal_max_chars"
      using parse_policy_rule_text [OF r] by (auto simp: js_trim_def)
    ultimately show ?thesis using r by (simp add: read_row_def stored_row_ok_def w_def new_row_def opaque_id_def)
  qed
  show "policy_ok ids (fst (write_add ids p r now db))"
    unfolding eq using db1 ok fresh readable
    by (auto simp: policy_ok_def db1_def w_def new_row_def)
qed

lemma parse_fixed:
  "parse_policy_rule draft = Inr r \<Longrightarrow> parse_policy_rule (Some (pl_tool r, pl_proposal r)) = Inr r"
proof (cases draft)
  case (Some d)
  assume "parse_policy_rule draft = Inr r"
  then show ?thesis using parse_policy_rule_text [of "fst d" "snd d" r] Some by simp
qed (simp add: parse_policy_rule_def)

lemma policy_step_ok: "policy_ok ids db \<Longrightarrow> policy_ok ids (policy_step ids db e)"
proof (cases e)
  case (Add_Checks project draft)
  assume "policy_ok ids db"
  then show ?thesis
    using parse_fixed [of draft]
    by (cases "check_add project draft db")
       (auto simp: Add_Checks check_add_def policy_ok_def Let_def split: sum.splits if_splits)
next
  case (Add_Writes k now)
  assume ok: "policy_ok ids db"
  show ?thesis
  proof (cases "k < length (pd_adding db)")
    case True
    obtain p r where pr: "pd_adding db ! k = (p, r)" by (cases "pd_adding db ! k")
    then have r: "parse_policy_rule (Some (pl_tool r, pl_proposal r)) = Inr r"
      using ok nth_mem [OF True] by (auto simp: policy_ok_def)
    have "policy_ok ids (db\<lparr>pd_adding := take k (pd_adding db) @ drop (Suc k) (pd_adding db)\<rparr>)"
      using ok by (auto simp: policy_ok_def dest: in_set_takeD in_set_dropD)
    from write_add_cases(2) [OF this r] show ?thesis using True by (simp add: Add_Writes pr)
  qed (use ok Add_Writes in simp)
next
  case (Project_Made p)
  assume "policy_ok ids db"
  then show ?thesis by (auto simp: Project_Made policy_ok_def)
qed (simp_all add: remove_rule_def policy_ok_rows)

section \<open>The map every event updates\<close>

fun policy_effect ::
    "(nat \<Rightarrow> jstr) \<Rightarrow> policy_db \<Rightarrow> policy_event \<Rightarrow> (rule_key \<Rightarrow> jstr option) \<Rightarrow> rule_key \<Rightarrow> jstr option" where
  "policy_effect ids db (Add_Checks project draft) m = m"
| "policy_effect ids db (Add_Writes k now) m =
     (if k < length (pd_adding db)
      then (case pd_adding db ! k of
              (p, r) \<Rightarrow>
                if p \<in> set (pd_projects db) \<and> m (p, pl_tool r, pl_proposal r) = None
                then m((p, pl_tool r, pl_proposal r) \<mapsto> ids (pd_minted db)) else m)
      else m)"
| "policy_effect ids db (Remove_Rule p i) m = (\<lambda>k. if fst k = p \<and> m k = Some i then None else m k)"
| "policy_effect ids db (Project_Made p) m = m"
| "policy_effect ids db (Project_Removed p) m = (\<lambda>k. if fst k = p then None else m k)"

interpretation policy_table: event_machine "policy_step ids" "policy_ok ids" for ids
  by unfold_locales (rule policy_step_ok)

lemma policy_run_ok: "inj ids \<Longrightarrow> \<forall>n. opaque_id (ids n) \<Longrightarrow> policy_ok ids (policy_run ids es)"
  unfolding policy_run_def by (rule policy_table.run_inv [OF empty_policy_ok])

lemma granted_covering:
  "granted db (p, pl_tool r, pl_proposal r) = map_option rec_id (covering r (read_policy db p))"
  by (simp add: granted_def grant_for_def covering_def option.map_comp comp_def split: option.split)

lemma granted_projects:
  "policy_ok ids db \<Longrightarrow> granted db k \<noteq> None \<Longrightarrow> fst k \<in> set (pd_projects db)"
proof -
  assume ok: "policy_ok ids db" and "granted db k \<noteq> None"
  then obtain w where "w \<in> set (pd_rows db)" "row_key w = k" unfolding granted_rows [OF ok] row_map_None by blast
  then show ?thesis using ok by (auto simp: policy_ok_def row_key_def)
qed

lemma row_map_removed:
  assumes "distinct (map row_key rows)"
  shows "row_map (filter (\<lambda>w. \<not> (pw_id w = i \<and> pw_node w = p)) rows) =
     (\<lambda>k. if fst k = p \<and> row_map rows k = Some i then None else row_map rows k)"
proof
  fix k
  show "row_map (filter (\<lambda>w. \<not> (pw_id w = i \<and> pw_node w = p)) rows) k =
     (if fst k = p \<and> row_map rows k = Some i then None else row_map rows k)"
    unfolding row_map_filter [OF assms] row_map_find [of rows]
    by (auto simp: row_key_def split: option.split dest!: find_Some_in)
qed

lemma granted_write:
  assumes ok: "policy_ok ids db" and r: "parse_policy_rule (Some (pl_tool r, pl_proposal r)) = Inr r"
  shows "granted (fst (write_add ids p r now db)) =
     (if p \<in> set (pd_projects db) \<and> granted db (p, pl_tool r, pl_proposal r) = None
      then (granted db)((p, pl_tool r, pl_proposal r) \<mapsto> ids (pd_minted db)) else granted db)"
proof -
  let ?k = "(p, pl_tool r, pl_proposal r)"
  have key: "row_key (new_row ids p r now db) = ?k" by (simp add: row_key_def new_row_def)
  have none: "?k \<in> row_key ` set (pd_rows db) \<longleftrightarrow> granted db ?k \<noteq> None"
    unfolding granted_rows [OF ok] row_map_None image_iff by metis
  have "granted (fst (write_add ids p r now db)) = row_map (pd_rows (fst (write_add ids p r now db)))"
    by (rule granted_rows [OF write_add_cases(2) [OF ok r]])
  moreover have "row_map (pd_rows (fst (write_add ids p r now db))) =
      (if p \<in> set (pd_projects db) \<and> granted db ?k = None then (granted db)(?k \<mapsto> ids (pd_minted db)) else granted db)"
  proof (cases "granted db ?k = None \<and> p \<in> set (pd_projects db)")
    case True
    have "row_map (pd_rows db @ [new_row ids p r now db]) = (row_map (pd_rows db))(?k \<mapsto> ids (pd_minted db))"
      using True unfolding granted_rows [OF ok]
      by (simp add: map_add_def fun_eq_iff key split: option.split) (simp add: new_row_def)
    then show ?thesis using True none by (simp add: write_add_cases(1) [OF ok r] key granted_rows [OF ok])
  next
    case False
    then show ?thesis
      using none granted_projects [OF ok, of ?k] by (auto simp: write_add_cases(1) [OF ok r] key granted_rows [OF ok])
  qed
  ultimately show ?thesis by simp
qed

lemma granted_step:
  assumes ok: "policy_ok ids db"
  shows "granted (policy_step ids db e) = policy_effect ids db e (granted db)"
proof (cases e)
  case (Add_Checks project draft)
  have "granted (db\<lparr>pd_adding := a\<rparr>) = granted db" for a
    by (simp add: granted_def grant_for_def read_policy_def fun_eq_iff)
  then show ?thesis by (simp add: Add_Checks split: sum.split)
next
  case (Add_Writes k now)
  show ?thesis
  proof (cases "k < length (pd_adding db)")
    case True
    let ?db = "db\<lparr>pd_adding := take k (pd_adding db) @ drop (Suc k) (pd_adding db)\<rparr>"
    obtain p r where pr: "pd_adding db ! k = (p, r)" by (cases "pd_adding db ! k")
    have r: "parse_policy_rule (Some (pl_tool r, pl_proposal r)) = Inr r"
      using ok nth_mem [OF True] by (auto simp: pr policy_ok_def)
    have ok1: "policy_ok ids ?db"
      using ok by (auto simp: policy_ok_def dest: in_set_takeD in_set_dropD)
    have "granted ?db = granted db" by (simp add: granted_def grant_for_def read_policy_def fun_eq_iff)
    then show ?thesis using granted_write [OF ok1 r, of p now] True by (simp add: Add_Writes pr)
  qed (simp add: Add_Writes)
next
  case (Remove_Rule p i)
  have dist: "distinct (map row_key (pd_rows db))" using ok by (simp add: policy_ok_def)
  let ?db = "db\<lparr>pd_rows := filter (\<lambda>w. \<not> (pw_id w = i \<and> pw_node w = p)) (pd_rows db)\<rparr>"
  have "granted ?db = policy_effect ids db e (granted db)"
    using row_map_removed [OF dist, of i p]
    by (simp add: granted_rows [OF ok] granted_rows [OF policy_ok_rows(1) [OF ok]] Remove_Rule)
  moreover have "granted ?db = granted db" if "\<not> list_ex (\<lambda>w. pw_id w = i \<and> pw_node w = p) (pd_rows db)"
  proof -
    have "filter (\<lambda>w. \<not> (pw_id w = i \<and> pw_node w = p)) (pd_rows db) = pd_rows db"
      using that by (intro filter_True) (auto simp: list_ex_iff)
    then show ?thesis by simp
  qed
  ultimately show ?thesis by (auto simp: Remove_Rule remove_rule_def)
next
  case (Project_Made p)
  then show ?thesis by (simp add: granted_def grant_for_def read_policy_def fun_eq_iff)
next
  case (Project_Removed p)
  have dist: "distinct (map row_key (pd_rows db))" using ok by (simp add: policy_ok_def)
  show ?thesis
    using row_map_filter [OF dist, of "\<lambda>w. pw_node w \<noteq> p"] row_map_find [of "pd_rows db"]
    by (simp add: Project_Removed granted_rows [OF ok] granted_rows [OF policy_ok_rows(2) [OF ok]] fun_eq_iff)
       (auto simp: row_key_def split: option.split dest!: find_Some_in)
qed

text \<open>
  Claim C32: the policy is a map from exact requests to rules.  From an empty policy, whatever clients
  add and remove in whatever interleaving and whichever projects come and go, the rule that covers a tool
  and a proposal in a project changes only as a map would: a write enters the one key it was made for,
  if the project exists and no rule covers it yet; a removal takes out the one rule it names, and only
  in the project it names; a removed project loses its rules and no other does.  No rule covers two
  requests.
\<close>

theorem policy_keeps_a_map:
  assumes "inj ids" and "\<forall>n. opaque_id (ids n)"
  shows "granted (policy_run ids []) = (\<lambda>k. None)
     \<and> granted (policy_run ids (es @ [e])) = policy_effect ids (policy_run ids es) e (granted (policy_run ids es))
     \<and> (\<forall>i k k'. granted (policy_run ids es) k = Some i \<longrightarrow> granted (policy_run ids es) k' = Some i \<longrightarrow> k = k')"
proof -
  have ok: "policy_ok ids (policy_run ids es)" by (rule policy_run_ok [OF assms])
  have "granted (policy_run ids []) = (\<lambda>k. None)"
    unfolding granted_rows [OF policy_run_ok [OF assms]] by (simp add: policy_run_def empty_policy_def)
  moreover have "granted (policy_run ids (es @ [e])) = policy_effect ids (policy_run ids es) e (granted (policy_run ids es))"
    using granted_step [OF ok, of e] by (simp add: policy_run_def run_append)
  moreover have "k = k'" if "granted (policy_run ids es) k = Some i" "granted (policy_run ids es) k' = Some i" for i k k'
  proof -
    have d: "distinct (map row_key (pd_rows (policy_run ids es)))" "distinct (map pw_id (pd_rows (policy_run ids es)))"
      using ok by (simp_all add: policy_ok_def)
    have one: "\<exists>w \<in> set (pd_rows (policy_run ids es)). row_key w = j \<and> pw_id w = i"
      if "granted (policy_run ids es) j = Some i" for j
      using that row_map_eq [OF d(1), of j i] unfolding granted_rows [OF ok] by simp
    show ?thesis using one [OF that(1)] one [OF that(2)] d(2) by (metis distinct_map inj_onD)
  qed
  ultimately show ?thesis by blast
qed

text \<open>
  Writing a rule twice is writing it once, and removing it revokes it.  When an add on a
  reachable policy answers an id, a request with exactly that tool and proposal is granted by that id;
  adding it again answers the same id and leaves the table as it is; and removing that id from the project
  succeeds and leaves the request covered by nothing.
\<close>

theorem rule_written_once:
  assumes "inj ids" and "\<forall>n. opaque_id (ids n)"
    and add: "add_rule ids p (Some (tool, proposal)) now (policy_run ids es) = (db, Rule_Written i)"
  shows "granted db (p, tool, proposal) = Some i
     \<and> pd_rows (fst (add_rule ids p (Some (tool, proposal)) later db)) = pd_rows db
     \<and> snd (add_rule ids p (Some (tool, proposal)) later db) = Rule_Written i
     \<and> snd (remove_rule p i db)
     \<and> granted (fst (remove_rule p i db)) (p, tool, proposal) = None"
proof -
  have ok: "policy_ok ids (policy_run ids es)" by (rule policy_run_ok [OF assms(1,2)])
  obtain r where r: "parse_policy_rule (Some (tool, proposal)) = Inr r"
    using add by (auto simp: add_rule_def check_add_def split: sum.splits)
  have fields: "pl_tool r = tool" "pl_proposal r = proposal" using parse_policy_rule_text [OF r] by auto
  have db: "db = fst (write_add ids p r now (policy_run ids es))" "answer_add p r db = Rule_Written i"
    using add by (auto simp: add_rule_def check_add_def r Let_def split: prod.splits if_splits)
  have ok1: "policy_ok ids db" unfolding db(1) using write_add_cases(2) [OF ok] r fields by simp
  have g: "granted db (p, tool, proposal) = Some i"
    using db(2) granted_covering [of db p r] by (simp add: answer_add_def fields split: option.splits)
  have cov: "covering r (read_policy db p) \<noteq> None"
    using g granted_covering [of db p r] by (cases "covering r (read_policy db p)") (simp_all add: fields)
  have check: "check_add p (Some (tool, proposal)) db = Inr r"
    using cov by (auto simp: check_add_def r)
  have in_rows: "(p, tool, proposal) \<in> row_key ` set (pd_rows db)"
    using g unfolding granted_rows [OF ok1] by (auto dest!: map_of_SomeD)
  have key: "row_key (new_row ids p r later db) = (p, tool, proposal)" by (simp add: row_key_def new_row_def fields)
  have w: "write_add ids p r later db = (db\<lparr>pd_minted := pd_minted db + 1\<rparr>, True)"
    using write_add_cases(1) [OF ok1, of r p later] in_rows r by (simp add: key fields)
  have same: "read_policy (db\<lparr>pd_minted := n\<rparr>) p = read_policy db p" for n by (simp add: read_policy_def)
  have again: "add_rule ids p (Some (tool, proposal)) later db = (db\<lparr>pd_minted := pd_minted db + 1\<rparr>, Rule_Written i)"
    using db(2) by (simp add: add_rule_def check w answer_add_def same)
  have gone: "granted (fst (remove_rule p i db)) (p, tool, proposal) = None"
    using granted_step [OF ok1, of "Remove_Rule p i"] g by simp
  obtain row where "row \<in> set (pd_rows db)" "row_key row = (p, tool, proposal)" "pw_id row = i"
    using g unfolding granted_rows [OF ok1] by (auto dest!: map_of_SomeD)
  then have "snd (remove_rule p i db)" by (auto simp: remove_rule_def list_ex_iff row_key_def)
  then show ?thesis using g again gone by simp
qed

section \<open>A small policy\<close>

definition one_id :: "nat \<Rightarrow> jstr" where
  "one_id n = [n]"

lemma one_id_ok: "inj one_id" "\<forall>n. opaque_id (one_id n)"
  by (simp_all add: one_id_def inj_def opaque_id_def)

lemma small_rule_parses:
  "parse_policy_rule (Some (js ''Bash'', js ''ls'')) = Inr \<lparr>pl_tool = js ''Bash'', pl_proposal = js ''ls''\<rparr>"
  by (simp add: parse_policy_rule_def policy_rule_shape_def approval_proposal_max_chars_def
      approval_tool_max_chars_def js_def js_trim_def ws_char_def displayable_text_def control_char_def bidi_char_def)

lemma small_policy:
  "policy_run one_id [Project_Made [7]] = empty_policy\<lparr>pd_projects := [[7]]\<rparr>"
  "policy_run one_id [Project_Made [7], Add_Checks [7] (Some (js ''Bash'', js ''ls''))] =
     empty_policy\<lparr>pd_projects := [[7]], pd_adding := [([7], \<lparr>pl_tool = js ''Bash'', pl_proposal = js ''ls''\<rparr>)]\<rparr>"
  by (simp_all add: policy_run_def opaque_id_def set_add_def empty_policy_def check_add_def small_rule_parses
      read_policy_def covering_def approval_policy_rules_max_def)

theorem policy_keeps_a_map_witness:
  "granted (policy_run one_id [Project_Made [7], Add_Checks [7] (Some (js ''Bash'', js ''ls'')), Add_Writes 0 5])
     = [([7], js ''Bash'', js ''ls'') \<mapsto> [0]]"
  using policy_keeps_a_map [OF one_id_ok, of "[Project_Made [7], Add_Checks [7] (Some (js ''Bash'', js ''ls''))]" "Add_Writes 0 5"]
  by (simp add: small_policy) (simp add: empty_policy_def one_id_def granted_def grant_for_def read_policy_def fun_eq_iff)

theorem rule_written_once_witness:
  "\<exists>db. add_rule one_id [7] (Some (js ''Bash'', js ''ls'')) 5 (policy_run one_id [Project_Made [7]]) = (db, Rule_Written [0])
     \<and> granted db ([7], js ''Bash'', js ''ls'') = Some [0]
     \<and> granted (fst (remove_rule [7] [0] db)) ([7], js ''Bash'', js ''ls'') = None"
proof -
  let ?db = "\<lparr>pd_projects = [[7]], pd_rows = [\<lparr>pw_id = [0], pw_node = [7], pw_tool = js ''Bash'',
      pw_proposal = js ''ls'', pw_created = 5\<rparr>], pd_minted = 1, pd_adding = []\<rparr> :: policy_db"
  have "add_rule one_id [7] (Some (js ''Bash'', js ''ls'')) 5 (policy_run one_id [Project_Made [7]]) = (?db, Rule_Written [0])"
    by (simp add: small_policy add_rule_def check_add_def small_rule_parses empty_policy_def read_policy_def
        covering_def approval_policy_rules_max_def write_add_def insert_rule_def one_id_def answer_add_def
        read_row_def stored_row_ok_def opaque_id_def rule_matches_def approval_proposal_max_chars_def
        List.map_filter_def)
  with rule_written_once [OF one_id_ok this] show ?thesis by blast
qed

end
