(* ===== verification/Fleet_Policy.thy ===== *)
theory Fleet_Policy
  imports Hub_Rows Policy_Table
begin

text \<open>
  The hub's approvals with the standing policy behind them: what a request that nobody was asked about
  rests on.  The contract the approvals need of a policy is the locale \<open>standing_policy\<close>; the table of
  \<open>Approval_Policy\<close> provides it.
\<close>

section \<open>The two together\<close>







section \<open>What a mark holds\<close>

definition marks_hold :: "(approval_request \<Rightarrow> policy_grant \<Rightarrow> bool) \<Rightarrow> approvals \<Rightarrow> bool" where
  "marks_hold R h \<longleftrightarrow>
     (\<forall>k e g. entry_map h k = Some e \<longrightarrow> oa_by_policy e = Some g \<longrightarrow> R (oa_request e) g)"




lemma marks_open: "hb_open g = hb_open h \<Longrightarrow> marks_hold R g = marks_hold R h"
  using entry_map_open [of g h] by (simp add: marks_hold_def)

lemma marks_fields [simp]:
  "marks_hold R (announce s h) = marks_hold R h" "marks_hold R (h\<lparr>hb_minted := n\<rparr>) = marks_hold R h"
  "marks_hold R (h\<lparr>hb_asks := n\<rparr>) = marks_hold R h" "marks_hold R (consult s i h) = marks_hold R h"
  "marks_hold R (h\<lparr>hb_asks := n, hb_resolved := v\<rparr>) = marks_hold R h"
  by (rule marks_open, simp add: consult_def split: option.split)+



section \<open>The contract of a policy\<close>





section \<open>Every run\<close>












end
