(* ===== verification/Js_Value.thy ===== *)
theory Js_Value
  imports Json Complex_Main "HOL-Library.Log_Nat"
begin

text \<open>
  JavaScript values where their numbers are computed with: the doubles, with the rounding of IEEE 754,
  and what a value becomes by \<open>JSON.parse(JSON.stringify(v))\<close>.  The sign of zero, which nothing modelled
  observes, is left out.
\<close>

section \<open>Doubles\<close>

text \<open>An infinite number is \<open>Infinite True\<close> when it is negative.\<close>

datatype js_num = Finite rat | Infinite bool | Not_A_Number

definition pow2 :: "int \<Rightarrow> rat" where
  "pow2 e = (if 0 \<le> e then 2 ^ nat e else 1 / 2 ^ nat (- e))"

text \<open>The exponent of the unit in the last place of a number with 53 bits of precision.\<close>

definition unit_exponent :: "rat \<Rightarrow> int" where
  "unit_exponent x =
     (case quotient_of \<bar>x\<bar> of
        (p, q) \<Rightarrow>
          (let k = bitlen p - bitlen q
           in max ((if pow2 k \<le> \<bar>x\<bar> then k else k - 1) - 52) (- 1074)))"

definition half_even :: "rat \<Rightarrow> int" where
  "half_even x =
     (let f = \<lfloor>x\<rfloor>; d = x - of_int f
      in if d < 1 / 2 then f else if 1 / 2 < d then f + 1 else if even f then f else f + 1)"

definition double :: "rat \<Rightarrow> js_num" where
  "double x =
     (if x = 0 then Finite 0
      else (let e = unit_exponent x; y = of_int (half_even (x / pow2 e)) * pow2 e
            in if 2 ^ 1024 \<le> \<bar>y\<bar> then Infinite (x < 0) else Finite y))"

fun num_less :: "js_num \<Rightarrow> js_num \<Rightarrow> bool" where
  "num_less (Finite x) (Finite y) = (x < y)"
| "num_less (Infinite m) (Finite y) = m"
| "num_less (Finite x) (Infinite n) = (\<not> n)"
| "num_less (Infinite m) (Infinite n) = (m \<and> \<not> n)"
| "num_less _ _ = False"

definition num_le :: "js_num \<Rightarrow> js_num \<Rightarrow> bool" where
  "num_le a b \<longleftrightarrow> a \<noteq> Not_A_Number \<and> b \<noteq> Not_A_Number \<and> \<not> num_less b a"

text \<open>\<open>Math.min\<close>, \<open>Math.max\<close> and \<open>Math.abs\<close>.\<close>

definition num_min :: "js_num \<Rightarrow> js_num \<Rightarrow> js_num" where
  "num_min a b =
     (if a = Not_A_Number \<or> b = Not_A_Number then Not_A_Number else if num_less b a then b else a)"

definition num_max :: "js_num \<Rightarrow> js_num \<Rightarrow> js_num" where
  "num_max a b =
     (if a = Not_A_Number \<or> b = Not_A_Number then Not_A_Number else if num_less a b then b else a)"

fun num_neg :: "js_num \<Rightarrow> js_num" where
  "num_neg (Finite x) = Finite (- x)"
| "num_neg (Infinite m) = Infinite (\<not> m)"
| "num_neg Not_A_Number = Not_A_Number"

definition num_abs :: "js_num \<Rightarrow> js_num" where
  "num_abs a = (if num_less a (Finite 0) then num_neg a else a)"

fun num_add :: "js_num \<Rightarrow> js_num \<Rightarrow> js_num" where
  "num_add (Finite x) (Finite y) = double (x + y)"
| "num_add (Infinite m) (Infinite n) = (if m = n then Infinite m else Not_A_Number)"
| "num_add (Infinite m) (Finite y) = Infinite m"
| "num_add (Finite x) (Infinite n) = Infinite n"
| "num_add _ _ = Not_A_Number"

definition num_sub :: "js_num \<Rightarrow> js_num \<Rightarrow> js_num" where
  "num_sub a b = num_add a (num_neg b)"

fun num_mul :: "js_num \<Rightarrow> js_num \<Rightarrow> js_num" where
  "num_mul (Finite x) (Finite y) = double (x * y)"
| "num_mul (Infinite m) (Infinite n) = Infinite (m \<noteq> n)"
| "num_mul (Infinite m) (Finite y) = (if y = 0 then Not_A_Number else Infinite (m \<noteq> (y < 0)))"
| "num_mul (Finite x) (Infinite n) = (if x = 0 then Not_A_Number else Infinite (n \<noteq> (x < 0)))"
| "num_mul _ _ = Not_A_Number"

section \<open>Values\<close>

datatype js_value =
    Undefined
  | Null
  | Boolean bool
  | Number js_num
  | String jstr
  | Array "js_value list"
  | Object "(jstr \<times> js_value) list"

text \<open>\<open>v[k]\<close> of a record, for a name no plain object inherits.\<close>

definition field :: "(jstr \<times> js_value) list \<Rightarrow> jstr \<Rightarrow> js_value" where
  "field ps k = (case map_of ps k of None \<Rightarrow> Undefined | Some v \<Rightarrow> v)"

fun as_record :: "js_value \<Rightarrow> (jstr \<times> js_value) list option" where
  "as_record (Object ps) = Some ps"
| "as_record v = None"

text \<open>
  What comes back of a value written with \<open>JSON.stringify\<close>: a property that is undefined is not written,
  an undefined element and a number that is not finite are written as null.
\<close>

fun written :: "js_value \<Rightarrow> js_value" where
  "written (Number n) = (case n of Finite x \<Rightarrow> Number n | _ \<Rightarrow> Null)"
| "written (Array vs) = Array (map (\<lambda>v. if v = Undefined then Null else written v) vs)"
| "written (Object ps) = Object (map (\<lambda>(k, v). (k, written v)) (filter (\<lambda>(k, v). v \<noteq> Undefined) ps))"
| "written v = v"

text \<open>A text a store may hold: none, one that is no JSON, or the JSON of a value.\<close>

datatype stored_text = No_Text | Not_Json | Json_Of js_value

lemma written_undefined [simp]: "written v = Undefined \<longleftrightarrow> v = Undefined"
  by (cases v) (auto split: js_num.split)

lemma written_written [simp]: "written (written v) = written v"
proof (induction v rule: written.induct)
  case (1 n)
  then show ?case by (cases n) simp_all
next
  case (2 vs)
  then show ?case by (auto simp: comp_def)
next
  case (3 ps)
  have "written (written v) = written v" if "(k, v) \<in> set ps" "v \<noteq> Undefined" for k v
    using 3 [of "(k, v)" k v] that by simp
  then have "map (\<lambda>(k, v). (k, written v)) (filter (\<lambda>(k, v). v \<noteq> Undefined)
      (map (\<lambda>(k, v). (k, written v)) (filter (\<lambda>(k, v). v \<noteq> Undefined) ps)))
    = map (\<lambda>(k, v). (k, written v)) (filter (\<lambda>(k, v). v \<noteq> Undefined) ps)"
    by (auto simp: filter_map comp_def case_prod_unfold intro!: map_cong)
  then show ?case by simp
qed simp_all

lemma field_Nil [simp]: "field [] k = Undefined"
  by (simp add: field_def)

lemma field_Cons [simp]: "field ((k', v) # ps) k = (if k = k' then v else field ps k)"
  by (simp add: field_def)

lemma field_absent: "k \<notin> fst ` set ps \<Longrightarrow> field ps k = Undefined"
  using map_of_eq_None_iff [of ps k] by (simp add: field_def)

lemma field_present: "field ps k \<noteq> Undefined \<Longrightarrow> k \<in> fst ` set ps"
  using field_absent by blast

lemma field_in: "k \<in> fst ` set ps \<Longrightarrow> (k, field ps k) \<in> set ps"
proof (induction ps)
  case (Cons p ps)
  then show ?case by (cases p) auto
qed simp

lemma field_written:
  "distinct (map fst ps) \<Longrightarrow>
     field (map (\<lambda>(k, v). (k, written v)) (filter (\<lambda>(k, v). v \<noteq> Undefined) ps)) k = written (field ps k)"
proof (induction ps)
  case (Cons p ps)
  obtain a b where p: "p = (a, b)" by (cases p)
  have "field ps a = Undefined" by (rule field_absent) (use Cons.prems p in auto)
  then show ?case using Cons p by auto
qed simp

lemma written_clean: "written v = v" if "written (Object ps) = Object ps" and "(k, v) \<in> set ps"
  using that
proof (induction ps)
  case (Cons p ps)
  show ?case
  proof (cases "snd p = Undefined")
    case True
    have "length (map (\<lambda>(k, v). (k, written v)) (filter (\<lambda>(k, v). v \<noteq> Undefined) (p # ps))) < length (p # ps)"
      using True by (cases p) (simp add: le_imp_less_Suc)
    then show ?thesis using Cons.prems(1) by (metis js_value.inject(5) less_irrefl written.simps(3))
  next
    case False
    then show ?thesis using Cons by (cases p) auto
  qed
qed simp

end
