(* ===== verification/Layout_Tree.thy ===== *)
theory Layout_Tree
  imports Js_Value
begin

text \<open>
  \<open>apps/web/src/layout/tree.ts\<close>: the split-pane tree, and the parser and writer of what a hub stores of it.

  A pane that could not be read keeps the value it arrived as, which is \<open>Undefined\<close> where a split had no
  such child.  Texts are the values their JSON stands for (\<open>Js_Value\<close>).
\<close>

section \<open>The tree\<close>

record session_ref =
  sr_store :: jstr
  sr_session :: jstr

datatype pane_content =
    Session_Pane session_ref
  | Doc_Pane jstr
  | Pending_Pane jstr
  | Empty_Pane
  | Unknown_Pane js_value

datatype split_direction = Row | Column

datatype layout_tree =
    Pane pane_content
  | Split split_direction js_num layout_tree layout_tree

datatype layout_branch = First | Second

type_synonym pane_path = "layout_branch list"

text \<open>The doubles nearest a twentieth and nineteen twentieths.\<close>

definition ratio_min :: js_num where
  "ratio_min = Finite (3602879701896397 / 72057594037927936)"

definition ratio_max :: js_num where
  "ratio_max = Finite (4278419646001971 / 4503599627370496)"

definition max_depth :: nat where "max_depth = 16"

definition default_tree :: layout_tree where "default_tree = Pane Empty_Pane"

definition clamp :: "js_num \<Rightarrow> js_num" where
  "clamp n = num_min ratio_max (num_max ratio_min n)"

fun clamp_ratio :: "js_value \<Rightarrow> js_num" where
  "clamp_ratio (Number (Finite x)) = clamp (Finite x)"
| "clamp_ratio v = Finite (1 / 2)"

section \<open>Reading\<close>

fun parse_id :: "js_value \<Rightarrow> jstr option" where
  "parse_id (String s) = (if opaque_id s then Some s else None)"
| "parse_id v = None"

definition parse_session :: "js_value \<Rightarrow> session_ref option" where
  "parse_session v =
     (case as_record v of
        None \<Rightarrow> None
      | Some ps \<Rightarrow>
          (case (parse_id (field ps (js ''storeId'')), parse_id (field ps (js ''sessionId''))) of
             (Some a, Some b) \<Rightarrow> Some \<lparr>sr_store = a, sr_session = b\<rparr>
           | _ \<Rightarrow> None))"

definition parse_content :: "js_value \<Rightarrow> pane_content option" where
  "parse_content raw =
     (case as_record raw of
        None \<Rightarrow> None
      | Some ps \<Rightarrow>
          (let type = field ps (js ''type'')
           in if type = String (js ''empty'') then Some Empty_Pane
              else if type = String (js ''session'')
              then map_option Session_Pane (parse_session (field ps (js ''session'')))
              else if type = String (js ''doc'')
              then map_option Doc_Pane (parse_id (field ps (js ''nodeId'')))
              else if type = String (js ''pending'') then Some Empty_Pane
              else None))"

definition parse_direction :: "js_value \<Rightarrow> split_direction option" where
  "parse_direction v =
     (if v = String (js ''row'') then Some Row
      else if v = String (js ''column'') then Some Column else None)"

function parse_node :: "js_value \<Rightarrow> nat \<Rightarrow> layout_tree" where
  "parse_node raw depth =
     (if max_depth < depth then Pane (Unknown_Pane raw)
      else
        (case as_record raw of
           None \<Rightarrow> Pane (Unknown_Pane raw)
         | Some ps \<Rightarrow>
             if field ps (js ''kind'') = String (js ''pane'')
             then (case parse_content (field ps (js ''content'')) of
                     None \<Rightarrow> Pane (Unknown_Pane raw)
                   | Some content \<Rightarrow> Pane content)
             else if field ps (js ''kind'') = String (js ''split'')
             then (case parse_direction (field ps (js ''direction'')) of
                     None \<Rightarrow> Pane (Unknown_Pane raw)
                   | Some direction \<Rightarrow>
                       Split direction (clamp_ratio (field ps (js ''ratio'')))
                         (parse_node (field ps (js ''first'')) (depth + 1))
                         (parse_node (field ps (js ''second'')) (depth + 1)))
             else Pane (Unknown_Pane raw)))"
  by pat_completeness auto
termination
  by (relation "measure (\<lambda>(raw, depth). Suc max_depth - depth)") auto

declare parse_node.simps [simp del]

fun is_number :: "js_value \<Rightarrow> bool" where
  "is_number (Number n) = True"
| "is_number v = False"

fun parse_pane_layout :: "stored_text \<Rightarrow> layout_tree" where
  "parse_pane_layout No_Text = default_tree"
| "parse_pane_layout Not_Json = default_tree"
| "parse_pane_layout (Json_Of raw) =
     (case as_record raw of
        None \<Rightarrow> default_tree
      | Some ps \<Rightarrow>
          if is_number (field ps (js ''v'')) \<and> js ''root'' \<in> fst ` set ps
          then parse_node (field ps (js ''root'')) 0
          else default_tree)"

section \<open>Writing\<close>

definition encode_session :: "session_ref \<Rightarrow> js_value" where
  "encode_session r =
     Object [(js ''storeId'', String (sr_store r)), (js ''sessionId'', String (sr_session r))]"

definition pane_value :: "(jstr \<times> js_value) list \<Rightarrow> js_value" where
  "pane_value content = Object [(js ''kind'', String (js ''pane'')), (js ''content'', Object content)]"

fun encode_content :: "pane_content \<Rightarrow> js_value" where
  "encode_content (Session_Pane r) =
     pane_value [(js ''type'', String (js ''session'')), (js ''session'', encode_session r)]"
| "encode_content (Doc_Pane n) =
     pane_value [(js ''type'', String (js ''doc'')), (js ''nodeId'', String n)]"
| "encode_content (Pending_Pane s) = pane_value [(js ''type'', String (js ''empty''))]"
| "encode_content Empty_Pane = pane_value [(js ''type'', String (js ''empty''))]"
| "encode_content (Unknown_Pane raw) = raw"

fun direction_word :: "split_direction \<Rightarrow> jstr" where
  "direction_word Row = js ''row''"
| "direction_word Column = js ''column''"

fun encode_node :: "layout_tree \<Rightarrow> js_value" where
  "encode_node (Pane content) = encode_content content"
| "encode_node (Split direction ratio t u) =
     Object [(js ''kind'', String (js ''split'')), (js ''direction'', String (direction_word direction)),
             (js ''ratio'', Number ratio), (js ''first'', encode_node t), (js ''second'', encode_node u)]"

text \<open>The sections are spread first, so the panes win the two keys they own.\<close>

definition serialize_pane_layout :: "layout_tree \<Rightarrow> (jstr \<times> js_value) list \<Rightarrow> stored_text" where
  "serialize_pane_layout t sections =
     Json_Of (written (Object
       (obj_assign (js ''root'') (encode_node t) (obj_assign (js ''v'') (Number (Finite 1)) sections))))"

section \<open>Walking it\<close>

fun node_at :: "layout_tree \<Rightarrow> pane_path \<Rightarrow> layout_tree option" where
  "node_at t [] = Some t"
| "node_at (Pane c) (b # p) = None"
| "node_at (Split d r t u) (b # p) = node_at (case b of First \<Rightarrow> t | Second \<Rightarrow> u) p"

definition pane_at :: "layout_tree \<Rightarrow> pane_path \<Rightarrow> pane_content option" where
  "pane_at t p = (case node_at t p of Some (Pane c) \<Rightarrow> Some c | _ \<Rightarrow> None)"

lemma pane_at_simps [simp]:
  "pane_at (Pane c) [] = Some c" "pane_at (Split d r t u) [] = None" "pane_at (Pane c) (b # p) = None"
  "pane_at (Split d r t u) (b # p) = pane_at (case b of First \<Rightarrow> t | Second \<Rightarrow> u) p"
  by (simp_all add: pane_at_def)

text \<open>The value a path leads to, in a value a tree is read from.\<close>

fun value_at :: "js_value \<Rightarrow> pane_path \<Rightarrow> js_value" where
  "value_at v [] = v"
| "value_at v (b # p) =
     (case as_record v of
        None \<Rightarrow> Undefined
      | Some ps \<Rightarrow> value_at (field ps (case b of First \<Rightarrow> js ''first'' | Second \<Rightarrow> js ''second'')) p)"

section \<open>What a store may hold\<close>

text \<open>A value read from a JSON text whose numbers are all in range, which is every text this code writes.\<close>

fun sound :: "js_value \<Rightarrow> bool" where
  "sound Undefined = False"
| "sound (Number n) = (case n of Finite x \<Rightarrow> True | _ \<Rightarrow> False)"
| "sound (Array vs) = (\<forall>v \<in> set vs. sound v)"
| "sound (Object ps) = (distinct (map fst ps) \<and> (\<forall>(k, v) \<in> set ps. sound v))"
| "sound v = True"

lemma sound_written: "sound v \<Longrightarrow> written v = v"
proof (induction v rule: sound.induct)
  case (2 n)
  then show ?case by (cases n) simp_all
next
  case (3 vs)
  then show ?case by (fastforce intro: map_idI)
next
  case (4 ps)
  have "filter (\<lambda>(k, v). v \<noteq> Undefined) ps = ps" using 4 by (auto simp: filter_id_conv)
  moreover have "map (\<lambda>(k, v). (k, written v)) ps = ps"
    using 4 by (intro map_idI) (auto dest!: bspec)
  ultimately show ?case by simp
qed simp_all

lemma sound_field: "sound (Object ps) \<Longrightarrow> sound (field ps k) \<or> field ps k = Undefined"
  by (auto simp: field_def dest: map_of_SomeD split: option.split)

lemma as_record_Some: "as_record v = Some ps \<longleftrightarrow> v = Object ps"
  by (cases v) auto

text \<open>A start handle names a frame of one socket: it is saved as the empty pane.\<close>

fun saved_content :: "pane_content \<Rightarrow> pane_content" where
  "saved_content (Pending_Pane s) = Empty_Pane"
| "saved_content c = c"

fun saved_tree :: "layout_tree \<Rightarrow> layout_tree" where
  "saved_tree (Pane c) = Pane (saved_content c)"
| "saved_tree (Split d r t u) = Split d r (saved_tree t) (saved_tree u)"

fun ratio_ok :: "js_num \<Rightarrow> bool" where
  "ratio_ok (Finite x) = (\<not> num_less (Finite x) ratio_min \<and> \<not> num_less ratio_max (Finite x))"
| "ratio_ok n = False"

fun content_ok :: "pane_content \<Rightarrow> bool" where
  "content_ok (Session_Pane r) = (opaque_id (sr_store r) \<and> opaque_id (sr_session r))"
| "content_ok (Doc_Pane n) = opaque_id n"
| "content_ok c = True"

text \<open>A tree the format holds: as deep as it is read, with panes nobody misreads at their depth.\<close>

fun fits :: "nat \<Rightarrow> layout_tree \<Rightarrow> bool" where
  "fits d (Pane (Unknown_Pane raw)) =
     (parse_node (written raw) d = Pane (Unknown_Pane raw) \<and> (raw = Undefined \<longrightarrow> 0 < d))"
| "fits d (Pane c) = (d \<le> max_depth \<and> content_ok c)"
| "fits d (Split s r t u) = (d \<le> max_depth \<and> ratio_ok r \<and> fits (Suc d) t \<and> fits (Suc d) u)"

lemma clamp_cases: "clamp (Finite x) = Finite x \<or> clamp (Finite x) = ratio_min \<or> clamp (Finite x) = ratio_max"
  by (auto simp: clamp_def num_min_def num_max_def)

lemma ratio_ok_clamp: "ratio_ok r \<Longrightarrow> clamp_ratio (Number r) = r"
  by (cases r) (auto simp: clamp_def num_min_def num_max_def ratio_min_def ratio_max_def)

lemma clamp_ratio_ok [simp]: "ratio_ok (clamp_ratio v)"
proof -
  have "ratio_ok (clamp (Finite x))" for x
    by (auto simp: clamp_def num_min_def num_max_def ratio_min_def ratio_max_def)
  then show ?thesis
    by (cases v rule: clamp_ratio.cases) (simp_all add: ratio_min_def ratio_max_def)
qed

section \<open>Reading back what was written\<close>

lemma js_literals [simp]:
  "js ''kind'' \<noteq> js ''content''" "js ''kind'' \<noteq> js ''direction''"
  by simp_all

lemma parse_id_valid [simp]: "opaque_id s \<Longrightarrow> parse_id (String s) = Some s"
  by simp

lemma parse_direction_word [simp]: "parse_direction (String (direction_word d)) = Some d"
  by (cases d) (simp_all add: parse_direction_def)

lemma parse_encoded_content:
  assumes "content_ok c" and "d \<le> max_depth" and "\<And>raw. c \<noteq> Unknown_Pane raw"
  shows "parse_node (written (encode_content c)) d = Pane (saved_content c)"
  using assms(1,2) assms(3) [of "case c of Unknown_Pane raw \<Rightarrow> raw"]
  by (cases c)
    (simp_all add: pane_value_def encode_session_def parse_node.simps [of _ d] parse_content_def parse_session_def Let_def)

lemma parse_encoded: "fits d t \<Longrightarrow> parse_node (written (encode_node t)) d = saved_tree t"
proof (induction t arbitrary: d)
  case (Pane c)
  show ?case
  proof (cases "\<exists>raw. c = Unknown_Pane raw")
    case True
    then show ?thesis using Pane by auto
  next
    case False
    then have "content_ok c \<and> d \<le> max_depth" using Pane by (cases c) auto
    then show ?thesis using parse_encoded_content [of c d] False by simp
  qed
next
  case (Split s r t u)
  obtain ps where ps: "encode_node (Split s r t u) = Object ps" and dist: "distinct (map fst ps)"
    and fields: "field ps (js ''kind'') = String (js ''split'')"
      "field ps (js ''direction'') = String (direction_word s)" "field ps (js ''ratio'') = Number r"
      "field ps (js ''first'') = encode_node t" "field ps (js ''second'') = encode_node u"
    by simp
  have fin: "written (Number r) = Number r" using Split.prems by (cases r) simp_all
  have "parse_node (written (Object ps)) d = Split s (clamp_ratio (Number r))
      (parse_node (written (encode_node t)) (Suc d)) (parse_node (written (encode_node u)) (Suc d))"
    using Split.prems fields fin
    by (simp add: parse_node.simps [of _ d] field_written [OF dist] del: clamp_ratio.simps)
  then show ?case using Split ratio_ok_clamp [of r] ps by (simp del: encode_node.simps clamp_ratio.simps)
qed

lemma parse_content_ok: "parse_content v = Some c \<Longrightarrow> content_ok c \<and> saved_content c = c \<and> (\<forall>raw. c \<noteq> Unknown_Pane raw)"
  by (auto simp: parse_content_def parse_session_def Let_def elim!: parse_id.elims split: option.splits if_splits)

lemma fits_readable: "content_ok c \<Longrightarrow> \<forall>raw. c \<noteq> Unknown_Pane raw \<Longrightarrow> d \<le> max_depth \<Longrightarrow> fits d (Pane c)"
  by (cases c) auto

text \<open>What was read fits where it was read.\<close>

lemma parse_fits:
  assumes "sound raw \<or> raw = Undefined \<and> 0 < d"
  shows "fits d (parse_node raw d) \<and> saved_tree (parse_node raw d) = parse_node raw d"
  using assms
proof (induction raw d rule: parse_node.induct)
  case (1 raw d)
  have unknown: ?case if "parse_node raw d = Pane (Unknown_Pane raw)"
    using that 1(3) sound_written [of raw] by auto
  show ?case
  proof (cases "\<exists>ps. raw = Object ps \<and> d \<le> max_depth")
    case False
    then show ?thesis using unknown by (auto simp: parse_node.simps [of raw d] as_record_Some split: option.splits)
  next
    case True
    then obtain ps where ps: "raw = Object ps" "d \<le> max_depth" by blast
    have sub: "sound (field ps k) \<or> field ps k = Undefined \<and> 0 < d + 1" for k
      using 1(3) sound_field [of ps k] by (auto simp: ps(1))
    show ?thesis
    proof (cases "field ps (js ''kind'') = String (js ''pane'') \<and> parse_content (field ps (js ''content'')) \<noteq> None
        \<or> field ps (js ''kind'') = String (js ''split'') \<and> parse_direction (field ps (js ''direction'')) \<noteq> None")
      case True
      then show ?thesis
      proof (elim disjE conjE)
        assume k: "field ps (js ''kind'') = String (js ''pane'')" "parse_content (field ps (js ''content'')) \<noteq> None"
        then obtain c where c: "parse_content (field ps (js ''content'')) = Some c" by blast
        have "parse_node raw d = Pane c" using ps k(1) c by (simp add: parse_node.simps [of "Object ps" d])
        then show ?thesis using parse_content_ok [OF c] fits_readable ps(2) by simp
      next
        assume k: "field ps (js ''kind'') = String (js ''split'')" "parse_direction (field ps (js ''direction'')) \<noteq> None"
        then obtain s where s: "parse_direction (field ps (js ''direction'')) = Some s" by blast
        have kind: "field ps (js ''kind'') \<noteq> String (js ''pane'')" using k(1) by simp
        have "\<not> max_depth < d" using ps(2) by simp
        note IH = 1(1) [OF this _ kind k(1) s] 1(2) [OF this _ kind k(1) s]
        have "parse_node raw d = Split s (clamp_ratio (field ps (js ''ratio'')))
            (parse_node (field ps (js ''first'')) (d + 1)) (parse_node (field ps (js ''second'')) (d + 1))"
          using ps k(1) s by (simp add: parse_node.simps [of "Object ps" d])
        then show ?thesis using IH sub ps by simp
      qed
    next
      case False
      then have "parse_node raw d = Pane (Unknown_Pane raw)"
        using ps by (auto simp: parse_node.simps [of "Object ps" d] split: option.splits)
      then show ?thesis by (rule unknown)
    qed
  qed
qed

lemma unknown_where_it_was:
  "pane_at (parse_node raw d) p = Some (Unknown_Pane v) \<Longrightarrow> value_at raw p = v"
proof (induction raw d arbitrary: p rule: parse_node.induct)
  case (1 raw d)
  then show ?case
    by (cases p; cases "hd p")
      (auto simp: parse_node.simps [of raw d] dest: parse_content_ok split: option.splits if_splits)
qed

lemma unknown_written:
  "pane_at t p = Some (Unknown_Pane v) \<Longrightarrow> value_at (written (encode_node t)) p = written v"
proof (induction t arbitrary: p)
  case (Pane c)
  then show ?case by (cases p) auto
next
  case (Split s r t u)
  obtain b q where p: "p = b # q" using Split.prems by (cases p) auto
  have "value_at (written (encode_node (Split s r t u))) p
      = value_at (written (encode_node (case b of First \<Rightarrow> t | Second \<Rightarrow> u))) q"
    by (cases b) (simp_all add: p)
  then show ?case using Split p by (cases b) auto
qed

lemma value_at_sound: "sound raw \<or> raw = Undefined \<Longrightarrow> sound (value_at raw p) \<or> value_at raw p = Undefined"
proof (induction raw p rule: value_at.induct)
  case (2 v b p)
  show ?case
  proof (cases "as_record v")
    case (Some ps)
    then have "sound (field ps k) \<or> field ps k = Undefined" for k
      using 2(2) sound_field [of ps k] by (simp add: as_record_Some)
    then show ?thesis using 2(1) [OF Some] Some by simp
  qed simp
qed simp

lemma field_obj_assign:
  "field (obj_assign k v ps) k' = (if k = k' \<and> k \<noteq> js ''__proto__'' then v else field ps k')"
  by (simp add: field_def map_of_obj_assign)

lemma parse_serialized:
  assumes "fits 0 t" and "distinct (map fst sections)"
  shows "parse_pane_layout (serialize_pane_layout t sections) = saved_tree t"
proof -
  let ?ps = "obj_assign (js ''root'') (encode_node t) (obj_assign (js ''v'') (Number (Finite 1)) sections)"
  have dist: "distinct (map fst ?ps)" using assms(2) by (intro distinct_obj_assign)
  have root: "encode_node t \<noteq> Undefined"
    using assms(1) by (cases "(0 :: nat, t)" rule: fits.cases) (auto simp: pane_value_def)
  let ?qs = "map (\<lambda>(k, v). (k, written v)) (filter (\<lambda>(k, v). v \<noteq> Undefined) ?ps)"
  have f: "field ?qs (js ''root'') = written (encode_node t)" "field ?qs (js ''v'') = Number (Finite 1)"
    by (simp_all only: field_written [OF dist] field_obj_assign) (simp_all add: field_obj_assign)
  have "js ''root'' \<in> fst ` set ?qs"
    by (rule field_present) (use root in \<open>simp only: f written_undefined not_False_eq_True\<close>)
  then show ?thesis
    using f parse_encoded [OF assms(1)] by (simp add: serialize_pane_layout_def)
qed

text \<open>
  Claim C40: a saved layout is read back as it was, and what a build cannot read passes through it.  A tree
  the format holds comes back from its text, whatever sections are saved around it, but for the panes
  waiting on a start, which come back empty.  The tree read from any stored value is such a tree: writing
  it and reading it again gives the same tree; and where it has a pane this build could not read, the
  pane holds the stored value at that place, and what is written has that value there.
\<close>

theorem layout_roundtrip:
  assumes "distinct (map fst sections)"
  shows "(fits 0 t \<longrightarrow> parse_pane_layout (serialize_pane_layout t sections) = saved_tree t)
     \<and> (sound raw \<longrightarrow>
          parse_pane_layout (serialize_pane_layout (parse_node raw 0) sections) = parse_node raw 0
          \<and> (\<forall>p v. pane_at (parse_node raw 0) p = Some (Unknown_Pane v) \<longrightarrow>
               value_at raw p = v \<and> value_at (written (encode_node (parse_node raw 0))) p = v))"
proof -
  have "value_at raw p = v \<and> value_at (written (encode_node (parse_node raw 0))) p = v"
    if "sound raw" and u: "pane_at (parse_node raw 0) p = Some (Unknown_Pane v)" for p v
  proof -
    have "sound v \<or> v = Undefined" using value_at_sound [of raw p] that(1) unknown_where_it_was [OF u] by auto
    then show ?thesis using unknown_where_it_was [OF u] unknown_written [OF u] sound_written [of v] by auto
  qed
  then show ?thesis
    using parse_serialized [OF _ assms] parse_fits [of raw 0] by auto
qed

text \<open>A newer build's pane beside a session, and a ratio out of bounds.\<close>

definition newer_layout :: js_value where
  "newer_layout = Object
     [(js ''kind'', String (js ''split'')), (js ''direction'', String (js ''row'')), (js ''ratio'', Number (Finite 2)),
      (js ''first'', Object [(js ''kind'', String (js ''pane'')), (js ''content'', Object [(js ''type'', String (js ''map''))])]),
      (js ''second'', Object [(js ''kind'', String (js ''pane'')), (js ''content'',
         Object [(js ''type'', String (js ''doc'')), (js ''nodeId'', String (js ''n''))])])]"

lemma newer_layout_read:
  "parse_node newer_layout 0 = Split Row ratio_max
     (Pane (Unknown_Pane (Object [(js ''kind'', String (js ''pane'')), (js ''content'', Object [(js ''type'', String (js ''map''))])])))
     (Pane (Doc_Pane (js ''n'')))"
  by code_simp

theorem layout_roundtrip_witness:
  "parse_pane_layout (serialize_pane_layout (parse_node newer_layout 0) [(js ''rest'', Null)]) = parse_node newer_layout 0
     \<and> value_at (written (encode_node (parse_node newer_layout 0))) [First]
       = Object [(js ''kind'', String (js ''pane'')), (js ''content'', Object [(js ''type'', String (js ''map''))])]"
proof -
  have "sound newer_layout" by (simp add: newer_layout_def)
  moreover have "distinct (map fst [(js ''rest'', Null)])" by simp
  moreover have "pane_at (parse_node newer_layout 0) [First]
      = Some (Unknown_Pane (Object [(js ''kind'', String (js ''pane'')), (js ''content'', Object [(js ''type'', String (js ''map''))])]))"
    by (simp add: newer_layout_read)
  ultimately show ?thesis using layout_roundtrip [of "[(js ''rest'', Null)]" _ newer_layout] by blast
qed

end
