(* ===== verification/Layout_Operations.thy ===== *)
theory Layout_Operations
  imports Layout_Tree
begin

text \<open>
  \<open>apps/web/src/layout/operations.ts\<close>: the transforms of the split-pane tree, and focus geometry on the
  rectangles the ratios give, in doubles.

  The lemmas say what each transform does to the list of panes.  A transform that changes nothing returns
  the tree it was given, which the code tests by identity: a pending pane made a session is another value,
  so that test is equality here.
\<close>

section \<open>Transforms\<close>

fun replace_at :: "layout_tree \<Rightarrow> pane_path \<Rightarrow> layout_tree \<Rightarrow> layout_tree" where
  "replace_at t [] u = u"
| "replace_at (Pane c) (b # p) u = Pane c"
| "replace_at (Split d r t1 t2) (First # p) u = Split d r (replace_at t1 p u) t2"
| "replace_at (Split d r t1 t2) (Second # p) u = Split d r t1 (replace_at t2 p u)"

fun panes :: "layout_tree \<Rightarrow> (pane_path \<times> pane_content) list" where
  "panes (Pane c) = [([], c)]"
| "panes (Split d r t u) =
     map (\<lambda>(p, c). (First # p, c)) (panes t) @ map (\<lambda>(p, c). (Second # p, c)) (panes u)"

fun same_pane_content :: "pane_content \<Rightarrow> pane_content \<Rightarrow> bool" where
  "same_pane_content (Session_Pane r) other =
     (case other of
        Session_Pane s \<Rightarrow> sr_store r = sr_store s \<and> sr_session r = sr_session s
      | _ \<Rightarrow> False)"
| "same_pane_content (Doc_Pane n) other = (other = Doc_Pane n)"
| "same_pane_content (Pending_Pane s) other = (other = Pending_Pane s)"
| "same_pane_content Empty_Pane other = False"
| "same_pane_content (Unknown_Pane v) other = False"

fun rebind_pending :: "layout_tree \<Rightarrow> jstr \<Rightarrow> session_ref \<Rightarrow> layout_tree" where
  "rebind_pending (Pane c) start session = Pane (if c = Pending_Pane start then Session_Pane session else c)"
| "rebind_pending (Split d r t u) start session =
     Split d r (rebind_pending t start session) (rebind_pending u start session)"

definition pending_starts :: "layout_tree \<Rightarrow> jstr list" where
  "pending_starts t =
     foldl (\<lambda>found (p, c). case c of Pending_Pane s \<Rightarrow> set_add s found | _ \<Rightarrow> found) [] (panes t)"

definition find_pane_showing :: "layout_tree \<Rightarrow> pane_content \<Rightarrow> pane_path option" where
  "find_pane_showing t content =
     map_option fst (find (\<lambda>(p, c). same_pane_content c content) (panes t))"

record structural_change =
  sc_tree :: layout_tree
  sc_focus :: pane_path

definition split_pane :: "layout_tree \<Rightarrow> pane_path \<Rightarrow> split_direction \<Rightarrow> structural_change option" where
  "split_pane t p direction =
     (case pane_at t p of
        None \<Rightarrow> None
      | Some c \<Rightarrow>
          Some \<lparr>sc_tree = replace_at t p (Split direction (Finite (1 / 2)) (Pane c) (Pane Empty_Pane)),
                sc_focus = p @ [Second]\<rparr>)"

definition close_pane :: "layout_tree \<Rightarrow> pane_path \<Rightarrow> structural_change option" where
  "close_pane t p =
     (if pane_at t p = None \<or> p = [] then None
      else
        (case node_at t (butlast p) of
           Some (Split d r t1 t2) \<Rightarrow>
             (let sibling = (if last p = First then t2 else t1)
              in Some \<lparr>sc_tree = replace_at t (butlast p) sibling,
                       sc_focus = (case panes sibling of [] \<Rightarrow> [] | (q, c) # rest \<Rightarrow> butlast p @ q)\<rparr>)
         | _ \<Rightarrow> None))"

definition set_ratio :: "layout_tree \<Rightarrow> pane_path \<Rightarrow> js_num \<Rightarrow> layout_tree option" where
  "set_ratio t p ratio =
     (case node_at t p of
        Some (Split d r t1 t2) \<Rightarrow> Some (replace_at t p (Split d (clamp ratio) t1 t2))
      | _ \<Rightarrow> None)"

definition set_pane_content :: "layout_tree \<Rightarrow> pane_path \<Rightarrow> pane_content \<Rightarrow> layout_tree option" where
  "set_pane_content t p content =
     (if pane_at t p = None then None else Some (replace_at t p (Pane content)))"

section \<open>Geometry\<close>

record pane_rect =
  rc_x :: js_num
  rc_y :: js_num
  rc_width :: js_num
  rc_height :: js_num

fun rect_walk :: "layout_tree \<Rightarrow> pane_rect \<Rightarrow> pane_path \<Rightarrow> (pane_path \<times> pane_rect) list" where
  "rect_walk (Pane c) rect p = [(p, rect)]"
| "rect_walk (Split direction ratio t u) rect p =
     (let first = (case direction of
                     Row \<Rightarrow> rect\<lparr>rc_width := num_mul (rc_width rect) ratio\<rparr>
                   | Column \<Rightarrow> rect\<lparr>rc_height := num_mul (rc_height rect) ratio\<rparr>);
          second = (case direction of
                     Row \<Rightarrow> rect\<lparr>rc_x := num_add (rc_x rect) (rc_width first),
                                 rc_width := num_sub (rc_width rect) (rc_width first)\<rparr>
                   | Column \<Rightarrow> rect\<lparr>rc_y := num_add (rc_y rect) (rc_height first),
                                    rc_height := num_sub (rc_height rect) (rc_height first)\<rparr>)
      in rect_walk t first (p @ [First]) @ rect_walk u second (p @ [Second]))"

definition pane_rects :: "layout_tree \<Rightarrow> (pane_path \<times> pane_rect) list" where
  "pane_rects t =
     rect_walk t \<lparr>rc_x = Finite 0, rc_y = Finite 0, rc_width = Finite 1, rc_height = Finite 1\<rparr> []"

datatype focus_direction = Left | Right | Up | Down

text \<open>The double nearest a millionth.\<close>

definition epsilon :: js_num where
  "epsilon = Finite (4722366482869645 / 4722366482869645213696)"

definition across :: "focus_direction \<Rightarrow> pane_rect \<Rightarrow> pane_rect \<Rightarrow> bool" where
  "across direction here rect =
     num_less (num_abs (case direction of
         Left \<Rightarrow> num_sub (num_add (rc_x rect) (rc_width rect)) (rc_x here)
       | Right \<Rightarrow> num_sub (rc_x rect) (num_add (rc_x here) (rc_width here))
       | Up \<Rightarrow> num_sub (num_add (rc_y rect) (rc_height rect)) (rc_y here)
       | Down \<Rightarrow> num_sub (rc_y rect) (num_add (rc_y here) (rc_height here)))) epsilon"

definition overlap :: "focus_direction \<Rightarrow> pane_rect \<Rightarrow> pane_rect \<Rightarrow> js_num" where
  "overlap direction here rect =
     (if direction = Left \<or> direction = Right
      then num_sub (num_min (num_add (rc_y here) (rc_height here)) (num_add (rc_y rect) (rc_height rect)))
                   (num_max (rc_y here) (rc_y rect))
      else num_sub (num_min (num_add (rc_x here) (rc_width here)) (num_add (rc_x rect) (rc_width rect)))
                   (num_max (rc_x here) (rc_x rect)))"

fun best_across ::
    "focus_direction \<Rightarrow> pane_rect \<Rightarrow> (pane_path \<times> js_num) option \<Rightarrow> (pane_path \<times> pane_rect) list
       \<Rightarrow> (pane_path \<times> js_num) option" where
  "best_across direction here best [] = best"
| "best_across direction here best ((p, rect) # rects) =
     (if \<not> across direction here rect then best_across direction here best rects
      else
        (let size = overlap direction here rect
         in if num_le size epsilon then best_across direction here best rects
            else (case best of
                    None \<Rightarrow> best_across direction here (Some (p, size)) rects
                  | Some (q, held) \<Rightarrow>
                      if num_less held size then best_across direction here (Some (p, size)) rects
                      else best_across direction here best rects)))"

definition move_focus :: "layout_tree \<Rightarrow> pane_path \<Rightarrow> focus_direction \<Rightarrow> pane_path option" where
  "move_focus t from direction =
     (case find (\<lambda>(p, rect). p = from) (pane_rects t) of
        None \<Rightarrow> None
      | Some (p, here) \<Rightarrow> map_option fst (best_across direction here None (pane_rects t)))"

section \<open>What the transforms do to the panes\<close>

lemma in_panes: "(p, c) \<in> set (panes t) \<longleftrightarrow> pane_at t p = Some c"
proof (induction t arbitrary: p)
  case (Pane d)
  then show ?case by (cases p) auto
next
  case (Split d r t u)
  then show ?case by (cases p; cases "hd p") auto
qed

lemma distinct_paths: "distinct (map fst (panes t))"
  by (induction t) (auto simp: comp_def case_prod_unfold distinct_map inj_on_def)

lemma panes_nonempty: "panes t \<noteq> []"
  by (induction t) auto

lemma pane_at_node: "pane_at t p = Some c \<Longrightarrow> node_at t p = Some (Pane c)"
  by (auto simp: pane_at_def split: option.splits layout_tree.splits)

text \<open>Replacing what a path names is replacing its panes where they stood.\<close>

definition under :: "pane_path \<Rightarrow> (pane_path \<times> pane_content) list \<Rightarrow> (pane_path \<times> pane_content) list" where
  "under p xs = map (\<lambda>(q, c). (p @ q, c)) xs"

lemma under_simps [simp]:
  "under p [] = []" "under p (xs @ ys) = under p xs @ under p ys" "under [] xs = xs"
  "under (p @ q) xs = under p (under q xs)" "under p ((q, c) # xs) = (p @ q, c) # under p xs"
  "map (\<lambda>(q, c). (b # q, c)) xs = under [b] xs" "map snd (under p xs) = map snd xs"
  by (simp_all add: under_def case_prod_unfold comp_def)

lemma panes_replace:
  "node_at t p = Some n \<Longrightarrow>
     \<exists>before after. panes t = before @ under p (panes n) @ after
       \<and> (\<forall>u. panes (replace_at t p u) = before @ under p (panes u) @ after)"
proof (induction t p arbitrary: n rule: node_at.induct)
  case (3 d r t u b p)
  have cons: "under (b # p) xs = under [b] (under p xs)" for xs
    using under_simps(4) [of "[b]" p xs] by simp
  show ?case
  proof (cases b)
    case First
    then obtain before after where "panes t = before @ under p (panes n) @ after"
        "\<forall>u. panes (replace_at t p u) = before @ under p (panes u) @ after"
      using 3 by fastforce
    then show ?thesis using First cons
      by (intro exI [of _ "under [First] before"] exI [of _ "under [First] after @ under [Second] (panes u)"]) simp
  next
    case Second
    then obtain before after where "panes u = before @ under p (panes n) @ after"
        "\<forall>v. panes (replace_at u p v) = before @ under p (panes v) @ after"
      using 3 by fastforce
    then show ?thesis using Second cons
      by (intro exI [of _ "under [First] (panes t) @ under [Second] before"] exI [of _ "under [Second] after"]) simp
  qed
qed (force intro: exI [of _ "[]"])+

lemma node_at_replace [simp]: "node_at t p \<noteq> None \<Longrightarrow> node_at (replace_at t p u) (p @ q) = node_at u q"
  by (induction t p rule: node_at.induct) (auto split: layout_branch.splits)

lemma pane_at_replace [simp]: "node_at t p \<noteq> None \<Longrightarrow> pane_at (replace_at t p u) (p @ q) = pane_at u q"
  by (simp add: pane_at_def)

lemma replace_replace [simp]: "node_at t p \<noteq> None \<Longrightarrow> replace_at (replace_at t p u) p v = replace_at t p v"
  by (induction t p rule: node_at.induct) (auto split: layout_branch.splits)

lemma replace_same: "node_at t p = Some n \<Longrightarrow> replace_at t p n = t"
  by (induction t p rule: node_at.induct) (auto split: layout_branch.splits)

lemma node_at_append: "node_at t (p @ q) = (case node_at t p of None \<Rightarrow> None | Some n \<Rightarrow> node_at n q)"
  by (induction t p rule: node_at.induct) auto

lemma pane_parent:
  assumes "pane_at t (p @ [b]) = Some c"
  obtains d r u v where "node_at t p = Some (Split d r u v)" and "(case b of First \<Rightarrow> u | Second \<Rightarrow> v) = Pane c"
proof -
  have "node_at t (p @ [b]) = Some (Pane c)" by (rule pane_at_node [OF assms])
  then show thesis
    using that by (auto simp: node_at_append elim: node_at.elims split: option.splits)
qed

lemma filter_out_one:
  "distinct (map fst (xs @ (p, c) # ys)) \<Longrightarrow> filter (\<lambda>(q, c). q \<noteq> p) (xs @ (p, c) # ys) = xs @ ys"
  by (auto intro!: arg_cong2 [where f = append] filter_True simp: rev_image_eqI)

lemma split_paneE:
  assumes "split_pane t p d = Some ch"
  obtains c where "pane_at t p = Some c" and "sc_focus ch = p @ [Second]"
    and "sc_tree ch = replace_at t p (Split d (Finite (1 / 2)) (Pane c) (Pane Empty_Pane))"
  using assms by (auto simp: split_pane_def split: option.splits)

lemma close_paneE:
  assumes "close_pane t p = Some ch"
  obtains q b c d r u v where "p = q @ [b]" and "pane_at t p = Some c" and "node_at t q = Some (Split d r u v)"
    and "sc_tree ch = replace_at t q (if b = First then v else u)"
    and "sc_focus ch = q @ fst (hd (panes (if b = First then v else u)))"
proof -
  have "p \<noteq> []" and "pane_at t p \<noteq> None" using assms by (auto simp: close_pane_def split: if_splits)
  then obtain q b c where p: "p = q @ [b]" "pane_at t p = Some c" by (metis append_butlast_last_id not_Some_eq)
  then obtain d r u v where n: "node_at t q = Some (Split d r u v)" by (metis pane_parent)
  have "panes (if b = First then v else u) \<noteq> []" by (rule panes_nonempty)
  then show thesis
    using that [OF p n] assms p n
    by (cases "panes (if b = First then v else u)") (auto simp: close_pane_def Let_def split: if_splits)
qed

lemma close_pane_None: "close_pane t p = None \<longleftrightarrow> pane_at t p = None \<or> p = []"
proof (cases "pane_at t p = None \<or> p = []")
  case False
  then obtain q b c where p: "p = q @ [b]" "pane_at t p = Some c" by (metis append_butlast_last_id not_Some_eq)
  then obtain d r u v where "node_at t q = Some (Split d r u v)" by (metis pane_parent)
  then show ?thesis using p by (simp add: close_pane_def Let_def)
qed (auto simp: close_pane_def)

lemma close_panes:
  assumes "close_pane t p = Some ch"
  shows "map snd (panes (sc_tree ch)) = map snd (filter (\<lambda>(q, c). q \<noteq> p) (panes t))"
    and "pane_at (sc_tree ch) (sc_focus ch) \<noteq> None"
proof -
  obtain q b c d r u v where p: "p = q @ [b]" "pane_at t p = Some c" and n: "node_at t q = Some (Split d r u v)"
    and ch: "sc_tree ch = replace_at t q (if b = First then v else u)"
      "sc_focus ch = q @ fst (hd (panes (if b = First then v else u)))"
    by (rule close_paneE [OF assms])
  let ?s = "if b = First then v else u"
  have leaf: "(case b of First \<Rightarrow> u | Second \<Rightarrow> v) = Pane c"
    using p(2) n unfolding p(1) by (rule_tac pane_parent) auto
  obtain before after where t: "panes t = before @ under q (panes (Split d r u v)) @ after"
    and new: "\<And>w. panes (replace_at t q w) = before @ under q (panes w) @ after"
    using panes_replace [OF n] by blast
  obtain xs ys where parts: "panes t = xs @ (p, c) # ys" "map snd (xs @ ys) = map snd (panes (sc_tree ch))"
  proof (cases b)
    case First
    then show thesis using that [of before "under q (under [Second] (panes v)) @ after"] t new leaf ch p(1) by simp
  next
    case Second
    then show thesis using that [of "before @ under q (under [First] (panes u))" after] t new leaf ch p(1) by simp
  qed
  have "filter (\<lambda>(q, c). q \<noteq> p) (xs @ (p, c) # ys) = xs @ ys"
    by (rule filter_out_one) (use distinct_paths [of t] parts(1) in simp)
  then show "map snd (panes (sc_tree ch)) = map snd (filter (\<lambda>(q, c). q \<noteq> p) (panes t))"
    using parts by simp
  obtain q0 c0 rest where "panes ?s = (q0, c0) # rest" using panes_nonempty [of ?s] by (metis list.exhaust prod.exhaust)
  then have "pane_at ?s (fst (hd (panes ?s))) = Some c0" using in_panes [of q0 c0 ?s] by simp
  then show "pane_at (sc_tree ch) (sc_focus ch) \<noteq> None" using n ch by simp
qed

lemma split_panes:
  assumes "split_pane t p d = Some ch"
  obtains before c after where "panes t = before @ (p, c) # after"
    and "panes (sc_tree ch) = before @ (p @ [First], c) # (p @ [Second], Empty_Pane) # after"
proof -
  obtain c where c: "pane_at t p = Some c"
      "sc_tree ch = replace_at t p (Split d (Finite (1 / 2)) (Pane c) (Pane Empty_Pane))"
    by (rule split_paneE [OF assms])
  from panes_replace [OF pane_at_node [OF c(1)]] show thesis
    using that c by fastforce
qed

lemma close_split:
  assumes "split_pane t p d = Some ch"
  shows "close_pane (sc_tree ch) (sc_focus ch) = Some \<lparr>sc_tree = t, sc_focus = p\<rparr>"
proof -
  obtain c where c: "pane_at t p = Some c" "sc_focus ch = p @ [Second]"
      "sc_tree ch = replace_at t p (Split d (Finite (1 / 2)) (Pane c) (Pane Empty_Pane))"
    by (rule split_paneE [OF assms])
  have n: "node_at t p = Some (Pane c)" by (rule pane_at_node [OF c(1)])
  then show ?thesis
    using c node_at_replace [of t p _ "[]"] replace_same [OF n]
    by (simp add: close_pane_def)
qed

text \<open>
  What splitting and closing do.  Splitting a pane leaves every other pane where it was, keeps
  the pane in the first half and puts an empty one, focused, in the second; closing that one gives the
  tree and the focus back.  Closing takes that one pane away and no other, keeps the order of the rest,
  and leaves the focus on a pane; it is refused exactly for the root and where there is no pane.
\<close>

theorem layout_edits:
  "(\<forall>d ch. split_pane t p d = Some ch \<longrightarrow>
       (\<exists>before c after. panes t = before @ (p, c) # after
          \<and> panes (sc_tree ch) = before @ (p @ [First], c) # (p @ [Second], Empty_Pane) # after)
       \<and> sc_focus ch = p @ [Second]
       \<and> close_pane (sc_tree ch) (sc_focus ch) = Some \<lparr>sc_tree = t, sc_focus = p\<rparr>)
     \<and> (\<forall>ch. close_pane t p = Some ch \<longrightarrow>
          map snd (panes (sc_tree ch)) = map snd (filter (\<lambda>(q, c). q \<noteq> p) (panes t))
          \<and> pane_at (sc_tree ch) (sc_focus ch) \<noteq> None)
     \<and> (split_pane t p d = None \<longleftrightarrow> pane_at t p = None)
     \<and> (close_pane t p = None \<longleftrightarrow> pane_at t p = None \<or> p = [])"
proof (intro conjI allI impI)
  show "split_pane t p d = None \<longleftrightarrow> pane_at t p = None" by (simp add: split_pane_def split: option.split)
qed (rule close_panes close_pane_None close_split | assumption | blast elim: split_panes split_paneE)+

theorem layout_edits_witness:
  "\<exists>ch. split_pane (Pane (Doc_Pane [1])) [] Row = Some ch
     \<and> close_pane (sc_tree ch) (sc_focus ch) = Some \<lparr>sc_tree = Pane (Doc_Pane [1]), sc_focus = []\<rparr>"
proof -
  obtain ch where "split_pane (Pane (Doc_Pane [1])) [] Row = Some ch" by (simp add: split_pane_def)
  then show ?thesis using layout_edits [of "Pane (Doc_Pane [1])" "[]"] by blast
qed

section \<open>Moving the focus\<close>

lemma rect_paths: "map fst (rect_walk t rect p) = map (\<lambda>(q, c). p @ q) (panes t)"
  by (induction t arbitrary: rect p) (simp_all add: Let_def case_prod_unfold comp_def)

lemma rects_are_panes: "fst ` set (pane_rects t) = fst ` set (panes t)"
proof -
  have "map fst (pane_rects t) = map fst (panes t)"
    by (simp add: pane_rects_def rect_paths case_prod_unfold)
  then show ?thesis by (metis list.set_map)
qed

lemma best_across_from:
  "best_across d here best rects = Some (p, sz) \<Longrightarrow>
     best = Some (p, sz)
     \<or> (\<exists>rect. (p, rect) \<in> set rects \<and> across d here rect \<and> sz = overlap d here rect \<and> \<not> num_le sz epsilon)"
proof (induction rects arbitrary: best)
  case (Cons x rects)
  obtain q rect where x: "x = (q, rect)" by (cases x)
  show ?case
  proof (cases "best_across d here best (x # rects) = best_across d here best rects")
    case True
    then show ?thesis using Cons.IH [of best] Cons.prems by auto
  next
    case False
    then have c: "across d here rect" "\<not> num_le (overlap d here rect) epsilon"
      and "best_across d here best (x # rects) = best_across d here (Some (q, overlap d here rect)) rects"
      by (auto simp: x Let_def split: if_splits option.splits prod.splits)
    then show ?thesis using Cons.IH [of "Some (q, overlap d here rect)"] Cons.prems x by auto
  qed
qed simp

lemma best_across_held: "best_across d here (Some x) rects \<noteq> None"
proof (induction rects arbitrary: x)
  case (Cons r rects)
  then show ?case by (cases r; cases x) (simp add: Let_def)
qed simp

lemma best_across_None:
  "best_across d here None rects = None \<Longrightarrow>
     \<forall>(p, rect) \<in> set rects. across d here rect \<longrightarrow> num_le (overlap d here rect) epsilon"
proof (induction rects)
  case (Cons x rects)
  then show ?case
    by (cases x) (auto simp: best_across_held Let_def split: if_splits)
qed simp

lemma find_rect:
  "find (\<lambda>(p, rect). p = from) (pane_rects t) = None \<longleftrightarrow> pane_at t from = None"
proof -
  have "find (\<lambda>(p, rect). p = from) (pane_rects t) = None \<longleftrightarrow> from \<notin> fst ` set (pane_rects t)"
    by (force simp: find_None_iff)
  also have "\<dots> \<longleftrightarrow> (\<forall>c. (from, c) \<notin> set (panes t))" unfolding rects_are_panes by force
  also have "\<dots> \<longleftrightarrow> pane_at t from = None" by (auto simp: in_panes)
  finally show ?thesis .
qed

text \<open>Focus lands on a pane across the boundary, and stays only where none overlaps.\<close>

lemma move_focus_lands:
  assumes "move_focus t from d = Some p"
  shows "pane_at t p \<noteq> None" and "pane_at t from \<noteq> None"
    and "\<exists>here rect. (from, here) \<in> set (pane_rects t) \<and> (p, rect) \<in> set (pane_rects t)
       \<and> across d here rect \<and> \<not> num_le (overlap d here rect) epsilon"
proof -
  obtain q here sz where h: "find (\<lambda>(p, rect). p = from) (pane_rects t) = Some (q, here)"
    and b: "best_across d here None (pane_rects t) = Some (p, sz)"
    using assms by (auto simp: move_focus_def split: option.splits)
  have h': "(from, here) \<in> set (pane_rects t)" using h by (auto dest: find_Some_in)
  obtain rect where r: "(p, rect) \<in> set (pane_rects t)" "across d here rect" "\<not> num_le (overlap d here rect) epsilon"
    using best_across_from [OF b] by auto
  have "p \<in> fst ` set (panes t)" using r(1) rects_are_panes [of t] by force
  then show "pane_at t p \<noteq> None" by (auto simp: in_panes)
  show "pane_at t from \<noteq> None" using find_rect [of "from" t] h by simp
  show "\<exists>here rect. (from, here) \<in> set (pane_rects t) \<and> (p, rect) \<in> set (pane_rects t)
      \<and> across d here rect \<and> \<not> num_le (overlap d here rect) epsilon"
    using h' r by blast
qed

section \<open>What the other transforms keep\<close>

fun ratios_ok :: "layout_tree \<Rightarrow> bool" where
  "ratios_ok (Pane c) = True"
| "ratios_ok (Split d r t u) = (ratio_ok r \<and> ratios_ok t \<and> ratios_ok u)"

lemma ratios_node: "ratios_ok t \<Longrightarrow> node_at t p = Some n \<Longrightarrow> ratios_ok n"
  by (induction t p rule: node_at.induct) (auto split: layout_branch.splits)

lemma ratios_replace: "ratios_ok t \<Longrightarrow> ratios_ok u \<Longrightarrow> ratios_ok (replace_at t p u)"
  by (induction t p u rule: replace_at.induct) auto

lemma ratios_parse: "ratios_ok (parse_node raw d)"
  by (induction raw d rule: parse_node.induct)
    (subst parse_node.simps, auto split: option.split)

lemma ratios_split: "split_pane t p d = Some ch \<Longrightarrow> ratios_ok t \<Longrightarrow> ratios_ok (sc_tree ch)"
  by (auto simp: split_pane_def ratio_min_def ratio_max_def intro!: ratios_replace split: option.splits)

lemma ratios_close: "close_pane t p = Some ch \<Longrightarrow> ratios_ok t \<Longrightarrow> ratios_ok (sc_tree ch)"
  by (elim close_paneE) (auto intro!: ratios_replace dest: ratios_node)

lemma pane_at_rebind [simp]:
  "pane_at (rebind_pending t s r) p = map_option (\<lambda>c. if c = Pending_Pane s then Session_Pane r else c) (pane_at t p)"
proof (induction t arbitrary: p)
  case (Pane c)
  then show ?case by (cases p) auto
next
  case (Split d x t u)
  then show ?case by (cases p; cases "hd p") auto
qed

lemma ratios_rebind [simp]: "ratios_ok (rebind_pending t s r) = ratios_ok t"
  by (induction t) auto

lemma set_pane_contentE:
  assumes "set_pane_content t p c = Some u"
  obtains "pane_at t p \<noteq> None" and "u = replace_at t p (Pane c)" and "pane_at u p = Some c"
proof -
  have t: "pane_at t p \<noteq> None" "u = replace_at t p (Pane c)"
    using assms by (auto simp: set_pane_content_def split: if_splits)
  then have "node_at t p \<noteq> None" using pane_at_node by fastforce
  from pane_at_replace [OF this, of "Pane c" "[]"] show thesis using that t by simp
qed

lemma set_ratio_panes: "set_ratio t p r = Some u \<Longrightarrow> panes u = panes t"
proof -
  assume "set_ratio t p r = Some u"
  then obtain d x a b where n: "node_at t p = Some (Split d x a b)" and u: "u = replace_at t p (Split d (clamp r) a b)"
    by (auto simp: set_ratio_def split: option.splits layout_tree.splits)
  from panes_replace [OF n] show "panes u = panes t" unfolding u by auto
qed

lemma set_ratio_ok: "set_ratio t p r = Some u \<Longrightarrow> r \<noteq> Not_A_Number \<Longrightarrow> ratios_ok t \<Longrightarrow> ratios_ok u"
proof -
  assume u: "set_ratio t p r = Some u" and r: "r \<noteq> Not_A_Number" and t: "ratios_ok t"
  have "ratio_ok (clamp r)"
    using r by (cases r) (auto simp: clamp_def num_min_def num_max_def ratio_min_def ratio_max_def)
  then show "ratios_ok u"
    using u t by (auto simp: set_ratio_def dest: ratios_node intro!: ratios_replace split: option.splits layout_tree.splits)
qed

end
