(* ===== verification/Workspace.thy ===== *)
theory Workspace
  imports Layout_Operations
begin

text \<open>
  \<open>apps/web/src/layout/workspace.ts\<close>: the one blob a hub stores for a user.  Around the panes it holds the
  sections this build reads, and every section it does not, kept as it came.
\<close>

section \<open>Sections\<close>

record id_section =
  is_key :: jstr
  is_version :: rat
  is_field :: jstr
  is_bound :: nat

definition max_remembered_collapses :: nat where "max_remembered_collapses = 500"
definition catalogue_max_open_projects :: nat where "catalogue_max_open_projects = 500"

definition catalogue_section :: id_section where
  "catalogue_section = \<lparr>is_key = js ''catalogue'', is_version = 1, is_field = js ''collapsed'',
     is_bound = max_remembered_collapses\<rparr>"

definition projects_section :: id_section where
  "projects_section = \<lparr>is_key = js ''projects'', is_version = 1, is_field = js ''expanded'',
     is_bound = catalogue_max_open_projects\<rparr>"

definition workspace_sections :: "id_section list" where
  "workspace_sections = [catalogue_section, projects_section]"

record workspace =
  wk_panes :: layout_tree
  wk_collapsed :: "jstr list"
  wk_expanded :: "jstr list"
  wk_rest :: "(jstr \<times> js_value) list"

section \<open>Reading\<close>

definition readable_section :: "js_value \<Rightarrow> rat \<Rightarrow> bool" where
  "readable_section raw version =
     (case as_record raw of
        None \<Rightarrow> False
      | Some ps \<Rightarrow> field ps (js ''v'') = Number (Finite version))"

text \<open>\<open>slice(-bound)\<close> of a list, for a positive bound.\<close>

definition newest :: "nat \<Rightarrow> 'a list \<Rightarrow> 'a list" where
  "newest bound xs = drop (length xs - bound) xs"

fun read_ids :: "jstr list \<Rightarrow> js_value list \<Rightarrow> jstr list" where
  "read_ids ids [] = ids"
| "read_ids ids (v # vs) =
     (case parse_id v of
        None \<Rightarrow> read_ids ids vs
      | Some i \<Rightarrow> if i \<in> set ids then read_ids ids vs else read_ids (ids @ [i]) vs)"

definition parse_ids :: "js_value \<Rightarrow> id_section \<Rightarrow> jstr list" where
  "parse_ids raw s =
     (case as_record raw of
        None \<Rightarrow> []
      | Some ps \<Rightarrow>
          if \<not> readable_section raw (is_version s) then []
          else (case field ps (is_field s) of
                  Array listed \<Rightarrow> newest (is_bound s) (read_ids [] listed)
                | _ \<Rightarrow> []))"

fun keep_section :: "(jstr \<times> js_value) list \<Rightarrow> jstr \<times> js_value \<Rightarrow> (jstr \<times> js_value) list" where
  "keep_section rest (k, x) =
     (if k = js ''v'' \<or> k = js ''root'' then rest
      else (case find (\<lambda>s. is_key s = k) workspace_sections of
              None \<Rightarrow> obj_assign k x rest
            | Some s \<Rightarrow> if readable_section x (is_version s) then rest else obj_assign k x rest))"

definition rest_of :: "js_value \<Rightarrow> (jstr \<times> js_value) list" where
  "rest_of raw = (case as_record raw of None \<Rightarrow> [] | Some ps \<Rightarrow> foldl keep_section [] ps)"

definition parse_workspace :: "stored_text \<Rightarrow> workspace" where
  "parse_workspace t =
     (let bare = \<lparr>wk_panes = parse_pane_layout t, wk_collapsed = [], wk_expanded = [], wk_rest = []\<rparr>
      in case t of
           No_Text \<Rightarrow> bare
         | Not_Json \<Rightarrow> bare
         | Json_Of raw \<Rightarrow>
             (case as_record raw of
                None \<Rightarrow> bare
              | Some ps \<Rightarrow>
                  bare\<lparr>wk_collapsed := parse_ids (field ps (is_key catalogue_section)) catalogue_section,
                       wk_expanded := parse_ids (field ps (is_key projects_section)) projects_section,
                       wk_rest := rest_of raw\<rparr>))"

section \<open>Writing\<close>

definition section_value :: "id_section \<Rightarrow> jstr list \<Rightarrow> js_value" where
  "section_value s ids =
     Object [(js ''v'', Number (Finite (is_version s))), (is_field s, Array (map String ids))]"

definition write_ids :: "(jstr \<times> js_value) list \<Rightarrow> id_section \<Rightarrow> jstr list \<Rightarrow> (jstr \<times> js_value) list" where
  "write_ids sections s ids =
     (let bounded = newest (is_bound s) ids
      in if bounded = [] then sections else obj_assign (is_key s) (section_value s bounded) sections)"

definition serialize_workspace :: "workspace \<Rightarrow> stored_text" where
  "serialize_workspace w =
     serialize_pane_layout (wk_panes w)
       (write_ids (write_ids (wk_rest w) catalogue_section (wk_collapsed w)) projects_section (wk_expanded w))"

section \<open>What was read can be written\<close>

definition ids_ok :: "nat \<Rightarrow> jstr list \<Rightarrow> bool" where
  "ids_ok bound ids \<longleftrightarrow> distinct ids \<and> (\<forall>i \<in> set ids. opaque_id i) \<and> length ids \<le> bound"

text \<open>A section that stays in the remainder: not the envelope's, nor one of this build's that it reads.\<close>

definition keeps :: "jstr \<Rightarrow> js_value \<Rightarrow> bool" where
  "keeps k x \<longleftrightarrow> k \<notin> {js ''v'', js ''root'', js ''__proto__''}
     \<and> (\<forall>s \<in> set workspace_sections. is_key s = k \<longrightarrow> \<not> readable_section x (is_version s))"

definition rest_ok :: "(jstr \<times> js_value) list \<Rightarrow> bool" where
  "rest_ok rest \<longleftrightarrow> distinct (map fst rest) \<and> (\<forall>(k, x) \<in> set rest. sound x \<and> keeps k x)"

lemma section_simps [simp]:
  "is_key catalogue_section = js ''catalogue''" "is_version catalogue_section = 1"
  "is_field catalogue_section = js ''collapsed''" "is_bound catalogue_section = max_remembered_collapses"
  "is_key projects_section = js ''projects''" "is_version projects_section = 1"
  "is_field projects_section = js ''expanded''" "is_bound projects_section = catalogue_max_open_projects"
  by (simp_all add: catalogue_section_def projects_section_def)

lemma newest_short [simp]: "length xs \<le> n \<Longrightarrow> newest n xs = xs"
  by (simp add: newest_def)

lemma length_newest [simp]: "length (newest n xs) = min (length xs) n"
  by (simp add: newest_def)

lemma set_newest: "set (newest n xs) \<subseteq> set xs"
  by (simp add: newest_def set_drop_subset)

lemma ids_ok_newest: "distinct xs \<Longrightarrow> \<forall>i \<in> set xs. opaque_id i \<Longrightarrow> ids_ok n (newest n xs)"
  using set_newest [of n xs] by (auto simp: ids_ok_def newest_def distinct_drop)

lemma parse_id_opaque: "parse_id v = Some i \<Longrightarrow> opaque_id i"
  by (cases v) (auto split: if_splits)

lemma read_ids_ok:
  "distinct ids \<Longrightarrow> \<forall>i \<in> set ids. opaque_id i \<Longrightarrow>
     distinct (read_ids ids vs) \<and> (\<forall>i \<in> set (read_ids ids vs). opaque_id i)"
proof (induction vs arbitrary: ids)
  case (Cons v vs)
  show ?case
  proof (cases "parse_id v")
    case (Some i)
    then have "opaque_id i" by (rule parse_id_opaque)
    then show ?thesis using Some Cons.prems Cons.IH [of ids] Cons.IH [of "ids @ [i]"] by simp
  qed (use Cons in simp)
qed simp

lemma parse_ids_ok: "ids_ok (is_bound s) (parse_ids raw s)"
proof -
  have "ids_ok (is_bound s) []" by (simp add: ids_ok_def)
  moreover have "ids_ok (is_bound s) (newest (is_bound s) (read_ids [] vs))" for vs
    using read_ids_ok [of "[]" vs] by (intro ids_ok_newest) simp_all
  ultimately show ?thesis by (simp add: parse_ids_def split: option.split js_value.split)
qed

lemma read_ids_strings: "distinct (ids @ xs) \<Longrightarrow> \<forall>i \<in> set xs. opaque_id i \<Longrightarrow> read_ids ids (map String xs) = ids @ xs"
  by (induction xs arbitrary: ids) auto

lemma parse_section_value:
  "ids_ok (is_bound s) ids \<Longrightarrow> is_field s \<noteq> js ''v'' \<Longrightarrow> parse_ids (section_value s ids) s = ids"
  using read_ids_strings [of "[]" ids]
  by (simp add: parse_ids_def section_value_def readable_section_def ids_ok_def)

lemma readable_section_value [simp]:
  "is_field s \<noteq> js ''v'' \<Longrightarrow> readable_section (section_value s ids) (is_version s)"
  by (simp add: readable_section_def section_value_def)

lemma written_section_value [simp]: "written (section_value s ids) = section_value s ids"
  by (simp add: section_value_def comp_def)

lemma unreadable_ids: "\<not> readable_section x (is_version s) \<Longrightarrow> parse_ids x s = []"
  by (simp add: parse_ids_def split: option.split)

lemma keep_section_cases:
  "keep_section rest (k, x) = (if keeps k x then obj_assign k x rest
     else if k = js ''__proto__'' then obj_assign k x rest else rest)"
  by (auto simp: keeps_def workspace_sections_def)

lemma field_keep_sections:
  "distinct (map fst ps) \<Longrightarrow> \<forall>k \<in> fst ` set ps. field rest k = Undefined \<Longrightarrow>
     field (foldl keep_section rest ps) k =
       (if k \<in> fst ` set ps then (if keeps k (field ps k) then field ps k else Undefined) else field rest k)"
proof (induction ps arbitrary: rest)
  case (Cons p ps)
  obtain a x where p: "p = (a, x)" by (cases p)
  have "field (keep_section rest (a, x)) k' = (if k' = a then (if keeps a x then x else Undefined) else field rest k')" for k'
    using Cons.prems(2) p by (auto simp: keep_section_cases field_obj_assign keeps_def simp del: keep_section.simps)
  note one = this
  have "\<forall>k \<in> fst ` set ps. field (keep_section rest (a, x)) k = Undefined"
    using Cons.prems p by (auto simp: one simp del: keep_section.simps)
  moreover have "distinct (map fst ps)" using Cons.prems(1) p by simp
  ultimately have "field (foldl keep_section (keep_section rest (a, x)) ps) k =
      (if k \<in> fst ` set ps then (if keeps k (field ps k) then field ps k else Undefined)
       else field (keep_section rest (a, x)) k)"
    by (intro Cons.IH)
  moreover have "a \<notin> fst ` set ps" using Cons.prems(1) p by simp
  ultimately show ?case by (simp add: p one del: keep_section.simps)
qed simp

lemma keep_section_ok: "rest_ok rest \<Longrightarrow> sound x \<Longrightarrow> rest_ok (keep_section rest (k, x))"
  using set_obj_assign [of k x rest] distinct_obj_assign [of rest k x]
  by (auto simp: keep_section_cases rest_ok_def simp del: keep_section.simps)

lemma rest_of_ok: "sound raw \<Longrightarrow> rest_ok (rest_of raw)"
proof (cases "as_record raw")
  case (Some ps)
  assume "sound raw"
  then have "\<forall>(k, x) \<in> set ps. sound x" using Some by (simp add: as_record_Some)
  moreover have "rest_ok (foldl keep_section rest ps)" if "\<forall>(k, x) \<in> set ps. sound x" "rest_ok rest" for rest ps
    using that by (induction ps arbitrary: rest) (auto intro: keep_section_ok simp del: keep_section.simps)
  moreover have "rest_ok []" by (simp add: rest_ok_def)
  ultimately show ?thesis using Some by (simp add: rest_of_def)
qed (simp add: rest_of_def rest_ok_def)

lemma rest_of_field:
  "distinct (map fst ps) \<Longrightarrow>
     field (rest_of (Object ps)) k = (if keeps k (field ps k) then field ps k else Undefined)"
  using field_keep_sections [of ps "[]" k] field_absent [of k ps] by (auto simp: rest_of_def)

lemma distinct_write_ids: "distinct (map fst sections) \<Longrightarrow> distinct (map fst (write_ids sections s ids))"
  by (simp add: write_ids_def Let_def distinct_obj_assign)

lemma field_write_ids:
  "length ids \<le> is_bound s \<Longrightarrow> is_key s \<noteq> js ''__proto__'' \<Longrightarrow>
     field (write_ids sections s ids) k = (if k = is_key s \<and> ids \<noteq> [] then section_value s ids else field sections k)"
  by (auto simp: write_ids_def Let_def field_obj_assign)

lemma keeps_field:
  assumes "rest_ok rest" and "field rest k \<noteq> Undefined"
  shows "keeps k (field rest k)" and "written (field rest k) = field rest k"
proof -
  have "(k, field rest k) \<in> set rest"
    using assms(2) by (auto simp: field_def dest: map_of_SomeD split: option.splits)
  then show "keeps k (field rest k)" "written (field rest k) = field rest k"
    using assms(1) sound_written by (auto simp: rest_ok_def)
qed

lemma unkept_undefined [simp]: "\<not> readable_section Undefined n"
  by (simp add: readable_section_def)

lemma rest_unreadable:
  assumes "rest_ok rest" and "s \<in> set workspace_sections"
  shows "\<not> readable_section (field rest (is_key s)) (is_version s)"
  using keeps_field(1) [OF assms(1), of "is_key s"] assms(2)
  by (cases "field rest (is_key s) = Undefined") (auto simp: keeps_def)

text \<open>What is written is read back, whoever's sections are in the remainder.\<close>

lemma parse_serialized_workspace:
  assumes fits: "fits 0 (wk_panes w)" and rest: "rest_ok (wk_rest w)"
    and c: "ids_ok max_remembered_collapses (wk_collapsed w)" and e: "ids_ok catalogue_max_open_projects (wk_expanded w)"
  defines "w' \<equiv> parse_workspace (serialize_workspace w)"
  shows "wk_panes w' = saved_tree (wk_panes w)" "wk_collapsed w' = wk_collapsed w" "wk_expanded w' = wk_expanded w"
    and "field (wk_rest w') k = (if k = js ''catalogue'' \<and> wk_collapsed w \<noteq> [] \<or> k = js ''projects'' \<and> wk_expanded w \<noteq> []
      then Undefined else field (wk_rest w) k)"
proof -
  define secs where "secs = write_ids (write_ids (wk_rest w) catalogue_section (wk_collapsed w)) projects_section (wk_expanded w)"
  have dsecs: "distinct (map fst secs)" using rest by (simp add: secs_def distinct_write_ids rest_ok_def)
  define qs where "qs = obj_assign (js ''root'') (encode_node (wk_panes w)) (obj_assign (js ''v'') (Number (Finite 1)) secs)"
  define ws where "ws = map (\<lambda>(k, v). (k, written v)) (filter (\<lambda>(k, v). v \<noteq> Undefined) qs)"
  have dqs: "distinct (map fst qs)" by (simp add: qs_def distinct_obj_assign dsecs)
  have dws: "distinct (map fst ws)" using dqs
    by (auto simp: ws_def comp_def case_prod_unfold distinct_map intro: inj_on_subset)
  have ser: "serialize_workspace w = Json_Of (Object ws)"
    by (simp add: serialize_workspace_def serialize_pane_layout_def secs_def qs_def ws_def)
  have lens: "length (wk_collapsed w) \<le> max_remembered_collapses" "length (wk_expanded w) \<le> catalogue_max_open_projects"
    using c e by (simp_all add: ids_ok_def)
  have secs: "field secs k = (if k = js ''projects'' \<and> wk_expanded w \<noteq> [] then section_value projects_section (wk_expanded w)
      else if k = js ''catalogue'' \<and> wk_collapsed w \<noteq> [] then section_value catalogue_section (wk_collapsed w)
      else field (wk_rest w) k)" for k
    using lens by (simp add: secs_def field_write_ids)
  have wsecs: "written (field secs k) = field secs k" for k
    using keeps_field(2) [OF rest, of k] by (cases "field (wk_rest w) k = Undefined") (simp_all add: secs)
  have fw: "field ws k = (if k = js ''root'' then written (encode_node (wk_panes w))
      else if k = js ''v'' then Number (Finite 1) else field secs k)" for k
    unfolding ws_def field_written [OF dqs] by (simp add: qs_def field_obj_assign wsecs)
  show "wk_panes w' = saved_tree (wk_panes w)"
    using parse_serialized [OF fits dsecs] ser
    by (simp add: w'_def parse_workspace_def Let_def serialize_workspace_def secs_def)
  show "wk_collapsed w' = wk_collapsed w"
    using parse_section_value [of catalogue_section "wk_collapsed w"] c
      unreadable_ids [OF rest_unreadable [OF rest, of catalogue_section]]
    by (simp add: w'_def ser parse_workspace_def Let_def fw secs workspace_sections_def)
  show "wk_expanded w' = wk_expanded w"
    using parse_section_value [of projects_section "wk_expanded w"] e
      unreadable_ids [OF rest_unreadable [OF rest, of projects_section]]
    by (simp add: w'_def ser parse_workspace_def Let_def fw secs workspace_sections_def)
  have "keeps k (field (wk_rest w) k)" if "field (wk_rest w) k \<noteq> Undefined" for k
    by (rule keeps_field(1) [OF rest that])
  then have in_rest: "\<not> keeps k (field (wk_rest w) k) \<Longrightarrow> field (wk_rest w) k = Undefined" for k by blast
  have "\<not> keeps (js ''catalogue'') (section_value catalogue_section ids)" "\<not> keeps (js ''projects'') (section_value projects_section ids)"
      "\<not> keeps (js ''root'') x" "\<not> keeps (js ''v'') x" for ids x
    using readable_section_value [of catalogue_section ids] readable_section_value [of projects_section ids]
    by (auto simp: keeps_def workspace_sections_def simp del: readable_section_value)
  note unkept = this
  show "field (wk_rest w') k = (if k = js ''catalogue'' \<and> wk_collapsed w \<noteq> [] \<or> k = js ''projects'' \<and> wk_expanded w \<noteq> []
      then Undefined else field (wk_rest w) k)"
    using in_rest [of k] unkept
    by (auto simp: w'_def ser parse_workspace_def Let_def rest_of_field [OF dws] fw secs)
qed

text \<open>A workspace a tab can hold, but for the panes.\<close>

definition workspace_ok :: "workspace \<Rightarrow> bool" where
  "workspace_ok w \<longleftrightarrow> rest_ok (wk_rest w) \<and> ids_ok max_remembered_collapses (wk_collapsed w)
     \<and> ids_ok catalogue_max_open_projects (wk_expanded w)"

fun sound_text :: "stored_text \<Rightarrow> bool" where
  "sound_text (Json_Of raw) = sound raw"
| "sound_text t = True"

lemma parse_pane_layout_cases:
  "parse_pane_layout t = default_tree
     \<or> (\<exists>x. parse_pane_layout t = parse_node x 0 \<and> (sound_text t \<longrightarrow> sound x))"
proof (cases "parse_pane_layout t = default_tree")
  case False
  then obtain ps where t: "t = Json_Of (Object ps)" "js ''root'' \<in> fst ` set ps"
      and n: "parse_pane_layout t = parse_node (field ps (js ''root'')) 0"
    by (cases t) (auto simp: as_record_Some split: option.splits if_splits)
  have "sound_text t \<longrightarrow> sound (field ps (js ''root''))" using field_in [OF t(2)] t(1) by fastforce
  with n show ?thesis by blast
qed simp

lemma ratios_layout: "ratios_ok (parse_pane_layout t)"
  using parse_pane_layout_cases [of t] ratios_parse by (auto simp: default_tree_def)

lemma fits_layout:
  assumes "sound_text t"
  shows "fits 0 (parse_pane_layout t)" and "saved_tree (parse_pane_layout t) = parse_pane_layout t"
  using parse_pane_layout_cases [of t] assms parse_fits [of _ 0] by (auto simp: default_tree_def)

lemma parse_workspace_ok: "sound_text t \<Longrightarrow> workspace_ok (parse_workspace t)"
  using parse_ids_ok [of catalogue_section] parse_ids_ok [of projects_section] rest_of_ok
  by (cases t) (auto simp: workspace_ok_def parse_workspace_def Let_def rest_ok_def ids_ok_def split: option.split)

lemma parse_workspace_panes [simp]: "wk_panes (parse_workspace t) = parse_pane_layout t"
  by (cases t) (auto simp: parse_workspace_def Let_def split: option.split)

text \<open>
  What is saved is what was arranged, and a stranger's sections pass through.  A workspace read
  back from its own text has its panes (but for the starts waited on, which come back empty), its closed
  containers, its open projects and every section of the remainder, unless this build wrote its own over
  it; and of any stored record, the remainder keeps every section this build cannot read exactly as it
  came, but for one named \<open>__proto__\<close>, and the rest of it can be written back.
\<close>

theorem workspace_roundtrip:
  "(fits 0 (wk_panes w) \<and> workspace_ok w \<longrightarrow>
       wk_panes (parse_workspace (serialize_workspace w)) = saved_tree (wk_panes w)
       \<and> wk_collapsed (parse_workspace (serialize_workspace w)) = wk_collapsed w
       \<and> wk_expanded (parse_workspace (serialize_workspace w)) = wk_expanded w
       \<and> (\<forall>k. field (wk_rest (parse_workspace (serialize_workspace w))) k =
            (if k = js ''catalogue'' \<and> wk_collapsed w \<noteq> [] \<or> k = js ''projects'' \<and> wk_expanded w \<noteq> []
             then Undefined else field (wk_rest w) k)))
     \<and> (sound (Object ps) \<longrightarrow>
          fits 0 (wk_panes (parse_workspace (Json_Of (Object ps)))) \<and> workspace_ok (parse_workspace (Json_Of (Object ps)))
          \<and> (\<forall>k. field (wk_rest (parse_workspace (Json_Of (Object ps)))) k =
               (if k = js ''v'' \<or> k = js ''root'' \<or> k = js ''__proto__''
                  \<or> (k = js ''catalogue'' \<or> k = js ''projects'') \<and> readable_section (field ps k) 1
                then Undefined else field ps k)))"
proof -
  have "field (wk_rest (parse_workspace (Json_Of (Object ps)))) k = (if keeps k (field ps k) then field ps k else Undefined)"
    if "sound (Object ps)" for k
    using that rest_of_field [of ps k] by (simp add: parse_workspace_def Let_def)
  moreover have "keeps k x \<longleftrightarrow> \<not> (k = js ''v'' \<or> k = js ''root'' \<or> k = js ''__proto__''
      \<or> (k = js ''catalogue'' \<or> k = js ''projects'') \<and> readable_section x 1)" for k x
    by (auto simp: keeps_def workspace_sections_def)
  ultimately show ?thesis
    using parse_serialized_workspace [of w] fits_layout [of "Json_Of (Object ps)"] parse_workspace_ok [of "Json_Of (Object ps)"]
    by (simp add: workspace_ok_def)
qed

text \<open>A closed folder beside a newer build's projects.\<close>

definition small_workspace :: workspace where
  "small_workspace = \<lparr>wk_panes = Pane (Pending_Pane (js ''a'')), wk_collapsed = [js ''f''], wk_expanded = [],
     wk_rest = [(js ''projects'', Object [(js ''v'', Number (Finite 2))])]\<rparr>"

theorem workspace_roundtrip_witness:
  "wk_panes (parse_workspace (serialize_workspace small_workspace)) = Pane Empty_Pane
     \<and> wk_collapsed (parse_workspace (serialize_workspace small_workspace)) = [js ''f'']
     \<and> field (wk_rest (parse_workspace (serialize_workspace small_workspace))) (js ''projects'') = Object [(js ''v'', Number (Finite 2))]"
proof -
  have f: "fits 0 (wk_panes small_workspace)" by (simp add: small_workspace_def)
  have o: "workspace_ok small_workspace"
    by (simp add: small_workspace_def workspace_ok_def rest_ok_def ids_ok_def keeps_def workspace_sections_def
        readable_section_def opaque_id_def max_remembered_collapses_def)
  have r: "sound (Object [])" by simp
  show ?thesis using workspace_roundtrip [of small_workspace "[]"] f o r by (simp add: small_workspace_def)
qed

end
