(* ===== verification/Layout_Store.thy ===== *)
theory Layout_Store
  imports Workspace
begin

text \<open>
  \<open>apps/web/src/layout/layout-store.ts\<close>: the layout as one tab lives with it, and what it saves.

  The state is the snapshot and the variables \<open>createLayoutStore\<close> closes over; the hub's snapshot is part
  of it, and is only heard while somebody listens.  \<open>lt_timer\<close> says whether a save is scheduled,
  \<open>lt_saves\<close> is every text sent, oldest first.  Each call of \<open>subscribe\<close> brings a listener of its own,
  known by a number; calling the listeners changes nothing here.
\<close>

section \<open>State\<close>

text \<open>What \<open>pendingSession\<close> reads of a start: the session it was answered with, and the one it was named.\<close>

record start_view =
  sv_started :: "(jstr \<times> jstr option) option"
  sv_named :: "session_ref option"

text \<open>The watched terminals are here by the start they are on.\<close>

record hub_view =
  hv_layout :: "stored_text option"
  hv_terminals :: "(jstr \<times> session_ref option) list"
  hv_starts :: "(jstr \<times> start_view) list"

record layout_store =
  lt_hub :: hub_view
  lt_loaded :: bool
  lt_tree :: layout_tree
  lt_focus :: pane_path
  lt_collapsed :: "jstr list"
  lt_expanded :: "jstr list"
  lt_rest :: "(jstr \<times> js_value) list"
  lt_settled :: bool
  lt_timer :: bool
  lt_dirty :: bool
  lt_requested :: "pane_content list"
  lt_listeners :: "nat list"
  lt_saves :: "stored_text list"

definition create_layout_store :: "hub_view \<Rightarrow> layout_store" where
  "create_layout_store hub =
     \<lparr>lt_hub = hub, lt_loaded = False, lt_tree = default_tree, lt_focus = [], lt_collapsed = [], lt_expanded = [],
      lt_rest = [], lt_settled = False, lt_timer = False, lt_dirty = False, lt_requested = [], lt_listeners = [],
      lt_saves = []\<rparr>"

definition arranged :: "layout_store \<Rightarrow> workspace" where
  "arranged st = \<lparr>wk_panes = lt_tree st, wk_collapsed = lt_collapsed st, wk_expanded = lt_expanded st,
     wk_rest = lt_rest st\<rparr>"

section \<open>Saving\<close>

definition save_now :: "layout_store \<Rightarrow> layout_store" where
  "save_now st =
     (if \<not> lt_dirty st then st\<lparr>lt_timer := False\<rparr>
      else st\<lparr>lt_timer := False, lt_dirty := False, lt_saves := lt_saves st @ [serialize_workspace (arranged st)]\<rparr>)"

definition structural :: "layout_store \<Rightarrow> layout_store" where
  "structural st = st\<lparr>lt_settled := True, lt_dirty := True, lt_timer := True, lt_loaded := True\<rparr>"

section \<open>Showing\<close>

definition pending_session :: "start_view option \<Rightarrow> session_ref option option \<Rightarrow> session_ref option" where
  "pending_session start terminal =
     (case start of
        Some v \<Rightarrow>
          (case sv_started v of
             Some (store, Some session) \<Rightarrow> Some \<lparr>sr_store = store, sr_session = session\<rparr>
           | _ \<Rightarrow>
               (case sv_named v of
                  Some r \<Rightarrow> Some r
                | None \<Rightarrow> (case terminal of Some s \<Rightarrow> s | None \<Rightarrow> None)))
      | None \<Rightarrow> (case terminal of Some s \<Rightarrow> s | None \<Rightarrow> None))"

definition session_of_start :: "hub_view \<Rightarrow> jstr \<Rightarrow> session_ref option" where
  "session_of_start hub start = pending_session (map_of (hv_starts hub) start) (map_of (hv_terminals hub) start)"

definition shown_as :: "hub_view \<Rightarrow> pane_content \<Rightarrow> pane_content" where
  "shown_as hub asked =
     (case asked of
        Pending_Pane start \<Rightarrow>
          (case session_of_start hub start of None \<Rightarrow> asked | Some r \<Rightarrow> Session_Pane r)
      | _ \<Rightarrow> asked)"

text \<open>\<open>show\<close>; focusing the focused pane changes nothing.\<close>

definition show_content :: "pane_content \<Rightarrow> layout_store \<Rightarrow> layout_store" where
  "show_content asked st =
     (let content = shown_as (lt_hub st) asked
      in case find_pane_showing (lt_tree st) content of
           Some p \<Rightarrow> st\<lparr>lt_focus := p\<rparr>
         | None \<Rightarrow>
             (case set_pane_content (lt_tree st) (lt_focus st) content of
                None \<Rightarrow> structural (st\<lparr>lt_tree := Pane content, lt_focus := []\<rparr>)
              | Some t \<Rightarrow> structural (st\<lparr>lt_tree := t\<rparr>)))"

definition show_or_wait :: "pane_content \<Rightarrow> layout_store \<Rightarrow> layout_store" where
  "show_or_wait content st =
     (if \<not> lt_loaded st then st\<lparr>lt_requested := lt_requested st @ [content]\<rparr> else show_content content st)"

definition focus_first_empty_pane :: "layout_store \<Rightarrow> layout_store" where
  "focus_first_empty_pane st =
     (case find (\<lambda>(p, c). c = Empty_Pane) (panes (lt_tree st)) of
        None \<Rightarrow> st
      | Some (p, c) \<Rightarrow> st\<lparr>lt_focus := p\<rparr>)"

fun show_waiting :: "pane_content list \<Rightarrow> layout_store \<Rightarrow> layout_store" where
  "show_waiting [] st = st"
| "show_waiting [c] st = show_content c st"
| "show_waiting (c # d # cs) st = show_waiting (d # cs) (focus_first_empty_pane (show_content c st))"

section \<open>Hearing the hub\<close>

definition adopt_answer :: "layout_store \<Rightarrow> layout_store" where
  "adopt_answer st =
     (if lt_settled st then st
      else
        (case hv_layout (lt_hub st) of
           None \<Rightarrow> st
         | Some answer \<Rightarrow>
             (let stored = parse_workspace answer
              in show_waiting (lt_requested st)
                   (st\<lparr>lt_settled := True, lt_rest := wk_rest stored, lt_loaded := True, lt_tree := wk_panes stored,
                       lt_focus := (case panes (wk_panes stored) of [] \<Rightarrow> [] | (p, c) # rest \<Rightarrow> p),
                       lt_collapsed := wk_collapsed stored, lt_expanded := wk_expanded stored,
                       lt_requested := []\<rparr>))))"

definition rebind_named :: "hub_view \<Rightarrow> jstr list \<Rightarrow> layout_tree \<Rightarrow> layout_tree" where
  "rebind_named hub starts t =
     foldl (\<lambda>t start. case session_of_start hub start of None \<Rightarrow> t | Some r \<Rightarrow> rebind_pending t start r) t starts"

definition rebind_pending_panes :: "layout_store \<Rightarrow> layout_store" where
  "rebind_pending_panes st =
     (let tree = rebind_named (lt_hub st) (pending_starts (lt_tree st)) (lt_tree st)
      in if tree = lt_tree st then st else structural (st\<lparr>lt_tree := tree\<rparr>))"

definition on_hub_change :: "layout_store \<Rightarrow> layout_store" where
  "on_hub_change st = rebind_pending_panes (adopt_answer st)"

section \<open>The interface\<close>

definition screen_subscribes :: "nat \<Rightarrow> layout_store \<Rightarrow> layout_store" where
  "screen_subscribes l st =
     (let st1 = st\<lparr>lt_listeners := set_add l (lt_listeners st)\<rparr>
      in if length (lt_listeners st1) = 1 then on_hub_change st1 else st1)"

definition screen_leaves :: "nat \<Rightarrow> layout_store \<Rightarrow> layout_store" where
  "screen_leaves l st =
     (if l \<notin> set (lt_listeners st) then st
      else
        (let st1 = st\<lparr>lt_listeners := removeAll l (lt_listeners st)\<rparr>
         in if lt_listeners st1 = [] then save_now (st1\<lparr>lt_timer := False\<rparr>) else st1))"

definition structural_change_by :: "structural_change option \<Rightarrow> layout_store \<Rightarrow> layout_store" where
  "structural_change_by change st =
     (case change of
        None \<Rightarrow> st
      | Some ch \<Rightarrow> structural (st\<lparr>lt_tree := sc_tree ch, lt_focus := sc_focus ch\<rparr>))"

definition toggle :: "nat \<Rightarrow> jstr \<Rightarrow> jstr list \<Rightarrow> jstr list" where
  "toggle bound n ids = (if n \<in> set ids then filter (\<lambda>i. i \<noteq> n) ids else newest bound (ids @ [n]))"

datatype layout_event =
    Hub_Publishes hub_view
  | Screen_Subscribes nat
  | Screen_Leaves nat
  | Save_Timer_Fires
  | Split_Focused split_direction
  | Close_Focused
  | Commit_Ratio pane_path js_num
  | Show_Session session_ref
  | Show_Doc jstr
  | Show_Pending_Session jstr
  | Focus_Move focus_direction
  | Focus_Pane pane_path
  | Toggle_Collapsed jstr
  | Toggle_Expanded jstr

fun layout_step :: "layout_store \<Rightarrow> layout_event \<Rightarrow> layout_store" where
  "layout_step st (Hub_Publishes hub) =
     (let st1 = st\<lparr>lt_hub := hub\<rparr> in if lt_listeners st = [] then st1 else on_hub_change st1)"
| "layout_step st (Screen_Subscribes l) = screen_subscribes l st"
| "layout_step st (Screen_Leaves l) = screen_leaves l st"
| "layout_step st Save_Timer_Fires = (if lt_timer st then save_now st else st)"
| "layout_step st (Split_Focused d) = structural_change_by (split_pane (lt_tree st) (lt_focus st) d) st"
| "layout_step st Close_Focused = structural_change_by (close_pane (lt_tree st) (lt_focus st)) st"
| "layout_step st (Commit_Ratio p r) =
     (case set_ratio (lt_tree st) p r of None \<Rightarrow> st | Some t \<Rightarrow> structural (st\<lparr>lt_tree := t\<rparr>))"
| "layout_step st (Show_Session r) = show_or_wait (Session_Pane r) st"
| "layout_step st (Show_Doc n) = show_or_wait (Doc_Pane n) st"
| "layout_step st (Show_Pending_Session s) = show_or_wait (Pending_Pane s) st"
| "layout_step st (Focus_Move d) =
     (case move_focus (lt_tree st) (lt_focus st) d of None \<Rightarrow> st | Some p \<Rightarrow> st\<lparr>lt_focus := p\<rparr>)"
| "layout_step st (Focus_Pane p) = (if pane_at (lt_tree st) p = None then st else st\<lparr>lt_focus := p\<rparr>)"
| "layout_step st (Toggle_Collapsed n) =
     (if \<not> lt_loaded st then st
      else structural (st\<lparr>lt_collapsed := toggle max_remembered_collapses n (lt_collapsed st)\<rparr>))"
| "layout_step st (Toggle_Expanded n) =
     (if \<not> lt_loaded st then st
      else structural (st\<lparr>lt_expanded := toggle catalogue_max_open_projects n (lt_expanded st)\<rparr>))"

definition layout_run :: "hub_view \<Rightarrow> layout_event list \<Rightarrow> layout_store" where
  "layout_run hub es = run layout_step (create_layout_store hub) es"

section \<open>What the panes show\<close>

definition shown_in :: "layout_tree \<Rightarrow> pane_content set" where
  "shown_in t = snd ` set (panes t)"

lemma shown_in_Pane [simp]: "shown_in (Pane c) = {c}"
  by (simp add: shown_in_def)

lemma shown_in_set: "set_pane_content t p c = Some u \<Longrightarrow> shown_in u \<subseteq> insert c (shown_in t)"
proof -
  assume u: "set_pane_content t p c = Some u"
  then obtain c0 where p: "pane_at t p = Some c0" and u: "u = replace_at t p (Pane c)"
    by (auto simp: set_pane_content_def split: if_splits)
  from panes_replace [OF pane_at_node [OF p]] show ?thesis
    unfolding u shown_in_def by fastforce
qed

lemma shown_in_split: "split_pane t p d = Some ch \<Longrightarrow> shown_in (sc_tree ch) \<subseteq> insert Empty_Pane (shown_in t)"
  by (elim split_panes) (auto simp: shown_in_def)

lemma shown_in_close: "close_pane t p = Some ch \<Longrightarrow> shown_in (sc_tree ch) \<subseteq> shown_in t"
proof -
  assume "close_pane t p = Some ch"
  from arg_cong [OF close_panes(1) [OF this], of set] show ?thesis by (auto simp: shown_in_def)
qed

lemma panes_rebind: "panes (rebind_pending t s r) = map (\<lambda>(p, c). (p, if c = Pending_Pane s then Session_Pane r else c)) (panes t)"
  by (induction t) (auto simp: case_prod_unfold comp_def)

lemma panes_rebind_named:
  "panes (rebind_named hub starts t)
     = map (\<lambda>(p, c). (p, if c \<in> Pending_Pane ` set starts then shown_as hub c else c)) (panes t)"
proof (induction starts arbitrary: t)
  case (Cons s starts)
  let ?t = "case session_of_start hub s of None \<Rightarrow> t | Some r \<Rightarrow> rebind_pending t s r"
  have one: "panes ?t = map (\<lambda>(p, c). (p, if c = Pending_Pane s then shown_as hub c else c)) (panes t)"
  proof (cases "session_of_start hub s")
    case None
    then have "(if c = Pending_Pane s then shown_as hub c else c) = c" for c by (simp add: shown_as_def)
    then show ?thesis using None by (simp add: case_prod_unfold)
  next
    case (Some r)
    then have "(if c = Pending_Pane s then shown_as hub c else c) = (if c = Pending_Pane s then Session_Pane r else c)" for c
      by (simp add: shown_as_def)
    then show ?thesis using Some by (simp add: panes_rebind)
  qed
  have two: "(if c' \<in> Pending_Pane ` set starts then shown_as hub c' else c')
      = (if c \<in> Pending_Pane ` set (s # starts) then shown_as hub c else c)"
    if "c' = (if c = Pending_Pane s then shown_as hub c else c)" for c c'
    using that by (cases c; cases "session_of_start hub s") (auto simp: shown_as_def)
  have step: "rebind_named hub (s # starts) t = rebind_named hub starts ?t" by (simp add: rebind_named_def)
  show ?case unfolding step Cons.IH one list.map_comp
    by (intro map_cong [OF refl]) (simp only: comp_def case_prod_unfold fst_conv snd_conv two [OF refl])
qed (simp add: rebind_named_def case_prod_unfold)

lemma set_pending_starts: "set (pending_starts t) = {s. Pending_Pane s \<in> shown_in t}"
proof -
  have "set (foldl (\<lambda>found (p, c). case c of Pending_Pane s \<Rightarrow> set_add s found | _ \<Rightarrow> found) found ps)
      = set found \<union> {s. Pending_Pane s \<in> snd ` set ps}" for found and ps :: "(pane_path \<times> pane_content) list"
  proof (induction ps arbitrary: found)
    case (Cons x ps)
    obtain p c where "x = (p, c)" by (cases x)
    then show ?case using Cons.IH by (cases c) auto
  qed simp
  then show ?thesis by (simp add: pending_starts_def shown_in_def)
qed

lemma shown_in_rebound: "shown_in (rebind_named hub (pending_starts t) t) = shown_as hub ` shown_in t"
proof -
  have "(if c \<in> Pending_Pane ` set (pending_starts t) then shown_as hub c else c) = shown_as hub c" if "c \<in> shown_in t" for c
    using that by (auto simp: set_pending_starts shown_as_def split: pane_content.split)
  then show ?thesis
    unfolding shown_in_def panes_rebind_named by (force simp: shown_in_def)
qed

definition none_named :: "hub_view \<Rightarrow> layout_tree \<Rightarrow> bool" where
  "none_named hub t \<longleftrightarrow> (\<forall>s. Pending_Pane s \<in> shown_in t \<longrightarrow> session_of_start hub s = None)"

lemma shown_as_named: "shown_as hub c = Pending_Pane s \<Longrightarrow> session_of_start hub s = None"
  by (auto simp: shown_as_def split: pane_content.splits option.splits)

lemma none_named_rebound: "none_named hub (rebind_named hub (pending_starts t) t)"
  by (auto simp: none_named_def shown_in_rebound dest: sym [THEN shown_as_named])

lemma none_named_mono: "none_named hub t \<Longrightarrow> shown_in u \<subseteq> insert c (shown_in t) \<Longrightarrow>
    (\<And>s. c = Pending_Pane s \<Longrightarrow> session_of_start hub s = None) \<Longrightarrow> none_named hub u"
  by (auto simp: none_named_def)

lemma ratios_rebind_named [simp]: "ratios_ok (rebind_named hub starts t) = ratios_ok t"
  unfolding rebind_named_def by (induction starts arbitrary: t) (auto split: option.split)

lemma pane_at_rebind_named: "pane_at t p \<noteq> None \<Longrightarrow> pane_at (rebind_named hub starts t) p \<noteq> None"
  unfolding rebind_named_def by (induction starts arbitrary: t) (auto split: option.split)

section \<open>The invariant\<close>

definition lists_ok :: "layout_store \<Rightarrow> bool" where
  "lists_ok st \<longleftrightarrow> distinct (lt_collapsed st) \<and> length (lt_collapsed st) \<le> max_remembered_collapses
     \<and> distinct (lt_expanded st) \<and> length (lt_expanded st) \<le> catalogue_max_open_projects"

definition tab_ok :: "layout_store \<Rightarrow> bool" where
  "tab_ok st \<longleftrightarrow>
     lt_timer st = lt_dirty st \<and> lt_loaded st = lt_settled st \<and> lists_ok st
     \<and> pane_at (lt_tree st) (lt_focus st) \<noteq> None
     \<and> (\<not> lt_settled st \<longrightarrow> arranged st = arranged (create_layout_store (lt_hub st)) \<and> lt_saves st = [] \<and> \<not> lt_dirty st)
     \<and> (\<not> lt_dirty st \<longrightarrow>
          (if lt_saves st = [] then lt_settled st \<longrightarrow> (\<exists>answer. arranged st = parse_workspace answer)
           else last (lt_saves st) = serialize_workspace (arranged st)))"

lemma structural_simps [simp]:
  "lt_tree (structural st) = lt_tree st" "lt_focus (structural st) = lt_focus st"
  "lt_collapsed (structural st) = lt_collapsed st" "lt_expanded (structural st) = lt_expanded st"
  "lt_rest (structural st) = lt_rest st" "lt_hub (structural st) = lt_hub st" "lt_saves (structural st) = lt_saves st"
  "lt_listeners (structural st) = lt_listeners st" "lt_requested (structural st) = lt_requested st"
  "lt_settled (structural st)" "lt_loaded (structural st)" "lt_dirty (structural st)" "lt_timer (structural st)"
  by (simp_all add: structural_def)

lemma arranged_simps [simp]:
  "wk_panes (arranged st) = lt_tree st" "wk_collapsed (arranged st) = lt_collapsed st"
  "wk_expanded (arranged st) = lt_expanded st" "wk_rest (arranged st) = lt_rest st"
  "arranged (st\<lparr>lt_focus := p\<rparr>) = arranged st" "arranged (st\<lparr>lt_hub := hub\<rparr>) = arranged st"
  "arranged (st\<lparr>lt_listeners := ls\<rparr>) = arranged st" "arranged (st\<lparr>lt_requested := cs\<rparr>) = arranged st"
  "arranged (st\<lparr>lt_timer := b\<rparr>) = arranged st" "arranged (structural st) = arranged st"
  "arranged (create_layout_store h) = arranged (create_layout_store h')"
  by (simp_all add: arranged_def structural_def create_layout_store_def)

lemma create_tab_ok: "tab_ok (create_layout_store hub)"
  by (simp add: tab_ok_def create_layout_store_def lists_ok_def default_tree_def)

lemma tab_ok_structural:
  "lists_ok st \<Longrightarrow> pane_at (lt_tree st) (lt_focus st) \<noteq> None \<Longrightarrow> tab_ok (structural st)"
  by (simp add: tab_ok_def lists_ok_def)

lemma tab_ok_focus:
  "tab_ok st \<Longrightarrow> pane_at (lt_tree st) p \<noteq> None \<Longrightarrow> tab_ok (st\<lparr>lt_focus := p\<rparr>)"
  unfolding tab_ok_def lists_ok_def by simp

lemma tab_ok_around:
  "tab_ok (st\<lparr>lt_hub := hub\<rparr>) = tab_ok st" "tab_ok (st\<lparr>lt_listeners := ls\<rparr>) = tab_ok st"
  "tab_ok (st\<lparr>lt_requested := cs\<rparr>) = tab_ok st"
  unfolding tab_ok_def lists_ok_def by (simp_all add: create_layout_store_def arranged_def)

lemma find_showing_pane: "find_pane_showing t c = Some p \<Longrightarrow> pane_at t p \<noteq> None"
  by (auto simp: find_pane_showing_def in_panes dest!: find_Some_in)

lemma lists_ok_tree [simp]: "lists_ok (st\<lparr>lt_tree := t\<rparr>) = lists_ok st" "lists_ok (st\<lparr>lt_focus := p\<rparr>) = lists_ok st"
  by (simp_all add: lists_ok_def)

lemma tab_ok_fields:
  "tab_ok st \<Longrightarrow> lists_ok st" "tab_ok st \<Longrightarrow> pane_at (lt_tree st) (lt_focus st) \<noteq> None"
  "tab_ok st \<Longrightarrow> lt_loaded st = lt_settled st"
  by (simp_all add: tab_ok_def)

lemma tab_ok_tree:
  assumes "tab_ok st" and "pane_at t p \<noteq> None"
  shows "tab_ok (structural (st\<lparr>lt_tree := t, lt_focus := p\<rparr>))"
  by (rule tab_ok_structural) (use assms tab_ok_fields(1) in simp_all)

lemma tab_ok_show:
  assumes "tab_ok st"
  shows "tab_ok (show_content c st)"
proof -
  let ?c = "shown_as (lt_hub st) c"
  note f = tab_ok_fields [OF assms]
  have "tab_ok (structural (st\<lparr>lt_tree := t\<rparr>))" if "set_pane_content (lt_tree st) (lt_focus st) ?c = Some t" for t
    by (rule tab_ok_structural) (use f(1) set_pane_contentE [OF that] in auto)
  then show ?thesis
    using assms tab_ok_focus find_showing_pane tab_ok_tree [OF assms, of "Pane ?c" "[]"]
    by (auto simp: show_content_def Let_def split: option.split)
qed

lemma tab_ok_focus_empty: "tab_ok st \<Longrightarrow> tab_ok (focus_first_empty_pane st)"
  using tab_ok_focus [of st] by (auto simp: focus_first_empty_pane_def in_panes dest!: find_Some_in split: option.split)

lemma tab_ok_show_waiting: "tab_ok st \<Longrightarrow> tab_ok (show_waiting cs st)"
  by (induction cs st rule: show_waiting.induct) (simp_all add: tab_ok_show tab_ok_focus_empty)

lemma parse_workspace_lists:
  "distinct (wk_collapsed (parse_workspace t)) \<and> length (wk_collapsed (parse_workspace t)) \<le> max_remembered_collapses
     \<and> distinct (wk_expanded (parse_workspace t)) \<and> length (wk_expanded (parse_workspace t)) \<le> catalogue_max_open_projects"
  using parse_ids_ok [of catalogue_section] parse_ids_ok [of projects_section]
  by (cases t) (auto simp: parse_workspace_def Let_def ids_ok_def split: option.split)

lemma first_pane: "pane_at t (case panes t of [] \<Rightarrow> [] | (p, c) # rest \<Rightarrow> p) \<noteq> None"
proof -
  obtain p c rest where "panes t = (p, c) # rest" using panes_nonempty [of t] by (metis list.exhaust prod.exhaust)
  then show ?thesis using in_panes [of p c t] by simp
qed

lemma tab_ok_adopt:
  assumes "tab_ok st"
  shows "tab_ok (adopt_answer st)"
proof -
  have "tab_ok (show_waiting (lt_requested st) (st\<lparr>lt_settled := True, lt_rest := wk_rest w, lt_loaded := True,
      lt_tree := wk_panes w, lt_focus := (case panes (wk_panes w) of [] \<Rightarrow> [] | (p, c) # rest \<Rightarrow> p),
      lt_collapsed := wk_collapsed w, lt_expanded := wk_expanded w, lt_requested := []\<rparr>))"
    if s: "\<not> lt_settled st" and w: "w = parse_workspace answer" for w answer
  proof (rule tab_ok_show_waiting)
    have "lt_saves st = []" "\<not> lt_dirty st" "\<not> lt_timer st" using assms s by (simp_all add: tab_ok_def)
    moreover have "\<exists>a. arranged (st\<lparr>lt_rest := wk_rest w, lt_tree := wk_panes w, lt_collapsed := wk_collapsed w,
        lt_expanded := wk_expanded w\<rparr>) = parse_workspace a"
      by (rule exI [of _ answer]) (simp add: arranged_def flip: w)
    ultimately show "tab_ok (st\<lparr>lt_settled := True, lt_rest := wk_rest w, lt_loaded := True,
      lt_tree := wk_panes w, lt_focus := (case panes (wk_panes w) of [] \<Rightarrow> [] | (p, c) # rest \<Rightarrow> p),
      lt_collapsed := wk_collapsed w, lt_expanded := wk_expanded w, lt_requested := []\<rparr>)"
      using first_pane [of "wk_panes w"] parse_workspace_lists [of answer, folded w]
      by (simp add: tab_ok_def lists_ok_def arranged_def)
  qed
  then show ?thesis using assms by (auto simp: adopt_answer_def Let_def split: option.split)
qed

lemma tab_ok_hub_change: "tab_ok st \<Longrightarrow> tab_ok (on_hub_change st)"
proof -
  assume "tab_ok st"
  then have ok: "tab_ok (adopt_answer st)" by (rule tab_ok_adopt)
  have "tab_ok (structural (adopt_answer st\<lparr>lt_tree := rebind_named h starts (lt_tree (adopt_answer st))\<rparr>))" for h starts
    by (rule tab_ok_structural) (use tab_ok_fields [OF ok] pane_at_rebind_named in simp_all)
  then show ?thesis using ok by (simp add: on_hub_change_def rebind_pending_panes_def Let_def)
qed

lemma tab_ok_save: "tab_ok st \<Longrightarrow> tab_ok (save_now st)"
  by (auto simp: save_now_def tab_ok_def lists_ok_def arranged_def)

lemma tab_ok_save_cancelled: "tab_ok st \<Longrightarrow> tab_ok (save_now (st\<lparr>lt_timer := False\<rparr>))"
  by (auto simp: save_now_def tab_ok_def lists_ok_def arranged_def)

lemma tab_ok_change:
  assumes ok: "tab_ok st" and "\<And>ch. change = Some ch \<Longrightarrow> pane_at (sc_tree ch) (sc_focus ch) \<noteq> None"
  shows "tab_ok (structural_change_by change st)"
  using assms tab_ok_tree [OF ok] by (auto simp: structural_change_by_def split: option.split)

lemma split_focus: "split_pane t p d = Some ch \<Longrightarrow> pane_at (sc_tree ch) (sc_focus ch) \<noteq> None"
proof (elim split_paneE)
  fix c
  assume c: "pane_at t p = Some c" "sc_focus ch = p @ [Second]"
    "sc_tree ch = replace_at t p (Split d (Finite (1 / 2)) (Pane c) (Pane Empty_Pane))"
  then show ?thesis using pane_at_replace [of t p _ "[Second]"] pane_at_node [OF c(1)] by simp
qed

lemma toggle_ok: "distinct ids \<Longrightarrow> length ids \<le> bound \<Longrightarrow> distinct (toggle bound n ids) \<and> length (toggle bound n ids) \<le> bound"
proof (cases "n \<in> set ids")
  case True
  moreover assume "distinct ids" "length ids \<le> bound"
  ultimately show ?thesis using le_trans [OF length_filter_le] by (auto simp: toggle_def)
next
  case False
  moreover assume "distinct ids"
  ultimately have "distinct (newest bound (ids @ [n]))" unfolding newest_def by (intro distinct_drop) simp
  then show ?thesis using False by (simp add: toggle_def)
qed

lemma tab_ok_toggle:
  assumes "tab_ok st"
  shows "tab_ok (structural (st\<lparr>lt_collapsed := toggle max_remembered_collapses n (lt_collapsed st)\<rparr>))"
    and "tab_ok (structural (st\<lparr>lt_expanded := toggle catalogue_max_open_projects n (lt_expanded st)\<rparr>))"
  by (rule tab_ok_structural; use tab_ok_fields [OF assms] toggle_ok in \<open>simp add: lists_ok_def\<close>)+

lemma layout_step_ok: "tab_ok st \<Longrightarrow> tab_ok (layout_step st e)"
proof -
  assume ok: "tab_ok st"
  have ok_around: "tab_ok (st\<lparr>lt_hub := hub\<rparr>)" "tab_ok (st\<lparr>lt_listeners := ls\<rparr>)" "tab_ok (st\<lparr>lt_requested := cs\<rparr>)" for hub ls cs
    using ok by (simp_all only: tab_ok_around)
  have ratio: "tab_ok (structural (st\<lparr>lt_tree := t\<rparr>))" if t: "set_ratio (lt_tree st) p r = Some t" for p r t
  proof (rule tab_ok_structural)
    have "pane_at t q = pane_at (lt_tree st) q" for q
      using in_panes [of q _ t] in_panes [of q _ "lt_tree st"] set_ratio_panes [OF t] by (metis not_Some_eq)
    then show "pane_at (lt_tree (st\<lparr>lt_tree := t\<rparr>)) (lt_focus (st\<lparr>lt_tree := t\<rparr>)) \<noteq> None"
      using tab_ok_fields(2) [OF ok] by simp
  qed (use tab_ok_fields(1) [OF ok] in simp)
  show ?thesis
  proof (cases e)
    case (Split_Focused d)
    then show ?thesis using tab_ok_change [OF ok split_focus] by simp
  next
    case Close_Focused
    then show ?thesis using tab_ok_change [OF ok close_panes(2)] by simp
  qed (use ok ok_around ratio move_focus_lands(1) in
      \<open>auto simp: Let_def screen_subscribes_def screen_leaves_def show_or_wait_def
         intro!: tab_ok_hub_change tab_ok_save tab_ok_save_cancelled tab_ok_show tab_ok_focus tab_ok_toggle
         split: option.split\<close>)
qed

interpretation layout_machine: event_machine layout_step tab_ok
  by unfold_locales (rule layout_step_ok)

lemma layout_run_ok: "tab_ok (layout_run hub es)"
  unfolding layout_run_def by (rule layout_machine.run_inv [OF create_tab_ok])

section \<open>A named start is a session\<close>

definition heard_ok :: "layout_store \<Rightarrow> bool" where
  "heard_ok st \<longleftrightarrow> (lt_listeners st \<noteq> [] \<longrightarrow> none_named (lt_hub st) (lt_tree st))"

lemma shown_hub_change: "none_named (lt_hub (on_hub_change st)) (lt_tree (on_hub_change st))"
proof -
  have "none_named h (rebind_named h (pending_starts t) t)" for h t by (rule none_named_rebound)
  from this [of "lt_hub (adopt_answer st)" "lt_tree (adopt_answer st)"] show ?thesis
    by (auto simp: on_hub_change_def rebind_pending_panes_def Let_def)
qed

lemma heard_show: "heard_ok st \<Longrightarrow> heard_ok (show_content c st)"
proof -
  assume h: "heard_ok st"
  let ?c = "shown_as (lt_hub st) c"
  have c: "none_named (lt_hub st) u"
    if "none_named (lt_hub st) (lt_tree st)" "shown_in u \<subseteq> insert ?c (shown_in (lt_tree st))" for u
    by (rule none_named_mono [OF that]) (rule shown_as_named)
  show ?thesis
  proof (cases "lt_listeners st = []")
    case False
    then have n: "none_named (lt_hub st) (lt_tree st)" using h by (simp add: heard_ok_def)
    from c [OF n] show ?thesis
      using n shown_in_set [of "lt_tree st" "lt_focus st" ?c]
      by (auto simp: show_content_def Let_def heard_ok_def split: option.split)
  qed (auto simp: show_content_def Let_def heard_ok_def split: option.split)
qed

lemma heard_change:
  "heard_ok st \<Longrightarrow> (\<And>ch. change = Some ch \<Longrightarrow> shown_in (sc_tree ch) \<subseteq> insert Empty_Pane (shown_in (lt_tree st)))
     \<Longrightarrow> heard_ok (structural_change_by change st)"
  using none_named_mono [of "lt_hub st" "lt_tree st" _ Empty_Pane]
  by (auto simp: structural_change_by_def heard_ok_def split: option.split)

lemma heard_save [simp]: "heard_ok (save_now st) = heard_ok st" "lt_tree (save_now st) = lt_tree st" "lt_hub (save_now st) = lt_hub st"
  "lt_listeners (save_now st) = lt_listeners st"
  by (simp_all add: save_now_def heard_ok_def)

lemma heard_step:
  assumes "heard_ok st"
  shows "heard_ok (layout_step st e)"
proof (cases e)
  case (Hub_Publishes hub)
  then show ?thesis
    using shown_hub_change [of "st\<lparr>lt_hub := hub\<rparr>"] by (simp add: Let_def heard_ok_def)
next
  case (Screen_Subscribes l)
  let ?st = "st\<lparr>lt_listeners := set_add l (lt_listeners st)\<rparr>"
  have "heard_ok (on_hub_change ?st)" using shown_hub_change [of ?st] by (simp add: heard_ok_def)
  moreover have "heard_ok ?st" if "length (set_add l (lt_listeners st)) \<noteq> 1"
    using that assms by (cases "lt_listeners st") (auto simp: heard_ok_def set_add_def)
  ultimately show ?thesis by (simp add: Screen_Subscribes screen_subscribes_def Let_def)
next
  case (Commit_Ratio p r)
  have "shown_in t = shown_in (lt_tree st)" if "set_ratio (lt_tree st) p r = Some t" for t
    by (simp add: shown_in_def set_ratio_panes [OF that])
  then show ?thesis using assms Commit_Ratio by (auto simp: heard_ok_def none_named_def split: option.split)
next
  case (Split_Focused d)
  then show ?thesis using heard_change [OF assms shown_in_split] by simp
next
  case Close_Focused
  have "heard_ok (structural_change_by (close_pane (lt_tree st) (lt_focus st)) st)"
    by (rule heard_change [OF assms]) (drule shown_in_close, blast)
  then show ?thesis using Close_Focused by simp
next
  case (Screen_Leaves l)
  then show ?thesis using assms by (auto simp: screen_leaves_def Let_def heard_ok_def save_now_def)
qed (use assms heard_show in \<open>auto simp: show_or_wait_def heard_ok_def split: option.split\<close>)

interpretation hearing_machine: event_machine layout_step heard_ok
  by unfold_locales (rule heard_step)

lemma heard_run: "heard_ok (layout_run hub es)"
proof -
  have "heard_ok (create_layout_store hub)" by (simp add: heard_ok_def create_layout_store_def)
  then show ?thesis unfolding layout_run_def by (rule hearing_machine.run_inv)
qed

section \<open>Ratios\<close>

definition nothing_nan :: "layout_event \<Rightarrow> bool" where
  "nothing_nan e \<longleftrightarrow> (case e of Commit_Ratio p r \<Rightarrow> r \<noteq> Not_A_Number | _ \<Rightarrow> True)"

lemma ratios_show: "ratios_ok (lt_tree st) \<Longrightarrow> ratios_ok (lt_tree (show_content c st))"
  by (auto simp: show_content_def Let_def intro!: ratios_replace elim!: set_pane_contentE split: option.split)

lemma focus_empty_tree [simp]: "lt_tree (focus_first_empty_pane st) = lt_tree st"
  by (auto simp: focus_first_empty_pane_def split: option.split)

lemma ratios_show_waiting: "ratios_ok (lt_tree st) \<Longrightarrow> ratios_ok (lt_tree (show_waiting cs st))"
  by (induction cs st rule: show_waiting.induct) (simp_all add: ratios_show)

lemma ratios_hub_change: "ratios_ok (lt_tree st) \<Longrightarrow> ratios_ok (lt_tree (on_hub_change st))"
proof -
  assume "ratios_ok (lt_tree st)"
  then have "ratios_ok (lt_tree (adopt_answer st))"
    using ratios_layout by (auto simp: adopt_answer_def Let_def intro!: ratios_show_waiting split: option.split)
  then show ?thesis by (simp add: on_hub_change_def rebind_pending_panes_def Let_def)
qed

lemma ratios_step: "ratios_ok (lt_tree st) \<Longrightarrow> nothing_nan e \<Longrightarrow> ratios_ok (lt_tree (layout_step st e))"
  by (cases e)
    (auto simp: Let_def screen_subscribes_def screen_leaves_def show_or_wait_def structural_change_by_def nothing_nan_def
      intro: ratios_hub_change ratios_show ratios_split ratios_close set_ratio_ok split: option.split)

lemma ratios_run: "\<forall>e \<in> set es. nothing_nan e \<Longrightarrow> ratios_ok (lt_tree (layout_run hub es))"
proof (induction es rule: rev_induct)
  case Nil
  show ?case by (simp add: layout_run_def create_layout_store_def default_tree_def)
next
  case (snoc e es)
  then show ?case by (simp add: layout_run_def run_append ratios_step)
qed

section \<open>Properties\<close>

text \<open>
  Claim C38: a tab's layout is always one it can draw.  After any events, the focus is on a pane; the closed
  containers and the open projects are lists without repetition of at most five hundred; while somebody
  is watching, no pane waits on a start the hub has named a session for; before an answer or an edit,
  nothing is arranged and nothing saved; and every divider leaves each side a twentieth, unless a
  ratio that is not a number was committed.
\<close>

theorem layout_store_invariant:
  "pane_at (lt_tree (layout_run hub es)) (lt_focus (layout_run hub es)) \<noteq> None
     \<and> distinct (lt_collapsed (layout_run hub es)) \<and> length (lt_collapsed (layout_run hub es)) \<le> 500
     \<and> distinct (lt_expanded (layout_run hub es)) \<and> length (lt_expanded (layout_run hub es)) \<le> 500
     \<and> (lt_listeners (layout_run hub es) \<noteq> [] \<longrightarrow>
          (\<forall>p s. pane_at (lt_tree (layout_run hub es)) p = Some (Pending_Pane s) \<longrightarrow>
             session_of_start (lt_hub (layout_run hub es)) s = None))
     \<and> (\<not> lt_loaded (layout_run hub es) \<longrightarrow>
          lt_tree (layout_run hub es) = default_tree \<and> lt_collapsed (layout_run hub es) = []
          \<and> lt_expanded (layout_run hub es) = [] \<and> lt_saves (layout_run hub es) = [])
     \<and> ((\<forall>p. Commit_Ratio p Not_A_Number \<notin> set es) \<longrightarrow> ratios_ok (lt_tree (layout_run hub es)))"
proof -
  let ?st = "layout_run hub es"
  have "Pending_Pane s \<in> shown_in (lt_tree ?st)" if "pane_at (lt_tree ?st) p = Some (Pending_Pane s)" for p s
    unfolding shown_in_def by (rule image_eqI [of _ _ "(p, Pending_Pane s)"]) (simp_all add: in_panes that)
  then have named: "lt_listeners ?st \<noteq> [] \<longrightarrow> (\<forall>p s. pane_at (lt_tree ?st) p = Some (Pending_Pane s) \<longrightarrow>
      session_of_start (lt_hub ?st) s = None)"
    using heard_run [of hub es] unfolding heard_ok_def none_named_def by blast
  have "\<forall>e \<in> set es. nothing_nan e" if "\<forall>p. Commit_Ratio p Not_A_Number \<notin> set es"
    using that by (auto simp: nothing_nan_def split: layout_event.split)
  then have "(\<forall>p. Commit_Ratio p Not_A_Number \<notin> set es) \<longrightarrow> ratios_ok (lt_tree ?st)"
    using ratios_run by blast
  then show ?thesis
    using named layout_run_ok [of hub es]
    unfolding tab_ok_def lists_ok_def max_remembered_collapses_def catalogue_max_open_projects_def
    by (auto simp: arranged_def create_layout_store_def)
qed

lemma save_now_clean [simp]: "\<not> lt_dirty (save_now st)"
  by (simp add: save_now_def)


text \<open>A document shown in half the screen, saved when the timer fires.\<close>

definition quiet_hub :: hub_view where
  "quiet_hub = \<lparr>hv_layout = Some No_Text, hv_terminals = [], hv_starts = []\<rparr>"

definition small_session :: "layout_event list" where
  "small_session = [Screen_Subscribes 0, Split_Focused Row, Show_Doc (js ''n'')]"

theorem layout_store_invariant_witness:
  "ratios_ok (lt_tree (layout_run quiet_hub small_session)) \<and> lt_focus (layout_run quiet_hub small_session) = [Second]
     \<and> pane_at (lt_tree (layout_run quiet_hub small_session)) [Second] \<noteq> None"
proof -
  have "lt_focus (layout_run quiet_hub small_session) = [Second]" by code_simp
  moreover have "\<forall>p. Commit_Ratio p Not_A_Number \<notin> set small_session" by (simp add: small_session_def)
  ultimately show ?thesis using layout_store_invariant [of quiet_hub small_session] by auto
qed


text \<open>
  A request made before the answer waits to be applied to it.  An edit that comes first outranks the
  answer, and the request is then never shown.
\<close>

definition outranked_request :: "layout_event list" where
  "outranked_request = [Screen_Subscribes 0, Show_Doc (js ''n''), Split_Focused Row, Hub_Publishes quiet_hub]"

lemma request_outranked:
  "map snd (panes (lt_tree (layout_run (quiet_hub\<lparr>hv_layout := None\<rparr>) outranked_request))) = [Empty_Pane, Empty_Pane]
     \<and> lt_requested (layout_run (quiet_hub\<lparr>hv_layout := None\<rparr>) outranked_request) = [Doc_Pane (js ''n'')]
     \<and> lt_loaded (layout_run (quiet_hub\<lparr>hv_layout := None\<rparr>) outranked_request)"
  by code_simp

end
