(* ===== verification/Terminal_Routing.thy ===== *)
theory Terminal_Routing
  imports Terminal_Streams
begin

text \<open>
  \<open>apps/hub/src/terminal/target-routing.ts\<close>: which machine holds the terminal a client asks about.  The
  snapshot is what the function reads of \<open>HubStateSnapshot\<close>; a refusal is the problem, with the labels its
  sentence names.  The asking client's starts are its page's, by its own frame ids.
\<close>

datatype connection_phase = Connecting | Connected | Stale | Stopped

record server_report =
  sr_registration :: jstr
  sr_label :: jstr
  sr_phase :: connection_phase

record reported_session =
  rs_session :: jstr
  rs_holder :: "jstr option"
  rs_reported_by :: "jstr list"

record mounted_store =
  ms_store :: jstr
  ms_servers :: "server_report list"
  ms_sessions :: "reported_session list"

record fleet_snapshot =
  fl_servers :: "server_report list"
  fl_stores :: "mounted_store list"

datatype client_target = Start_Handle nat | Named_Session jstr jstr

record client_start =
  cs_registration :: jstr
  cs_start :: jstr
  cs_store :: jstr
  cs_session :: "jstr option"

datatype relay_problem =
    Not_Started_Here
  | No_Longer_Paired
  | Cannot_Reach "jstr list"
  | Store_Not_Mounted
  | Session_Not_Reported
  | Already_Watching
  | Not_Watching_That
  | Server_Said jstr
  | Server_Did_Not_Answer

definition counts_toward_attention :: "server_report \<Rightarrow> bool" where
  "counts_toward_attention r \<longleftrightarrow> sr_phase r = Connected"

definition why_unreachable :: "server_report option \<Rightarrow> relay_problem option" where
  "why_unreachable server =
     (case server of
        None \<Rightarrow> Some No_Longer_Paired
      | Some r \<Rightarrow> if \<not> counts_toward_attention r then Some (Cannot_Reach [sr_label r]) else None)"

definition holders_of :: "mounted_store \<Rightarrow> jstr \<Rightarrow> server_report list" where
  "holders_of store session =
     (case find (\<lambda>row. rs_session row = session) (ms_sessions store) of
        None \<Rightarrow> []
      | Some row \<Rightarrow>
          List.map_filter (\<lambda>registration. find (\<lambda>r. sr_registration r = registration) (ms_servers store))
            (case rs_holder row of
               None \<Rightarrow> rs_reported_by row
             | Some holder \<Rightarrow> holder # filter (\<lambda>r. r \<noteq> holder) (rs_reported_by row)))"

definition route_terminal ::
  "fleet_snapshot \<Rightarrow> (nat \<times> client_start) list \<Rightarrow> client_target \<Rightarrow> relay_problem + (jstr \<times> target)" where
  "route_terminal fleet starts asked =
     (case asked of
        Start_Handle handle \<Rightarrow>
          (case map_of starts handle of
             None \<Rightarrow> Inl Not_Started_Here
           | Some start \<Rightarrow>
               (case why_unreachable (find (\<lambda>r. sr_registration r = cs_registration start) (fl_servers fleet)) of
                  Some problem \<Rightarrow> Inl problem
                | None \<Rightarrow> Inr (cs_registration start, By_Start (cs_start start))))
      | Named_Session store session \<Rightarrow>
          (case find (\<lambda>view. ms_store view = store) (fl_stores fleet) of
             None \<Rightarrow> Inl Store_Not_Mounted
           | Some view \<Rightarrow>
               (let candidates = holders_of view session
                in if candidates = [] then Inl Session_Not_Reported
                   else
                     (case filter counts_toward_attention candidates of
                        [] \<Rightarrow> Inl (Cannot_Reach (map sr_label candidates))
                      | first # rest \<Rightarrow> Inr (sr_registration first, By_Session store session)))))"

text \<open>The key an upstream is filed under, and the server's name for what a client named.\<close>

type_synonym upstream_key = "jstr \<times> target"

text \<open>A route is to a machine the hub holds a connection to; a session's holder comes first.\<close>

lemma found_in: "r \<in> set (List.map_filter (\<lambda>k. find (P k) xs) ks) \<Longrightarrow> r \<in> set xs"
  by (induction ks) (auto simp: map_filter_simps dest: find_Some_in split: option.splits)

lemma holders_registered:
  "r \<in> set (holders_of store session) \<Longrightarrow> r \<in> set (ms_servers store)"
  using found_in by (auto simp: holders_of_def simp del: List.map_filter_simps split: option.splits)

lemma route_connected:
  assumes "route_terminal fleet starts asked = Inr (registration, aimed)"
  shows "\<exists>r. counts_toward_attention r \<and> sr_registration r = registration
     \<and> (r \<in> set (fl_servers fleet) \<or> (\<exists>view \<in> set (fl_stores fleet). r \<in> set (ms_servers view)))"
proof (cases asked)
  case (Start_Handle handle)
  then obtain start r where "map_of starts handle = Some start"
      "find (\<lambda>r. sr_registration r = cs_registration start) (fl_servers fleet) = Some r"
      "counts_toward_attention r" "registration = cs_registration start"
    using assms by (auto simp: route_terminal_def why_unreachable_def split: option.splits if_splits)
  then show ?thesis using find_Some_in by fastforce
next
  case (Named_Session store session)
  then obtain view where view: "find (\<lambda>view. ms_store view = store) (fl_stores fleet) = Some view"
    using assms by (auto simp: route_terminal_def split: option.splits)
  then obtain first rest where f: "filter counts_toward_attention (holders_of view session) = first # rest"
      "registration = sr_registration first"
    using assms Named_Session by (auto simp: route_terminal_def Let_def split: if_splits list.splits)
  then have "first \<in> set (filter counts_toward_attention (holders_of view session))" by simp
  then have "first \<in> set (holders_of view session)" "counts_toward_attention first" by auto
  then show ?thesis using holders_registered find_Some_in [OF view] f(2) by blast
qed

end
