(* ===== verification/Hub_Relay.thy ===== *)
theory Hub_Relay
  imports Terminal_Routing
begin

text \<open>
  \<open>apps/hub/src/terminal/terminal.ts\<close>: the relay between servers and the clients watching their terminals.

  A client is a number that stands for its socket.  Watches and upstreams are objects that outlive the
  maps they are filed in, since an answer in flight still holds its watch: \<open>rl_watch\<close> and \<open>rl_upstream\<close>
  are the lists of all there ever were, and everything else names them by number.  An answer to a frame
  put to a server is an event of its own, whenever it comes; \<open>rl_flight\<close> is what is waiting for one.
  An unsubscribe waits for nothing, as its answer is only logged.  \<open>behind\<close> names the clients whose socket
  holds more than it may.  \<open>rl_put\<close> and \<open>rl_sent\<close> are what servers and clients were sent.
\<close>

section \<open>State\<close>

datatype end_reason = Server_Dropped | Server_Draining | Session_Over

datatype client_frame =
    To_Refusal nat relay_problem
  | To_Subscribed nat jstr "jstr option" "nat option" nat nat
  | To_Unsubscribed nat
  | To_Output jstr "jstr option" "nat option" jstr nat
  | To_Ended client_target end_reason
  | To_Named nat jstr jstr

datatype stream_instruction =
    Put_Subscribe target
  | Put_Unsubscribe target
  | Put_Input target jstr
  | Put_Resize target nat nat

record output_frame =
  of_store :: jstr
  of_session :: "jstr option"
  of_start :: "jstr option"
  of_chunk :: jstr
  of_dropped :: nat

datatype server_answer = Was_Subscribed jstr "jstr option" nat nat | Was_Unsubscribed

text \<open>
  \<open>StreamOutcome\<close>: an answer, success with none (a deadline), a refusal with the server's words, and the
  refusal of code \<open>internal\<close>, which is the hub's own side failing.
\<close>

datatype stream_result =
    Answered server_answer
  | Nothing_Said
  | Refused_By_Server jstr
  | Failed_Here jstr

record relay_watch =
  rw_client :: nat
  rw_target :: client_target
  rw_reply :: nat
  rw_upstream :: nat
  rw_start :: "nat option"
  rw_dropped :: nat
  rw_attached :: bool
  rw_released :: bool

record upstream =
  us_registration :: jstr
  us_target :: target
  us_watches :: "nat list"
  us_replays :: "(nat option \<times> nat) list"
  us_bound :: "upstream_key option"

record page =
  pg_socket :: "nat option"
  pg_starts :: "(nat \<times> client_start) list"

datatype flight = Attaching nat bool | Putting nat nat

record relay =
  rl_watch :: "relay_watch list"
  rl_upstream :: "upstream list"
  rl_upstreams :: "(upstream_key \<times> nat) list"
  rl_rebound :: "(upstream_key \<times> nat list) list"
  rl_watches :: "(nat \<times> (client_target \<times> nat) list) list"
  rl_instances :: "(jstr \<times> page) list"
  rl_instance_of :: "(nat \<times> jstr) list"
  rl_closed :: "jstr list"
  rl_named :: "(jstr \<times> jstr \<times> jstr) list"
  rl_away :: "jstr list"
  rl_flight :: "(nat \<times> flight) list"
  rl_next :: nat
  rl_put :: "(jstr \<times> stream_instruction) list"
  rl_sent :: "(nat \<times> client_frame) list"

definition create_relay :: relay where
  "create_relay =
     \<lparr>rl_watch = [], rl_upstream = [], rl_upstreams = [], rl_rebound = [], rl_watches = [], rl_instances = [],
      rl_instance_of = [], rl_closed = [], rl_named = [], rl_away = [], rl_flight = [], rl_next = 0,
      rl_put = [], rl_sent = []\<rparr>"

definition max_starts_per_instance :: nat where "max_starts_per_instance = 64"

definition max_closed_instances :: nat where "max_closed_instances = 64"

definition send_client :: "nat \<Rightarrow> client_frame \<Rightarrow> relay \<Rightarrow> relay" where
  "send_client c frame h = h\<lparr>rl_sent := rl_sent h @ [(c, frame)]\<rparr>"

definition refuse_client :: "nat \<Rightarrow> nat \<Rightarrow> relay_problem \<Rightarrow> relay \<Rightarrow> relay" where
  "refuse_client c reply problem h = send_client c (To_Refusal reply problem) h"

definition put_server :: "jstr \<Rightarrow> stream_instruction \<Rightarrow> relay \<Rightarrow> relay" where
  "put_server registration frame h = h\<lparr>rl_put := rl_put h @ [(registration, frame)]\<rparr>"

text \<open>A frame whose answer is waited for.\<close>

definition ask_server :: "jstr \<Rightarrow> stream_instruction \<Rightarrow> flight \<Rightarrow> relay \<Rightarrow> relay" where
  "ask_server registration frame waiting h =
     (let h1 = put_server registration frame h
      in h1\<lparr>rl_flight := rl_flight h1 @ [(rl_next h1, waiting)], rl_next := rl_next h1 + 1\<rparr>)"

definition update_watch :: "nat \<Rightarrow> (relay_watch \<Rightarrow> relay_watch) \<Rightarrow> relay \<Rightarrow> relay" where
  "update_watch i f h = h\<lparr>rl_watch := (rl_watch h)[i := f (rl_watch h ! i)]\<rparr>"

definition update_upstream :: "nat \<Rightarrow> (upstream \<Rightarrow> upstream) \<Rightarrow> relay \<Rightarrow> relay" where
  "update_upstream u f h = h\<lparr>rl_upstream := (rl_upstream h)[u := f (rl_upstream h ! u)]\<rparr>"

definition key_of :: "upstream \<Rightarrow> upstream_key" where
  "key_of u = (us_registration u, us_target u)"

text \<open>\<open>watchesOf\<close> files an empty map for a client it has none for.\<close>

definition watches_of :: "nat \<Rightarrow> relay \<Rightarrow> (client_target \<times> nat) list" where
  "watches_of c h = (case map_of (rl_watches h) c of None \<Rightarrow> [] | Some held \<Rightarrow> held)"

definition set_watches :: "nat \<Rightarrow> (client_target \<times> nat) list \<Rightarrow> relay \<Rightarrow> relay" where
  "set_watches c held h = h\<lparr>rl_watches := AList.update c held (rl_watches h)\<rparr>"

definition page_of :: "nat \<Rightarrow> relay \<Rightarrow> page option" where
  "page_of c h = (case map_of (rl_instance_of h) c of None \<Rightarrow> None | Some instance \<Rightarrow> map_of (rl_instances h) instance)"

definition own_starts :: "nat \<Rightarrow> relay \<Rightarrow> (nat \<times> client_start) list" where
  "own_starts c h = (case page_of c h of None \<Rightarrow> [] | Some p \<Rightarrow> pg_starts p)"

section \<open>Giving a watch back\<close>

definition unbind :: "nat \<Rightarrow> upstream \<Rightarrow> relay \<Rightarrow> relay" where
  "unbind u up h =
     (case us_bound up of
        None \<Rightarrow> h
      | Some key \<Rightarrow>
          (case map_of (rl_rebound h) key of
             None \<Rightarrow> h
           | Some bound \<Rightarrow>
               (let left = removeAll u bound
                in h\<lparr>rl_rebound := (if left = [] then AList.delete key (rl_rebound h)
                                     else AList.update key left (rl_rebound h))\<rparr>)))"

definition release_watch :: "nat \<Rightarrow> bool \<Rightarrow> relay \<Rightarrow> relay" where
  "release_watch i detach h =
     (let w = rl_watch h ! i
      in if rw_released w then h
         else
           (let h1 = update_watch i (\<lambda>w. w\<lparr>rw_released := True\<rparr>) h;
                h2 = set_watches (rw_client w) (AList.delete (rw_target w) (watches_of (rw_client w) h1)) h1;
                u = rw_upstream w;
                h3 = update_upstream u (\<lambda>up. up\<lparr>us_watches := removeAll i (us_watches up)\<rparr>) h2;
                up = rl_upstream h3 ! u
            in if us_watches up \<noteq> [] then h3
               else
                 (let h4 = h3\<lparr>rl_upstreams := AList.delete (key_of up) (rl_upstreams h3)\<rparr>;
                      h5 = unbind u up h4
                  in if detach then put_server (us_registration up) (Put_Unsubscribe (us_target up)) h5 else h5)))"

section \<open>Fanning output out\<close>

definition relay_to :: "nat \<Rightarrow> output_frame \<Rightarrow> bool \<Rightarrow> nat list \<Rightarrow> relay \<Rightarrow> relay" where
  "relay_to i out history behind h =
     (let w = rl_watch h ! i
      in if \<not> history \<and> rw_client w \<in> set behind then update_watch i (\<lambda>w. w\<lparr>rw_dropped := rw_dropped w + 1\<rparr>) h
         else send_client (rw_client w)
                (To_Output (of_store out) (of_session out) (rw_start w) (of_chunk out) (of_dropped out + rw_dropped w)) h)"

definition fan_out :: "output_frame \<Rightarrow> nat list \<Rightarrow> nat \<Rightarrow> relay \<Rightarrow> relay" where
  "fan_out out behind u h =
     (case us_replays (rl_upstream h ! u) of
        (claim, remaining) # rest \<Rightarrow>
          (let h1 = update_upstream u (\<lambda>up. up\<lparr>us_replays :=
                      (if remaining \<le> 1 then rest else (claim, remaining - 1) # rest)\<rparr>) h
           in (case claim of
                 None \<Rightarrow> h1
               | Some i \<Rightarrow> if rw_released (rl_watch h1 ! i) then h1 else relay_to i out True behind h1))
      | [] \<Rightarrow>
          foldl (\<lambda>h i. if rw_attached (rl_watch h ! i) then relay_to i out False behind h else h) h
            (us_watches (rl_upstream h ! u)))"

definition matched_upstreams :: "jstr \<Rightarrow> output_frame \<Rightarrow> relay \<Rightarrow> nat list" where
  "matched_upstreams registration out h =
     (let by_start = (case of_start out of None \<Rightarrow> [] | Some start \<Rightarrow>
            (case map_of (rl_upstreams h) (registration, By_Start start) of None \<Rightarrow> [] | Some u \<Rightarrow> [u]));
          by_session = (case of_session out of None \<Rightarrow> [] | Some session \<Rightarrow>
            (let key = (registration, By_Session (of_store out) session)
             in (case map_of (rl_upstreams h) key of None \<Rightarrow> [] | Some u \<Rightarrow> [u])
                @ (case map_of (rl_rebound h) key of None \<Rightarrow> [] | Some bound \<Rightarrow> bound)))
      in foldl (\<lambda>found u. set_add u found) [] (by_start @ by_session))"

definition deliver_output :: "jstr \<Rightarrow> output_frame \<Rightarrow> nat list \<Rightarrow> relay \<Rightarrow> relay" where
  "deliver_output registration out behind h =
     foldl (\<lambda>h u. fan_out out behind u h) h (matched_upstreams registration out h)"

section \<open>The answer to a subscribe\<close>

definition end_watch :: "nat \<Rightarrow> end_reason \<Rightarrow> relay \<Rightarrow> relay" where
  "end_watch i reason h =
     (let h1 = update_watch i (\<lambda>w. w\<lparr>rw_attached := False\<rparr>) h
      in send_client (rw_client (rl_watch h1 ! i)) (To_Ended (rw_target (rl_watch h1 ! i)) reason) h1)"

definition attach_failed :: "nat \<Rightarrow> bool \<Rightarrow> relay_problem \<Rightarrow> bool \<Rightarrow> relay \<Rightarrow> relay" where
  "attach_failed i again problem gone h =
     (if \<not> again then refuse_client (rw_client (rl_watch h ! i)) (rw_reply (rl_watch h ! i)) problem (release_watch i False h)
      else if gone then end_watch i Session_Over (release_watch i False h)
      else end_watch i Server_Dropped h)"

definition claim_history :: "nat \<Rightarrow> nat option \<Rightarrow> nat \<Rightarrow> relay \<Rightarrow> relay" where
  "claim_history u claim promised h =
     (if 0 < promised then update_upstream u (\<lambda>up. up\<lparr>us_replays := us_replays up @ [(claim, promised)]\<rparr>) h else h)"

definition attach_to :: "nat \<Rightarrow> bool \<Rightarrow> stream_result \<Rightarrow> relay \<Rightarrow> relay" where
  "attach_to i again result h =
     (case result of
        Refused_By_Server problem \<Rightarrow> attach_failed i again (Server_Said problem) True h
      | Failed_Here problem \<Rightarrow> attach_failed i again (Server_Said problem) False h
      | Nothing_Said \<Rightarrow> attach_failed i again Server_Did_Not_Answer False h
      | Answered Was_Unsubscribed \<Rightarrow> attach_failed i again Server_Did_Not_Answer False h
      | Answered (Was_Subscribed store session promised dropped) \<Rightarrow>
          (let w = rl_watch h ! i
           in if rw_released w then claim_history (rw_upstream w) None promised h
              else
                send_client (rw_client w) (To_Subscribed (rw_reply w) store session (rw_start w) promised dropped)
                  (claim_history (rw_upstream w) (Some i) promised (update_watch i (\<lambda>w. w\<lparr>rw_attached := True\<rparr>) h))))"

section \<open>What clients ask\<close>

definition handle_for :: "(nat \<times> client_start) list \<Rightarrow> (jstr \<times> jstr \<times> jstr) list \<Rightarrow> client_target \<Rightarrow> nat option" where
  "handle_for made named asked =
     (case asked of
        Start_Handle handle \<Rightarrow> Some handle
      | Named_Session store session \<Rightarrow>
          map_option fst (find (\<lambda>(handle, start). map_of named (cs_start start) = Some (store, session)) made))"

definition subscribe_client :: "nat \<Rightarrow> nat \<Rightarrow> client_target \<Rightarrow> fleet_snapshot \<Rightarrow> relay \<Rightarrow> relay" where
  "subscribe_client c reply asked fleet h =
     (let held = watches_of c h;
          h0 = set_watches c held h
      in if map_of held asked \<noteq> None then refuse_client c reply Already_Watching h0
         else
           (case route_terminal fleet (own_starts c h0) asked of
              Inl problem \<Rightarrow> refuse_client c reply problem h0
            | Inr (registration, aimed) \<Rightarrow>
                (let (u, h1) =
                       (case map_of (rl_upstreams h0) (registration, aimed) of
                          Some u \<Rightarrow> (u, h0)
                        | None \<Rightarrow>
                            (length (rl_upstream h0),
                             h0\<lparr>rl_upstream := rl_upstream h0 @
                                  [\<lparr>us_registration = registration, us_target = aimed, us_watches = [], us_replays = [], us_bound = None\<rparr>],
                                rl_upstreams := AList.update (registration, aimed) (length (rl_upstream h0)) (rl_upstreams h0)\<rparr>));
                     i = length (rl_watch h1);
                     w = \<lparr>rw_client = c, rw_target = asked, rw_reply = reply, rw_upstream = u,
                          rw_start = handle_for (own_starts c h1) (rl_named h1) asked,
                          rw_dropped = 0, rw_attached = False, rw_released = False\<rparr>;
                     h2 = update_upstream u (\<lambda>up. up\<lparr>us_watches := us_watches up @ [i]\<rparr>) (h1\<lparr>rl_watch := rl_watch h1 @ [w]\<rparr>);
                     h3 = set_watches c (AList.update asked i (watches_of c h2)) h2
                 in ask_server registration (Put_Subscribe aimed) (Attaching i False) h3)))"

definition unsubscribe_client :: "nat \<Rightarrow> nat \<Rightarrow> client_target \<Rightarrow> relay \<Rightarrow> relay" where
  "unsubscribe_client c reply asked h =
     (let held = watches_of c h;
          h0 = set_watches c held h
      in (case map_of held asked of
            None \<Rightarrow> refuse_client c reply Not_Watching_That h0
          | Some i \<Rightarrow> send_client c (To_Unsubscribed reply) (release_watch i True h0)))"

definition put_client :: "nat \<Rightarrow> nat \<Rightarrow> client_target \<Rightarrow> (target \<Rightarrow> stream_instruction) \<Rightarrow> fleet_snapshot \<Rightarrow> relay \<Rightarrow> relay" where
  "put_client c reply asked frame fleet h =
     (case route_terminal fleet (own_starts c h) asked of
        Inl problem \<Rightarrow> refuse_client c reply problem h
      | Inr (registration, aimed) \<Rightarrow> ask_server registration (frame aimed) (Putting c reply) h)"

definition answer_put :: "nat \<Rightarrow> nat \<Rightarrow> stream_result \<Rightarrow> relay \<Rightarrow> relay" where
  "answer_put c reply result h =
     (case result of
        Refused_By_Server problem \<Rightarrow> refuse_client c reply (Server_Said problem) h
      | Failed_Here problem \<Rightarrow> refuse_client c reply (Server_Said problem) h
      | _ \<Rightarrow> h)"

text \<open>What waits for an answer is taken off before it runs, so no frame is answered twice.\<close>

definition answer_flight :: "nat \<Rightarrow> stream_result \<Rightarrow> relay \<Rightarrow> relay" where
  "answer_flight k result h =
     (case map_of (rl_flight h) k of
        None \<Rightarrow> h
      | Some waiting \<Rightarrow>
          (let h1 = h\<lparr>rl_flight := AList.delete k (rl_flight h)\<rparr>
           in (case waiting of
                 Attaching i again \<Rightarrow> attach_to i again result h1
               | Putting c reply \<Rightarrow> answer_put c reply result h1)))"

section \<open>Pages and their starts\<close>

definition send_named :: "nat \<Rightarrow> nat \<Rightarrow> jstr \<times> jstr \<Rightarrow> relay \<Rightarrow> relay" where
  "send_named c handle became h = send_client c (To_Named handle (fst became) (snd became)) h"

text \<open>A spawn the reports have named; a resume is named by its own reply.\<close>

definition became_of :: "relay \<Rightarrow> client_start \<Rightarrow> (jstr \<times> jstr) option" where
  "became_of h start = (if cs_session start = None then map_of (rl_named h) (cs_start start) else None)"

definition drop_named :: "client_start list \<Rightarrow> relay \<Rightarrow> relay" where
  "drop_named made h = h\<lparr>rl_named := filter (\<lambda>(start, became). start \<notin> cs_start ` set made) (rl_named h)\<rparr>"

definition set_page :: "jstr \<Rightarrow> page \<Rightarrow> relay \<Rightarrow> relay" where
  "set_page instance p h = h\<lparr>rl_instances := AList.update instance p (rl_instances h)\<rparr>"

definition says_hello :: "nat \<Rightarrow> jstr \<Rightarrow> relay \<Rightarrow> relay" where
  "says_hello c instance h =
     (let h1 = h\<lparr>rl_instance_of := AList.update c instance (rl_instance_of h), rl_closed := removeAll instance (rl_closed h)\<rparr>;
          p = (case map_of (rl_instances h1) instance of
                 None \<Rightarrow> \<lparr>pg_socket = Some c, pg_starts = []\<rparr>
               | Some p \<Rightarrow> p\<lparr>pg_socket := Some c\<rparr>);
          h2 = set_page instance p h1
      in foldl (\<lambda>h (handle, start). case became_of h start of None \<Rightarrow> h | Some became \<Rightarrow> send_named c handle became h)
           h2 (pg_starts p))"

definition note_client_start :: "nat \<Rightarrow> nat \<Rightarrow> client_start \<Rightarrow> relay \<Rightarrow> relay" where
  "note_client_start c handle start h =
     (case map_of (rl_instance_of h) c of
        None \<Rightarrow> h
      | Some instance \<Rightarrow>
          (case map_of (rl_instances h) instance of
             None \<Rightarrow> h
           | Some p \<Rightarrow>
               (let starts = AList.update handle start (pg_starts p);
                    over = length starts - max_starts_per_instance;
                    h1 = drop_named (map snd (take over starts)) (set_page instance (p\<lparr>pg_starts := drop over starts\<rparr>) h)
                in (case became_of h1 start of
                      None \<Rightarrow> h1
                    | Some became \<Rightarrow> (case pg_socket p of None \<Rightarrow> h1 | Some socket \<Rightarrow> send_named socket handle became h1)))))"

definition spawner_of :: "jstr \<Rightarrow> relay \<Rightarrow> (page \<times> nat) option" where
  "spawner_of start h =
     (case find (\<lambda>(p, handle, made). cs_start made = start)
             (concat (map (\<lambda>(instance, p). map (\<lambda>(handle, made). (p, handle, made)) (pg_starts p)) (rl_instances h))) of
        None \<Rightarrow> None
      | Some (p, handle, made) \<Rightarrow> if cs_session made = None then Some (p, handle) else None)"

definition name_start :: "jstr \<Rightarrow> jstr \<Rightarrow> jstr \<Rightarrow> relay \<Rightarrow> relay" where
  "name_start store start session h =
     (if map_of (rl_named h) start = Some (store, session) then h
      else
        (let h1 = h\<lparr>rl_named := AList.update start (store, session) (rl_named h)\<rparr>
         in (case spawner_of start h1 of
               None \<Rightarrow> h1
             | Some (p, handle) \<Rightarrow>
                 (case pg_socket p of None \<Rightarrow> h1 | Some socket \<Rightarrow> send_named socket handle (store, session) h1))))"

definition rebind_start :: "jstr \<Rightarrow> jstr \<Rightarrow> jstr \<Rightarrow> jstr \<Rightarrow> relay \<Rightarrow> relay" where
  "rebind_start registration store start session h =
     (case map_of (rl_upstreams h) (registration, By_Start start) of
        None \<Rightarrow> h
      | Some u \<Rightarrow>
          if us_bound (rl_upstream h ! u) \<noteq> None then h
          else
            (let key = (registration, By_Session store session);
                 bound = (case map_of (rl_rebound h) key of None \<Rightarrow> [] | Some bound \<Rightarrow> bound)
             in (update_upstream u (\<lambda>up. up\<lparr>us_bound := Some key\<rparr>) h)
                  \<lparr>rl_rebound := AList.update key (set_add u bound) (rl_rebound h)\<rparr>))"

definition note_reported_starts :: "jstr \<Rightarrow> jstr \<Rightarrow> (jstr \<times> jstr option) list \<Rightarrow> relay \<Rightarrow> relay" where
  "note_reported_starts registration store reported h =
     foldl (\<lambda>h (start, session). case session of
              None \<Rightarrow> h
            | Some s \<Rightarrow> rebind_start registration store start s (name_start store start s h)) h reported"

section \<open>Machines that go and come\<close>

definition upstreams_on :: "jstr \<Rightarrow> relay \<Rightarrow> nat list" where
  "upstreams_on registration h = filter (\<lambda>u. us_registration (rl_upstream h ! u) = registration) (map snd (rl_upstreams h))"

definition stop_feeding :: "end_reason \<Rightarrow> relay \<Rightarrow> nat \<Rightarrow> relay" where
  "stop_feeding reason h u =
     (let h1 = update_upstream u (\<lambda>up. up\<lparr>us_replays := []\<rparr>) h
      in foldl (\<lambda>h i. if rw_attached (rl_watch h ! i) then end_watch i reason h else h) h1 (us_watches (rl_upstream h1 ! u)))"

definition resubscribe :: "relay \<Rightarrow> nat \<Rightarrow> relay" where
  "resubscribe h u =
     (let up = rl_upstream h ! u
      in foldl (\<lambda>h i. ask_server (us_registration up) (Put_Subscribe (us_target up)) (Attaching i True) h) h (us_watches up))"

definition note_connection :: "jstr \<Rightarrow> connection_phase \<Rightarrow> bool \<Rightarrow> relay \<Rightarrow> relay" where
  "note_connection registration phase draining h =
     (if phase \<noteq> Connected
      then (if registration \<in> set (rl_away h) then h
            else foldl (stop_feeding (if draining then Server_Draining else Server_Dropped))
                   (h\<lparr>rl_away := rl_away h @ [registration]\<rparr>) (upstreams_on registration h))
      else if registration \<notin> set (rl_away h) then h
      else foldl resubscribe (h\<lparr>rl_away := removeAll registration (rl_away h)\<rparr>) (upstreams_on registration h))"

section \<open>A socket that went away\<close>

text \<open>The oldest closed pages are let go until no more than the bound is left.\<close>

definition evict_pages :: "relay \<Rightarrow> relay" where
  "evict_pages h =
     (let over = length (rl_closed h) - max_closed_instances;
          gone = take over (rl_closed h);
          starts = concat (map (\<lambda>instance. case map_of (rl_instances h) instance of None \<Rightarrow> [] | Some p \<Rightarrow> map snd (pg_starts p)) gone)
      in drop_named starts
           (h\<lparr>rl_closed := drop over (rl_closed h),
              rl_instances := filter (\<lambda>(instance, p). instance \<notin> set gone) (rl_instances h)\<rparr>))"

definition forget_client :: "nat \<Rightarrow> relay \<Rightarrow> relay" where
  "forget_client c h =
     (let held = watches_of c h;
          h1 = foldl (\<lambda>h i. release_watch i True h) (h\<lparr>rl_watches := AList.delete c (rl_watches h)\<rparr>) (map snd held)
      in (case map_of (rl_instance_of h1) c of
            None \<Rightarrow> h1
          | Some instance \<Rightarrow>
              (case map_of (rl_instances h1) instance of
                 None \<Rightarrow> h1
               | Some p \<Rightarrow>
                   if pg_socket p \<noteq> Some c then h1
                   else evict_pages ((set_page instance (p\<lparr>pg_socket := None\<rparr>) h1)
                          \<lparr>rl_closed := set_add instance (rl_closed h1)\<rparr>))))"

section \<open>Every event\<close>

datatype relay_event =
    Watches nat nat client_target fleet_snapshot
  | Unwatches nat nat client_target
  | Types nat nat client_target jstr fleet_snapshot
  | Sizes nat nat client_target nat nat fleet_snapshot
  | Says_Hello nat jstr
  | Notes_Start nat nat client_start
  | Reports_Starts jstr jstr "(jstr \<times> jstr option) list"
  | Delivers jstr output_frame "nat list"
  | Changes_Phase jstr connection_phase bool
  | Forgets nat
  | Answers nat stream_result

definition relay_step :: "relay \<Rightarrow> relay_event \<Rightarrow> relay" where
  "relay_step h e =
     (case e of
        Watches c reply asked fleet \<Rightarrow> subscribe_client c reply asked fleet h
      | Unwatches c reply asked \<Rightarrow> unsubscribe_client c reply asked h
      | Types c reply asked data fleet \<Rightarrow> put_client c reply asked (\<lambda>aimed. Put_Input aimed data) fleet h
      | Sizes c reply asked cols rows fleet \<Rightarrow> put_client c reply asked (\<lambda>aimed. Put_Resize aimed cols rows) fleet h
      | Says_Hello c instance \<Rightarrow> says_hello c instance h
      | Notes_Start c handle start \<Rightarrow> note_client_start c handle start h
      | Reports_Starts registration store reported \<Rightarrow> note_reported_starts registration store reported h
      | Delivers registration out behind \<Rightarrow> deliver_output registration out behind h
      | Changes_Phase registration phase draining \<Rightarrow> note_connection registration phase draining h
      | Forgets c \<Rightarrow> forget_client c h
      | Answers k result \<Rightarrow> answer_flight k result h)"

end
