(* ===== verification/Relay_Watches.thy ===== *)
theory Relay_Watches
  imports Hub_Relay
begin

text \<open>
  The structure of the relay: every watch that was not released is filed under its client and on its
  upstream, an upstream is filed exactly while it has a watch, and a start that became a session is
  found under both names.
\<close>

section \<open>Fields\<close>

abbreviation watch_at :: "relay \<Rightarrow> nat \<Rightarrow> relay_watch" where "watch_at h i \<equiv> rl_watch h ! i"
abbreviation upstream_at :: "relay \<Rightarrow> nat \<Rightarrow> upstream" where "upstream_at h u \<equiv> rl_upstream h ! u"

definition bound_at :: "relay \<Rightarrow> upstream_key \<Rightarrow> nat list" where
  "bound_at h key = (case map_of (rl_rebound h) key of None \<Rightarrow> [] | Some bound \<Rightarrow> bound)"

lemma update_watch_simps [simp]:
  "rl_upstream (update_watch i f h) = rl_upstream h" "rl_upstreams (update_watch i f h) = rl_upstreams h"
  "rl_rebound (update_watch i f h) = rl_rebound h" "rl_watches (update_watch i f h) = rl_watches h"
  "rl_flight (update_watch i f h) = rl_flight h" "rl_put (update_watch i f h) = rl_put h" "rl_sent (update_watch i f h) = rl_sent h"
  "length (rl_watch (update_watch i f h)) = length (rl_watch h)" "rl_next (update_watch i f h) = rl_next h"
  "rl_instances (update_watch i f h) = rl_instances h" "rl_instance_of (update_watch i f h) = rl_instance_of h"
  "rl_closed (update_watch i f h) = rl_closed h" "rl_named (update_watch i f h) = rl_named h" "rl_away (update_watch i f h) = rl_away h"
  by (simp_all add: update_watch_def)

lemma watch_update:
  "watch_at (update_watch i f h) j = (if j = i \<and> i < length (rl_watch h) then f (watch_at h j) else watch_at h j)"
  by (cases "i < length (rl_watch h)") (auto simp: update_watch_def list_update_beyond)

lemma update_upstream_simps [simp]:
  "rl_watch (update_upstream u f h) = rl_watch h" "rl_upstreams (update_upstream u f h) = rl_upstreams h"
  "rl_rebound (update_upstream u f h) = rl_rebound h" "rl_watches (update_upstream u f h) = rl_watches h"
  "rl_flight (update_upstream u f h) = rl_flight h" "rl_put (update_upstream u f h) = rl_put h" "rl_sent (update_upstream u f h) = rl_sent h"
  "length (rl_upstream (update_upstream u f h)) = length (rl_upstream h)" "rl_next (update_upstream u f h) = rl_next h"
  "rl_instances (update_upstream u f h) = rl_instances h" "rl_instance_of (update_upstream u f h) = rl_instance_of h"
  "rl_closed (update_upstream u f h) = rl_closed h" "rl_named (update_upstream u f h) = rl_named h" "rl_away (update_upstream u f h) = rl_away h"
  by (simp_all add: update_upstream_def)

lemma upstream_update:
  "upstream_at (update_upstream u f h) v = (if v = u \<and> u < length (rl_upstream h) then f (upstream_at h v) else upstream_at h v)"
  by (cases "u < length (rl_upstream h)") (auto simp: update_upstream_def list_update_beyond)

lemma send_simps [simp]:
  "rl_watch (send_client c f h) = rl_watch h" "rl_upstream (send_client c f h) = rl_upstream h"
  "rl_upstreams (send_client c f h) = rl_upstreams h" "rl_rebound (send_client c f h) = rl_rebound h"
  "rl_watches (send_client c f h) = rl_watches h" "rl_flight (send_client c f h) = rl_flight h" "rl_put (send_client c f h) = rl_put h"
  "rl_sent (send_client c f h) = rl_sent h @ [(c, f)]" "rl_next (send_client c f h) = rl_next h"
  "rl_instances (send_client c f h) = rl_instances h" "rl_instance_of (send_client c f h) = rl_instance_of h"
  "rl_closed (send_client c f h) = rl_closed h" "rl_named (send_client c f h) = rl_named h" "rl_away (send_client c f h) = rl_away h"
  by (simp_all add: send_client_def)

lemma relay_put_simps [simp]:
  "rl_watch (put_server r f h) = rl_watch h" "rl_upstream (put_server r f h) = rl_upstream h"
  "rl_upstreams (put_server r f h) = rl_upstreams h" "rl_rebound (put_server r f h) = rl_rebound h"
  "rl_watches (put_server r f h) = rl_watches h" "rl_flight (put_server r f h) = rl_flight h"
  "rl_put (put_server r f h) = rl_put h @ [(r, f)]" "rl_sent (put_server r f h) = rl_sent h" "rl_next (put_server r f h) = rl_next h"
  "rl_instances (put_server r f h) = rl_instances h" "rl_instance_of (put_server r f h) = rl_instance_of h"
  "rl_closed (put_server r f h) = rl_closed h" "rl_named (put_server r f h) = rl_named h" "rl_away (put_server r f h) = rl_away h"
  by (simp_all add: put_server_def)

lemma ask_simps [simp]:
  "rl_watch (ask_server r f x h) = rl_watch h" "rl_upstream (ask_server r f x h) = rl_upstream h"
  "rl_upstreams (ask_server r f x h) = rl_upstreams h" "rl_rebound (ask_server r f x h) = rl_rebound h"
  "rl_watches (ask_server r f x h) = rl_watches h" "rl_flight (ask_server r f x h) = rl_flight h @ [(rl_next h, x)]"
  "rl_put (ask_server r f x h) = rl_put h @ [(r, f)]" "rl_sent (ask_server r f x h) = rl_sent h" "rl_next (ask_server r f x h) = rl_next h + 1"
  "rl_instances (ask_server r f x h) = rl_instances h" "rl_instance_of (ask_server r f x h) = rl_instance_of h"
  "rl_closed (ask_server r f x h) = rl_closed h" "rl_named (ask_server r f x h) = rl_named h" "rl_away (ask_server r f x h) = rl_away h"
  by (simp_all add: ask_server_def Let_def)

lemma set_watches_simps [simp]:
  "rl_watch (set_watches c ws h) = rl_watch h" "rl_upstream (set_watches c ws h) = rl_upstream h"
  "rl_upstreams (set_watches c ws h) = rl_upstreams h" "rl_rebound (set_watches c ws h) = rl_rebound h"
  "rl_flight (set_watches c ws h) = rl_flight h" "rl_put (set_watches c ws h) = rl_put h" "rl_sent (set_watches c ws h) = rl_sent h"
  "watches_of d (set_watches c ws h) = (if d = c then ws else watches_of d h)" "rl_next (set_watches c ws h) = rl_next h"
  "rl_instances (set_watches c ws h) = rl_instances h" "rl_instance_of (set_watches c ws h) = rl_instance_of h"
  "rl_closed (set_watches c ws h) = rl_closed h" "rl_named (set_watches c ws h) = rl_named h" "rl_away (set_watches c ws h) = rl_away h"
  by (simp_all add: set_watches_def watches_of_def)

lemma bound_at_simps [simp]:
  "bound_at (put_server r f h) = bound_at h" "bound_at (send_client c g h) = bound_at h" "bound_at (ask_server r f x h) = bound_at h"
  "bound_at (set_watches c ws h) = bound_at h" "bound_at (update_watch i a h) = bound_at h" "bound_at (update_upstream u b h) = bound_at h"
  "bound_at (h\<lparr>rl_upstreams := ups\<rparr>) = bound_at h"
  by (simp_all add: bound_at_def fun_eq_iff)

lemma relay_key_update [simp]:
  "key_of (up\<lparr>us_watches := ws\<rparr>) = key_of up" "key_of (up\<lparr>us_replays := rs\<rparr>) = key_of up" "key_of (up\<lparr>us_bound := b\<rparr>) = key_of up"
  by (simp_all add: key_of_def)

section \<open>The invariant\<close>

definition watches_ok :: "relay \<Rightarrow> bool" where
  "watches_ok h \<longleftrightarrow>
     (\<forall>i < length (rl_watch h). rw_upstream (watch_at h i) < length (rl_upstream h)
        \<and> (i \<in> set (us_watches (upstream_at h (rw_upstream (watch_at h i)))) \<longleftrightarrow> \<not> rw_released (watch_at h i))
        \<and> (map_of (watches_of (rw_client (watch_at h i)) h) (rw_target (watch_at h i)) = Some i \<longleftrightarrow> \<not> rw_released (watch_at h i)))
   \<and> (\<forall>c asked i. map_of (watches_of c h) asked = Some i \<longrightarrow>
        i < length (rl_watch h) \<and> rw_client (watch_at h i) = c \<and> rw_target (watch_at h i) = asked)
   \<and> (\<forall>u < length (rl_upstream h). \<forall>i \<in> set (us_watches (upstream_at h u)). i < length (rl_watch h) \<and> rw_upstream (watch_at h i) = u)
   \<and> (\<forall>c. distinct (map fst (watches_of c h)))"

definition upstreams_ok :: "relay \<Rightarrow> bool" where
  "upstreams_ok h \<longleftrightarrow> distinct (map fst (rl_upstreams h))
   \<and> (\<forall>u < length (rl_upstream h). map_of (rl_upstreams h) (key_of (upstream_at h u)) = Some u \<longleftrightarrow> us_watches (upstream_at h u) \<noteq> [])
   \<and> (\<forall>key u. map_of (rl_upstreams h) key = Some u \<longrightarrow> u < length (rl_upstream h) \<and> key_of (upstream_at h u) = key)
   \<and> (\<forall>key u. u \<in> set (bound_at h key) \<longleftrightarrow>
        u < length (rl_upstream h) \<and> us_bound (upstream_at h u) = Some key \<and> us_watches (upstream_at h u) \<noteq> [])
   \<and> (\<forall>u < length (rl_upstream h). distinct (us_watches (upstream_at h u)))
   \<and> (\<forall>u < length (rl_upstream h). \<forall>key. us_bound (upstream_at h u) = Some key \<longrightarrow> fst key = us_registration (upstream_at h u))"

definition flights_ok :: "relay \<Rightarrow> bool" where
  "flights_ok h \<longleftrightarrow> (\<forall>(k, waiting) \<in> set (rl_flight h). \<forall>i again. waiting = Attaching i again \<longrightarrow> i < length (rl_watch h))
     \<and> (\<forall>u < length (rl_upstream h). \<forall>(claim, n) \<in> set (us_replays (upstream_at h u)). \<forall>i. claim = Some i \<longrightarrow>
          i < length (rl_watch h) \<and> rw_upstream (watch_at h i) = u)"

definition relay_ok :: "relay \<Rightarrow> bool" where
  "relay_ok h \<longleftrightarrow> watches_ok h \<and> upstreams_ok h \<and> flights_ok h"

lemma create_relay_ok: "relay_ok create_relay"
  by (simp add: relay_ok_def watches_ok_def upstreams_ok_def flights_ok_def create_relay_def watches_of_def bound_at_def)

text \<open>What the structure is a property of.\<close>

definition watch_core :: "relay_watch \<Rightarrow> nat \<times> client_target \<times> nat \<times> bool" where
  "watch_core w = (rw_client w, rw_target w, rw_upstream w, rw_released w)"

definition upstream_core :: "upstream \<Rightarrow> jstr \<times> target \<times> nat list \<times> upstream_key option" where
  "upstream_core up = (us_registration up, us_target up, us_watches up, us_bound up)"

definition same_core :: "relay \<Rightarrow> relay \<Rightarrow> bool" where
  "same_core h k \<longleftrightarrow> length (rl_watch k) = length (rl_watch h) \<and> (\<forall>i. watch_core (watch_at k i) = watch_core (watch_at h i))
     \<and> length (rl_upstream k) = length (rl_upstream h) \<and> (\<forall>u. upstream_core (upstream_at k u) = upstream_core (upstream_at h u))
     \<and> rl_upstreams k = rl_upstreams h \<and> rl_rebound k = rl_rebound h \<and> (\<forall>c. watches_of c k = watches_of c h)"

lemma same_core_refl [simp]: "same_core h h"
  by (simp add: same_core_def)

lemma same_core_trans: "same_core h k \<Longrightarrow> same_core k l \<Longrightarrow> same_core h l"
  by (simp add: same_core_def)

lemma same_coreD:
  assumes "same_core h k"
  shows "length (rl_watch k) = length (rl_watch h)" "rw_client (watch_at k i) = rw_client (watch_at h i)"
    "rw_target (watch_at k i) = rw_target (watch_at h i)" "rw_upstream (watch_at k i) = rw_upstream (watch_at h i)"
    "rw_released (watch_at k i) = rw_released (watch_at h i)" "length (rl_upstream k) = length (rl_upstream h)"
    "us_watches (upstream_at k u) = us_watches (upstream_at h u)" "us_bound (upstream_at k u) = us_bound (upstream_at h u)"
    "us_registration (upstream_at k u) = us_registration (upstream_at h u)" "us_target (upstream_at k u) = us_target (upstream_at h u)"
    "key_of (upstream_at k u) = key_of (upstream_at h u)" "rl_upstreams k = rl_upstreams h" "rl_rebound k = rl_rebound h"
    "watches_of c k = watches_of c h" "bound_at k = bound_at h"
  using assms by (auto simp: same_core_def watch_core_def upstream_core_def key_of_def bound_at_def fun_eq_iff)

lemma same_core_ok:
  assumes "same_core h k"
  shows "watches_ok k = watches_ok h" "upstreams_ok k = upstreams_ok h"
  using same_coreD [OF assms] by (simp_all add: watches_ok_def upstreams_ok_def)

lemma same_core_watch: "(\<And>w. watch_core (f w) = watch_core w) \<Longrightarrow> same_core h (update_watch i f h)"
  by (simp add: same_core_def watch_update watches_of_def)

lemma same_core_upstream: "(\<And>up. upstream_core (f up) = upstream_core up) \<Longrightarrow> same_core h (update_upstream u f h)"
  by (simp add: same_core_def upstream_update watches_of_def)

lemma same_core_logs [simp]:
  "same_core h (send_client c f h)" "same_core h (put_server r g h)" "same_core h (ask_server r g x h)"
  "same_core h (refuse_client c n p h)"
  by (simp_all add: same_core_def watches_of_def refuse_client_def)

lemma same_core_set [simp]: "same_core h (set_watches c (watches_of c h) h)"
  by (simp add: same_core_def)

lemma watches_okD:
  assumes "watches_ok h"
  shows "i < length (rl_watch h) \<Longrightarrow> rw_upstream (watch_at h i) < length (rl_upstream h)"
    "i < length (rl_watch h) \<Longrightarrow> i \<in> set (us_watches (upstream_at h (rw_upstream (watch_at h i)))) \<longleftrightarrow> \<not> rw_released (watch_at h i)"
    "i < length (rl_watch h) \<Longrightarrow> map_of (watches_of (rw_client (watch_at h i)) h) (rw_target (watch_at h i)) = Some i \<longleftrightarrow> \<not> rw_released (watch_at h i)"
    "map_of (watches_of c h) asked = Some i \<Longrightarrow> i < length (rl_watch h) \<and> rw_client (watch_at h i) = c \<and> rw_target (watch_at h i) = asked"
    "u < length (rl_upstream h) \<Longrightarrow> i \<in> set (us_watches (upstream_at h u)) \<Longrightarrow> i < length (rl_watch h) \<and> rw_upstream (watch_at h i) = u"
    "distinct (map fst (watches_of c h))"
  using assms unfolding watches_ok_def by blast+

lemma upstreams_okD:
  assumes "upstreams_ok h"
  shows "distinct (map fst (rl_upstreams h))"
    "u < length (rl_upstream h) \<Longrightarrow> map_of (rl_upstreams h) (key_of (upstream_at h u)) = Some u \<longleftrightarrow> us_watches (upstream_at h u) \<noteq> []"
    "map_of (rl_upstreams h) key = Some u \<Longrightarrow> u < length (rl_upstream h)"
    "map_of (rl_upstreams h) key = Some u \<Longrightarrow> key_of (upstream_at h u) = key"
    "u \<in> set (bound_at h key) \<longleftrightarrow>
        u < length (rl_upstream h) \<and> us_bound (upstream_at h u) = Some key \<and> us_watches (upstream_at h u) \<noteq> []"
    "u < length (rl_upstream h) \<Longrightarrow> distinct (us_watches (upstream_at h u))"
    "u < length (rl_upstream h) \<Longrightarrow> us_bound (upstream_at h u) = Some key \<Longrightarrow> fst key = us_registration (upstream_at h u)"
  using assms unfolding upstreams_ok_def by blast+

section \<open>A watch given back\<close>

lemma bound_unbind:
  "bound_at (unbind u up h) key = (if us_bound up = Some key then removeAll u (bound_at h key) else bound_at h key)"
  by (auto simp: unbind_def bound_at_def Let_def split: option.split)

lemma unbind_simps [simp]:
  "rl_watch (unbind u up h) = rl_watch h" "rl_upstream (unbind u up h) = rl_upstream h" "rl_upstreams (unbind u up h) = rl_upstreams h"
  "rl_flight (unbind u up h) = rl_flight h" "rl_put (unbind u up h) = rl_put h" "rl_sent (unbind u up h) = rl_sent h"
  "rl_watches (unbind u up h) = rl_watches h" "rl_next (unbind u up h) = rl_next h"
  "rl_instances (unbind u up h) = rl_instances h" "rl_instance_of (unbind u up h) = rl_instance_of h"
  "rl_closed (unbind u up h) = rl_closed h" "rl_named (unbind u up h) = rl_named h" "rl_away (unbind u up h) = rl_away h"
  by (auto simp: unbind_def Let_def split: option.split)

text \<open>What releasing a watch that was not released leaves.\<close>

lemma release_effect:
  fixes detach :: bool
  assumes "i < length (rl_watch h)" and "\<not> rw_released (watch_at h i)" and "rw_upstream (watch_at h i) < length (rl_upstream h)"
  defines "u \<equiv> rw_upstream (watch_at h i)" and "k \<equiv> release_watch i detach h"
  defines "left \<equiv> removeAll i (us_watches (upstream_at h u))"
  shows "length (rl_watch k) = length (rl_watch h)" "length (rl_upstream k) = length (rl_upstream h)"
    "watch_at k j = (if j = i then (watch_at h i)\<lparr>rw_released := True\<rparr> else watch_at h j)"
    "upstream_at k v = (if v = u then (upstream_at h u)\<lparr>us_watches := left\<rparr> else upstream_at h v)"
    "watches_of c k = (if c = rw_client (watch_at h i) then AList.delete (rw_target (watch_at h i)) (watches_of c h) else watches_of c h)"
    "rl_upstreams k = (if left = [] then AList.delete (key_of (upstream_at h u)) (rl_upstreams h) else rl_upstreams h)"
    "bound_at k key = (if left = [] \<and> us_bound (upstream_at h u) = Some key then removeAll u (bound_at h key) else bound_at h key)"
    "rl_flight k = rl_flight h" "rl_sent k = rl_sent h"
    "rl_put k = rl_put h @ (if left = [] \<and> detach then [(us_registration (upstream_at h u), Put_Unsubscribe (us_target (upstream_at h u)))] else [])"
proof -
  have len: "u < length (rl_upstream h)" using assms(3) by (simp add: u_def)
  define up where "up = (upstream_at h u)\<lparr>us_watches := left\<rparr>"
  define h3 where "h3 = update_upstream u (\<lambda>up. up\<lparr>us_watches := removeAll i (us_watches up)\<rparr>)
      (set_watches (rw_client (watch_at h i)) (AList.delete (rw_target (watch_at h i)) (watches_of (rw_client (watch_at h i)) h))
        (update_watch i (\<lambda>w. w\<lparr>rw_released := True\<rparr>) h))"
  have up3: "upstream_at h3 v = (if v = u then up else upstream_at h v)" for v
    using len by (simp add: h3_def upstream_update up_def left_def)
  have k: "k = (if left \<noteq> [] then h3
      else (let h5 = unbind u up (h3\<lparr>rl_upstreams := AList.delete (key_of up) (rl_upstreams h3)\<rparr>)
            in if detach then put_server (us_registration up) (Put_Unsubscribe (us_target up)) h5 else h5))"
    using assms(2) up3 [of u] by (simp add: k_def release_watch_def Let_def h3_def u_def watches_of_def up_def)
  note simps = k h3_def Let_def up_def key_of_def bound_unbind
  show "length (rl_watch k) = length (rl_watch h)" "length (rl_upstream k) = length (rl_upstream h)"
    "rl_flight k = rl_flight h" "rl_sent k = rl_sent h"
    "rl_upstreams k = (if left = [] then AList.delete (key_of (upstream_at h u)) (rl_upstreams h) else rl_upstreams h)"
    "rl_put k = rl_put h @ (if left = [] \<and> detach then [(us_registration (upstream_at h u), Put_Unsubscribe (us_target (upstream_at h u)))] else [])"
    by (simp_all add: simps)
  show "watch_at k j = (if j = i then (watch_at h i)\<lparr>rw_released := True\<rparr> else watch_at h j)"
    using assms(1) by (simp add: simps watch_update)
  have "upstream_at k v = upstream_at h3 v" by (simp add: k Let_def)
  then show "upstream_at k v = (if v = u then (upstream_at h u)\<lparr>us_watches := left\<rparr> else upstream_at h v)"
    by (simp add: up3 up_def)
  have "watches_of c k = watches_of c h3" by (simp add: k Let_def watches_of_def)
  then show "watches_of c k = (if c = rw_client (watch_at h i) then AList.delete (rw_target (watch_at h i)) (watches_of c h) else watches_of c h)"
    by (auto simp: h3_def set_watches_def watches_of_def)
  have "bound_at h3 = bound_at h" by (simp add: h3_def bound_at_def fun_eq_iff)
  then show "bound_at k key = (if left = [] \<and> us_bound (upstream_at h u) = Some key then removeAll u (bound_at h key) else bound_at h key)"
    by (auto simp: k Let_def up_def bound_unbind)
qed

lemma release_nothing: "rw_released (watch_at h i) \<Longrightarrow> release_watch i detach h = h"
  by (simp add: release_watch_def Let_def)

lemma release_core_ok:
  assumes w: "watches_ok h" and u: "upstreams_ok h" and i: "i < length (rl_watch h)"
  shows "watches_ok (release_watch i detach h) \<and> upstreams_ok (release_watch i detach h)"
proof (cases "rw_released (watch_at h i)")
  case False
  define k where "k = release_watch i detach h"
  define v where "v = rw_upstream (watch_at h i)"
  define left where "left = removeAll i (us_watches (upstream_at h v))"
  note eff = release_effect [OF i False watches_okD(1) [OF w i], where detach = detach, folded k_def v_def, folded left_def]
  have vlen: "v < length (rl_upstream h)" unfolding v_def by (rule watches_okD(1) [OF w i])
  have vmem: "i \<in> set (us_watches (upstream_at h v))" using watches_okD(2) [OF w i] False by (simp add: v_def)
  have own: "map_of (watches_of (rw_client (watch_at h i)) h) (rw_target (watch_at h i)) = Some i"
    using watches_okD(3) [OF w i] False by simp
  have "watches_ok k"
    unfolding watches_ok_def
  proof (intro conjI allI impI ballI)
    fix j assume "j < length (rl_watch k)"
    then have j: "j < length (rl_watch h)" by (simp add: eff)
    show "rw_upstream (watch_at k j) < length (rl_upstream k)" using watches_okD(1) [OF w j] vlen by (auto simp: eff v_def)
    show "j \<in> set (us_watches (upstream_at k (rw_upstream (watch_at k j)))) \<longleftrightarrow> \<not> rw_released (watch_at k j)"
      using watches_okD(2) [OF w j] by (auto simp: eff left_def v_def)
    show "map_of (watches_of (rw_client (watch_at k j)) k) (rw_target (watch_at k j)) = Some j \<longleftrightarrow> \<not> rw_released (watch_at k j)"
      using watches_okD(3) [OF w j] own by (auto simp: eff)
  next
    fix c asked j assume m: "map_of (watches_of c k) asked = Some j"
    then have "map_of (watches_of c h) asked = Some j" by (auto simp: eff split: if_splits)
    then show "j < length (rl_watch k)" "rw_client (watch_at k j) = c" "rw_target (watch_at k j) = asked"
      using watches_okD(4) [OF w, of c asked j] by (auto simp: eff)
  next
    fix x j assume x: "x < length (rl_upstream k)" and "j \<in> set (us_watches (upstream_at k x))"
    then have "j \<in> set (us_watches (upstream_at h x))" by (auto simp: eff left_def split: if_splits)
    then show "j < length (rl_watch k)" "rw_upstream (watch_at k j) = x"
      using watches_okD(5) [OF w, of x j] x by (auto simp: eff)
  next
    fix d show "distinct (map fst (watches_of d k))" using watches_okD(6) [OF w] by (simp add: eff distinct_delete)
  qed
  moreover have "upstreams_ok k"
    unfolding upstreams_ok_def
  proof (intro conjI allI impI)
    show "distinct (map fst (rl_upstreams k))" using upstreams_okD(1) [OF u] distinct_delete by (auto simp: eff)
    have here: "map_of (rl_upstreams h) (key_of (upstream_at h v)) = Some v"
      using upstreams_okD(2) [OF u vlen] vmem by (cases "us_watches (upstream_at h v)") auto
    have key: "key_of (upstream_at k x) = key_of (upstream_at h x)" for x by (simp add: eff key_of_def)
    show "map_of (rl_upstreams k) (key_of (upstream_at k x)) = Some x \<longleftrightarrow> us_watches (upstream_at k x) \<noteq> []"
      if "x < length (rl_upstream k)" for x
    proof (cases "x = v")
      case True
      then show ?thesis using here unfolding key by (simp add: eff)
    next
      case False
      have "key_of (upstream_at h x) \<noteq> key_of (upstream_at h v) \<or> us_watches (upstream_at h x) = []"
        using upstreams_okD(2) [OF u, of x] that here False by (auto simp: eff)
      then show ?thesis using upstreams_okD(2) [OF u, of x] that here False unfolding key by (auto simp: eff)
    qed
    show "x < length (rl_upstream k)" "key_of (upstream_at k x) = a" if "map_of (rl_upstreams k) a = Some x" for a x
      using that upstreams_okD(3,4) [OF u, of a x] unfolding key by (auto simp: eff split: if_splits)
    show "x \<in> set (bound_at k a) \<longleftrightarrow> x < length (rl_upstream k) \<and> us_bound (upstream_at k x) = Some a \<and> us_watches (upstream_at k x) \<noteq> []" for a x
      using upstreams_okD(5) [OF u, of x a] vmem by (auto simp: eff)
    show "distinct (us_watches (upstream_at k x))" if "x < length (rl_upstream k)" for x
      using that upstreams_okD(6) [OF u, of x] by (auto simp: eff left_def distinct_removeAll)
    show "fst a = us_registration (upstream_at k x)" if "x < length (rl_upstream k)" "us_bound (upstream_at k x) = Some a" for x a
      using that upstreams_okD(7) [OF u, of x a] by (auto simp: eff split: if_splits)
  qed
  ultimately show ?thesis by (simp add: k_def)
qed (simp add: release_nothing w u)

lemma release_replays:
  "length (rl_watch (release_watch i detach h)) = length (rl_watch h)"
  "length (rl_upstream (release_watch i detach h)) = length (rl_upstream h)"
  "us_replays (upstream_at (release_watch i detach h) u) = us_replays (upstream_at h u)"
  "rw_upstream (watch_at (release_watch i detach h) j) = rw_upstream (watch_at h j)"
  "rl_flight (release_watch i detach h) = rl_flight h"
  by (simp_all add: release_watch_def Let_def watch_update upstream_update)

lemma relay_release_ok:
  assumes "relay_ok h" and "i < length (rl_watch h)"
  shows "relay_ok (release_watch i detach h)"
  using assms release_core_ok [of h i detach] by (simp add: relay_ok_def flights_ok_def release_replays)

section \<open>A watch taken\<close>

definition fresh_upstream :: "jstr \<Rightarrow> target \<Rightarrow> upstream" where
  "fresh_upstream registration aimed =
     \<lparr>us_registration = registration, us_target = aimed, us_watches = [], us_replays = [], us_bound = None\<rparr>"

lemma own_starts_cong: "rl_instances k = rl_instances h \<Longrightarrow> rl_instance_of k = rl_instance_of h \<Longrightarrow> own_starts c k = own_starts c h"
  by (simp add: own_starts_def page_of_def cong: option.case_cong)

text \<open>The two outcomes of a subscribe.\<close>

lemma subscribe_shape:
  fixes h :: relay
  obtains (refused) problem where
      "subscribe_client c reply asked fleet h = refuse_client c reply problem (set_watches c (watches_of c h) h)"
  | (taken) registration aimed u up w where
      "route_terminal fleet (own_starts c h) asked = Inr (registration, aimed)"
      "map_of (watches_of c h) asked = None"
      "(map_of (rl_upstreams h) (registration, aimed) = Some u \<and> up = upstream_at h u)
        \<or> (map_of (rl_upstreams h) (registration, aimed) = None \<and> u = length (rl_upstream h) \<and> up = fresh_upstream registration aimed)"
      "w = \<lparr>rw_client = c, rw_target = asked, rw_reply = reply, rw_upstream = u,
            rw_start = handle_for (own_starts c h) (rl_named h) asked, rw_dropped = 0, rw_attached = False, rw_released = False\<rparr>"
      "subscribe_client c reply asked fleet h =
         ask_server registration (Put_Subscribe aimed) (Attaching (length (rl_watch h)) False)
           (h\<lparr>rl_watch := rl_watch h @ [w],
              rl_upstream := (if map_of (rl_upstreams h) (registration, aimed) = None then rl_upstream h @ [up] else rl_upstream h)
                [u := up\<lparr>us_watches := us_watches up @ [length (rl_watch h)]\<rparr>],
              rl_upstreams := (if map_of (rl_upstreams h) (registration, aimed) = None
                then AList.update (registration, aimed) u (rl_upstreams h) else rl_upstreams h),
              rl_watches := AList.update c (AList.update asked (length (rl_watch h)) (watches_of c h)) (AList.update c (watches_of c h) (rl_watches h))\<rparr>)"
proof -
  have own: "own_starts c (set_watches c (watches_of c h) h) = own_starts c h"
    by (rule own_starts_cong) simp_all
  show thesis
  proof (cases "map_of (watches_of c h) asked")
    case (Some i)
    then show thesis using refused [of Already_Watching] by (simp add: subscribe_client_def Let_def)
  next
    case free: None
    show thesis
    proof (cases "route_terminal fleet (own_starts c h) asked")
      case (Inl problem)
      then show thesis using refused [of problem] free by (simp add: subscribe_client_def Let_def own)
    next
      case (Inr route)
      obtain registration aimed where r: "route = (registration, aimed)" by (cases route)
      show thesis
      proof (cases "map_of (rl_upstreams h) (registration, aimed)")
        case (Some u)
        show thesis
          by (rule taken [OF Inr [unfolded r] free _ refl, of u "upstream_at h u"])
            (use Some free Inr r own in \<open>simp_all add: subscribe_client_def Let_def set_watches_def watches_of_def update_upstream_def\<close>)
      next
        case None
        have own2: "own_starts c (set_watches c (watches_of c h) h\<lparr>rl_upstream := x, rl_upstreams := y\<rparr>) = own_starts c h" for x y
          by (rule own_starts_cong) simp_all
        show thesis
          by (rule taken [OF Inr [unfolded r] free _ refl, of "length (rl_upstream h)" "fresh_upstream registration aimed"])
            (use None free Inr r own own2 in \<open>simp_all add: subscribe_client_def Let_def set_watches_def watches_of_def update_upstream_def fresh_upstream_def nth_append\<close>)
      qed
    qed
  qed
qed

lemma subscribe_taken_ok:
  assumes w: "watches_ok h" and us: "upstreams_ok h" and fl: "flights_ok h"
    and free: "map_of (watches_of c h) asked = None"
    and up: "(map_of (rl_upstreams h) (registration, aimed) = Some u \<and> up = upstream_at h u)
        \<or> (map_of (rl_upstreams h) (registration, aimed) = None \<and> u = length (rl_upstream h) \<and> up = fresh_upstream registration aimed)"
    and new: "rw_client new = c" "rw_target new = asked" "rw_upstream new = u" "\<not> rw_released new"
  defines "k \<equiv> ask_server registration (Put_Subscribe aimed) (Attaching (length (rl_watch h)) False)
           (h\<lparr>rl_watch := rl_watch h @ [new],
              rl_upstream := (if map_of (rl_upstreams h) (registration, aimed) = None then rl_upstream h @ [up] else rl_upstream h)
                [u := up\<lparr>us_watches := us_watches up @ [length (rl_watch h)]\<rparr>],
              rl_upstreams := (if map_of (rl_upstreams h) (registration, aimed) = None
                then AList.update (registration, aimed) u (rl_upstreams h) else rl_upstreams h),
              rl_watches := AList.update c (AList.update asked (length (rl_watch h)) (watches_of c h)) (AList.update c (watches_of c h) (rl_watches h))\<rparr>)"
  shows "relay_ok k"
proof -
  define i where "i = length (rl_watch h)"
  have old_u: "u < length (rl_upstream h)" "key_of (upstream_at h u) = (registration, aimed)" if "map_of (rl_upstreams h) (registration, aimed) = Some u"
    using upstreams_okD(3,4) [OF us that] by simp_all
  have wlen: "length (rl_watch k) = Suc i" by (simp add: k_def i_def)
  have wat: "watch_at k j = (if j = i then new else watch_at h j)" if "j \<le> i" for j
    using that by (auto simp: k_def i_def nth_append)
  have ulen: "length (rl_upstream k) = (if map_of (rl_upstreams h) (registration, aimed) = None then Suc (length (rl_upstream h)) else length (rl_upstream h))"
    by (simp add: k_def)
  have u_lt: "u < length (rl_upstream k)" using up old_u unfolding ulen by auto
  have uat: "upstream_at k v = (if v = u then up\<lparr>us_watches := us_watches up @ [i]\<rparr> else upstream_at h v)" if "v < length (rl_upstream k)" for v
    using that up old_u unfolding ulen by (auto simp: k_def i_def nth_append)
  have old_v: "v < length (rl_upstream h)" if "v < length (rl_upstream k)" "v \<noteq> u" for v
    using that up unfolding ulen by (auto split: if_splits)
  have wof: "watches_of d k = (if d = c then AList.update asked i (watches_of c h) else watches_of d h)" for d
    by (simp add: k_def i_def watches_of_def)
  have ups: "map_of (rl_upstreams k) key = (if key = (registration, aimed) then Some u else map_of (rl_upstreams h) key)" for key
    using up by (auto simp: k_def)
  have bnd: "bound_at k = bound_at h" by (simp add: k_def bound_at_def fun_eq_iff)
  have up_key: "key_of up = (registration, aimed)" using up old_u by (auto simp: fresh_upstream_def key_of_def)
  have up_old: "j < i \<and> rw_upstream (watch_at h j) = u" if "j \<in> set (us_watches up)" for j
    using that up watches_okD(5) [OF w old_u(1)] by (auto simp: fresh_upstream_def i_def)
  have same_watches: "us_watches up = us_watches (upstream_at h u)" if "u < length (rl_upstream h)" using that up by auto
  have "watches_ok k"
    unfolding watches_ok_def
  proof (intro conjI allI impI ballI)
    fix j assume j: "j < length (rl_watch k)"
    have jw: "rw_upstream (watch_at h j) < length (rl_upstream h)" if "j < i" using watches_okD(1) [OF w] that by (simp add: i_def)
    show "rw_upstream (watch_at k j) < length (rl_upstream k)"
      using j jw u_lt new by (auto simp: wlen wat ulen less_Suc_eq)
    show "j \<in> set (us_watches (upstream_at k (rw_upstream (watch_at k j)))) \<longleftrightarrow> \<not> rw_released (watch_at k j)"
    proof (cases "j = i")
      case True
      then show ?thesis using new u_lt by (simp add: wat uat)
    next
      case False
      then have ji: "j < i" using j by (simp add: wlen)
      then have "rw_upstream (watch_at h j) < length (rl_upstream k)" using jw by (auto simp: ulen)
      then show ?thesis
        using ji watches_okD(2) [OF w, of j] same_watches jw by (auto simp: wat uat i_def)
    qed
    show "map_of (watches_of (rw_client (watch_at k j)) k) (rw_target (watch_at k j)) = Some j \<longleftrightarrow> \<not> rw_released (watch_at k j)"
    proof (cases "j = i")
      case True
      then show ?thesis using new by (simp add: wat wof)
    next
      case False
      then have ji: "j < i" using j by (simp add: wlen)
      have "rw_released (watch_at h j)" if "rw_client (watch_at h j) = c" "rw_target (watch_at h j) = asked"
        using watches_okD(3) [OF w, of j] that free ji by (auto simp: i_def)
      then show ?thesis using ji watches_okD(3) [OF w, of j] by (auto simp: wat wof i_def)
    qed
  next
    fix d a j assume m: "map_of (watches_of d k) a = Some j"
    then have "(d = c \<and> a = asked \<and> j = i) \<or> map_of (watches_of d h) a = Some j" by (auto simp: wof split: if_splits)
    then show "j < length (rl_watch k)" "rw_client (watch_at k j) = d" "rw_target (watch_at k j) = a"
      using watches_okD(4) [OF w, of d a j] new by (auto simp: wlen wat i_def)
  next
    fix v j assume v: "v < length (rl_upstream k)" and "j \<in> set (us_watches (upstream_at k v))"
    then have "(v = u \<and> (j = i \<or> j \<in> set (us_watches up))) \<or> (v \<noteq> u \<and> j \<in> set (us_watches (upstream_at h v)))" by (auto simp: uat split: if_splits)
    then have "j < Suc i \<and> rw_upstream (watch_at k j) = v"
    proof (elim disjE conjE)
      assume vu: "v = u" and j: "j \<in> set (us_watches up)"
      show ?thesis using up_old [OF j] vu by (simp add: wat)
    next
      assume vu: "v \<noteq> u" and j: "j \<in> set (us_watches (upstream_at h v))"
      show ?thesis using watches_okD(5) [OF w old_v [OF v vu] j, folded i_def] by (simp add: wat)
    qed (use new in \<open>simp add: wat\<close>)
    then show "j < length (rl_watch k)" "rw_upstream (watch_at k j) = v" by (simp_all add: wlen)
  next
    fix d show "distinct (map fst (watches_of d k))" using watches_okD(6) [OF w] by (simp add: wof distinct_update)
  qed
  moreover have "upstreams_ok k"
    unfolding upstreams_ok_def
  proof (intro conjI allI impI)
    show "distinct (map fst (rl_upstreams k))" using upstreams_okD(1) [OF us] distinct_update by (auto simp: k_def)
    have key: "key_of (upstream_at k v) = (if v = u then (registration, aimed) else key_of (upstream_at h v))" if "v < length (rl_upstream k)" for v
      using that up_key by (simp add: uat key_of_def)
    show "map_of (rl_upstreams k) (key_of (upstream_at k v)) = Some v \<longleftrightarrow> us_watches (upstream_at k v) \<noteq> []"
      if v: "v < length (rl_upstream k)" for v
    proof (cases "v = u")
      case True
      then show ?thesis using up_key unfolding uat [OF v] ups by simp
    next
      case False
      have "key_of (upstream_at h v) = (registration, aimed) \<Longrightarrow> us_watches (upstream_at h v) = []"
        using upstreams_okD(2) [OF us old_v [OF v False]] up False by auto
      then show ?thesis using False upstreams_okD(2) [OF us old_v [OF v False]] unfolding uat [OF v] ups by (cases "key_of (upstream_at h v) = (registration, aimed)") simp_all
    qed
    show "v < length (rl_upstream k)" "key_of (upstream_at k v) = a" if m: "map_of (rl_upstreams k) a = Some v" for a v
    proof -
      have "(a = (registration, aimed) \<and> v = u) \<or> (a \<noteq> (registration, aimed) \<and> map_of (rl_upstreams h) a = Some v)"
        using m by (auto simp: ups split: if_splits)
      then have "v < length (rl_upstream k) \<and> key_of (upstream_at k v) = a"
      proof (elim disjE conjE)
        assume "a \<noteq> (registration, aimed)" and o: "map_of (rl_upstreams h) a = Some v"
        then have vu: "v \<noteq> u" using upstreams_okD(4) [OF us o] up old_u upstreams_okD(3) [OF us o] by auto
        have "v < length (rl_upstream k)" using upstreams_okD(3) [OF us o] by (simp add: ulen)
        then show ?thesis using vu upstreams_okD(4) [OF us o] by (simp add: key)
      qed (use u_lt in \<open>simp add: key\<close>)
      then show "v < length (rl_upstream k)" "key_of (upstream_at k v) = a" by simp_all
    qed
    show "v \<in> set (bound_at k a) \<longleftrightarrow> v < length (rl_upstream k) \<and> us_bound (upstream_at k v) = Some a \<and> us_watches (upstream_at k v) \<noteq> []" for a v
    proof (cases "v = u")
      case True
      have "us_watches up \<noteq> []" if "map_of (rl_upstreams h) (registration, aimed) = Some u"
        using upstreams_okD(2) [OF us old_u(1) [OF that]] old_u(2) [OF that] that same_watches old_u(1) by simp
      then show ?thesis
        using True upstreams_okD(5) [OF us, of u a] up u_lt old_u by (auto simp: bnd uat fresh_upstream_def)
    next
      case False
      then show ?thesis
        using upstreams_okD(5) [OF us, of v a] old_v [of v] by (auto simp: bnd uat ulen)
    qed
    show "distinct (us_watches (upstream_at k v))" if "v < length (rl_upstream k)" for v
    proof (cases "v = u")
      case True
      have "distinct (us_watches up)" using up upstreams_okD(6) [OF us] old_u by (auto simp: fresh_upstream_def)
      moreover have "i \<notin> set (us_watches up)" using up_old by auto
      ultimately show ?thesis using True that by (simp add: uat)
    qed (use that old_v upstreams_okD(6) [OF us] in \<open>simp add: uat\<close>)
    show "fst a = us_registration (upstream_at k v)" if v: "v < length (rl_upstream k)" and "us_bound (upstream_at k v) = Some a" for v a
    proof (cases "v = u")
      case True
      then show ?thesis
        using that(2) up old_u upstreams_okD(7) [OF us, of u a] unfolding uat [OF v] by (auto simp: fresh_upstream_def)
    qed (use that old_v upstreams_okD(7) [OF us] in \<open>simp add: uat\<close>)
  qed
  moreover have "flights_ok k"
  proof -
    have "a < Suc i" if "(n, Attaching a again) \<in> set (rl_flight k)" for n a again
    proof -
      have "a = i \<or> (n, Attaching a again) \<in> set (rl_flight h)" using that by (auto simp: k_def i_def)
      then show ?thesis using fl by (fastforce simp: flights_ok_def i_def)
    qed
    moreover have "a < Suc i \<and> rw_upstream (watch_at k a) = v"
      if v: "v < length (rl_upstream k)" and m: "(Some a, n) \<in> set (us_replays (upstream_at k v))" for v a n
    proof -
      have "v < length (rl_upstream h) \<and> (Some a, n) \<in> set (us_replays (upstream_at h v))"
      proof (cases "v = u")
        case True
        have "(Some a, n) \<in> set (us_replays up)" using m unfolding uat [OF v] using True by simp
        then show ?thesis using up old_u True by (auto simp: fresh_upstream_def)
      next
        case False
        then show ?thesis using m old_v [OF v False] unfolding uat [OF v] by simp
      qed
      then have "a < i \<and> rw_upstream (watch_at h a) = v" using fl by (fastforce simp: flights_ok_def i_def)
      then show ?thesis by (simp add: wat)
    qed
    ultimately show ?thesis by (auto simp: flights_ok_def wlen)
  qed
  ultimately show ?thesis by (simp add: relay_ok_def)
qed

lemma relay_subscribe_ok:
  assumes "relay_ok h"
  shows "relay_ok (subscribe_client c reply asked fleet h)"
proof (cases rule: subscribe_shape [of c reply asked fleet h])
  case (refused problem)
  have "same_core h (subscribe_client c reply asked fleet h)"
    unfolding refused by (rule same_core_trans [OF same_core_set same_core_logs(4)])
  moreover have "flights_ok (subscribe_client c reply asked fleet h)"
    using assms unfolding refused by (simp add: relay_ok_def flights_ok_def refuse_client_def)
  ultimately show ?thesis using assms same_core_ok by (simp add: relay_ok_def)
next
  case (taken registration aimed u up w)
  show ?thesis
    unfolding taken(5) using assms taken(2,3,4) by (intro subscribe_taken_ok) (simp_all add: relay_ok_def)
qed

end
