(* ===== verification/Relay_Steps.thy ===== *)
theory Relay_Steps
  imports Relay_Watches
begin

text \<open>
  Every event of the relay keeps its structure (\<open>relay_step_ok\<close>): what a step leaves alone is one
  relation (\<open>same_books\<close>), giving watches back is \<open>relay_release_ok\<close>, taking one is \<open>relay_subscribe_ok\<close>, and a start
  that became a session is the one step that changes an index.
\<close>

section \<open>Steps that leave the books alone\<close>

definition flight_fine :: "relay \<Rightarrow> flight \<Rightarrow> bool" where
  "flight_fine h x \<longleftrightarrow> (\<forall>i again. x = Attaching i again \<longrightarrow> i < length (rl_watch h))"

definition claim_fine :: "relay \<Rightarrow> nat \<Rightarrow> nat option \<Rightarrow> bool" where
  "claim_fine h u claim \<longleftrightarrow> (\<forall>i. claim = Some i \<longrightarrow> i < length (rl_watch h) \<and> rw_upstream (watch_at h i) = u)"

lemma flights_ok_iff:
  "flights_ok h \<longleftrightarrow> (\<forall>x \<in> snd ` set (rl_flight h). flight_fine h x)
     \<and> (\<forall>u < length (rl_upstream h). \<forall>claim \<in> fst ` set (us_replays (upstream_at h u)). claim_fine h u claim)"
  by (force simp: flights_ok_def flight_fine_def claim_fine_def)

definition same_books :: "relay \<Rightarrow> relay \<Rightarrow> bool" where
  "same_books h k \<longleftrightarrow> same_core h k
     \<and> (\<forall>x \<in> snd ` set (rl_flight k). x \<in> snd ` set (rl_flight h) \<or> flight_fine h x)
     \<and> (\<forall>u < length (rl_upstream h). \<forall>claim \<in> fst ` set (us_replays (upstream_at k u)).
          claim \<in> fst ` set (us_replays (upstream_at h u)) \<or> claim_fine h u claim)"

lemma same_books_core: "same_books h k \<Longrightarrow> same_core h k"
  by (simp add: same_books_def)

lemma same_books_refl [simp]: "same_books h h"
  by (simp add: same_books_def)

lemma fine_core: "same_core h k \<Longrightarrow> flight_fine k = flight_fine h \<and> claim_fine k = claim_fine h"
  using same_coreD(1,4) [of h k] by (auto simp: flight_fine_def claim_fine_def fun_eq_iff)

lemma same_books_ok:
  assumes "same_books h k" and ok: "relay_ok h"
  shows "relay_ok k"
proof -
  note c = same_coreD [OF same_books_core [OF assms(1)]] fine_core [OF same_books_core [OF assms(1)]]
  have "flights_ok k" using assms unfolding relay_ok_def flights_ok_iff same_books_def by (metis c(6) fine_core)
  then show ?thesis using ok same_core_ok [OF same_books_core [OF assms(1)]] by (simp add: relay_ok_def)
qed

lemma same_books_trans:
  assumes "same_books h k" and "same_books k l"
  shows "same_books h l"
proof -
  note c = same_coreD(6) [OF same_books_core [OF assms(1)]] fine_core [OF same_books_core [OF assms(1)]]
  have "\<forall>x \<in> snd ` set (rl_flight l). x \<in> snd ` set (rl_flight h) \<or> flight_fine h x"
    using assms c unfolding same_books_def by metis
  moreover have "\<forall>u < length (rl_upstream h). \<forall>claim \<in> fst ` set (us_replays (upstream_at l u)).
      claim \<in> fst ` set (us_replays (upstream_at h u)) \<or> claim_fine h u claim"
    using assms c unfolding same_books_def by metis
  ultimately show ?thesis
    using same_core_trans [OF same_books_core [OF assms(1)] same_books_core [OF assms(2)]] by (simp add: same_books_def)
qed

lemma same_books_fold:
  assumes "\<And>k x. same_books h k \<Longrightarrow> x \<in> set xs \<Longrightarrow> same_books k (f k x)"
  shows "same_books h (foldl f h xs)"
proof -
  have "same_books h (foldl f k ys)" if "same_books h k" "set ys \<subseteq> set xs" for k ys
    using that
  proof (induction ys arbitrary: k)
    case (Cons y ys)
    then show ?case using same_books_trans [OF Cons.prems(1) assms [OF Cons.prems(1), of y]] by simp
  qed simp
  then show ?thesis by simp
qed

lemma same_booksI:
  assumes "same_core h k" and "rl_flight k = rl_flight h"
    and "\<And>u. u < length (rl_upstream h) \<Longrightarrow> set (us_replays (upstream_at k u)) \<subseteq> set (us_replays (upstream_at h u))"
  shows "same_books h k"
  using assms unfolding same_books_def by (auto dest: image_mono [of _ _ fst])

lemma same_books_logs [simp]:
  "same_books h (send_client c f h)" "same_books h (put_server r g h)" "same_books h (refuse_client c n p h)"
  "same_books h (set_watches c (watches_of c h) h)"
  by (rule same_booksI; simp add: refuse_client_def)+

lemma same_books_ask:
  assumes "\<And>i again. x = Attaching i again \<Longrightarrow> i < length (rl_watch h)"
  shows "same_books h (ask_server r g x h)"
  using assms unfolding same_books_def by (auto simp: flight_fine_def)

lemma same_books_watch:
  assumes "\<And>w. watch_core (f w) = watch_core w"
  shows "same_books h (update_watch i f h)"
  by (rule same_booksI [OF same_core_watch [OF assms]]) simp_all

lemma same_books_end: "same_books h (end_watch i reason h)"
  unfolding end_watch_def Let_def
  by (rule same_books_trans [OF same_books_watch same_books_logs(1)]) (simp add: watch_core_def)

lemma same_books_claim:
  assumes "\<And>i. claim = Some i \<Longrightarrow> i < length (rl_watch h) \<and> rw_upstream (watch_at h i) = u"
  shows "same_books h (claim_history u claim promised h)"
proof (cases "0 < promised \<and> u < length (rl_upstream h)")
  case True
  have "same_core h (claim_history u claim promised h)"
    using True unfolding claim_history_def by (simp add: same_core_upstream upstream_core_def)
  then show ?thesis
    using True assms unfolding same_books_def by (simp add: claim_history_def upstream_update claim_fine_def)
next
  case False
  then show ?thesis by (auto simp: claim_history_def update_upstream_def list_update_beyond)
qed

section \<open>Answers\<close>

lemma books_flights: "same_books h (h\<lparr>rl_flight := AList.delete k (rl_flight h)\<rparr>)"
  by (force simp: same_books_def same_core_def watches_of_def AList.delete_eq) 

lemma attach_failed_ok:
  assumes "relay_ok h" and "i < length (rl_watch h)"
  shows "relay_ok (attach_failed i again problem gone h)"
  using relay_release_ok [OF assms, of False] assms(1)
  by (auto simp: attach_failed_def intro: same_books_ok [OF same_books_end] same_books_ok [OF same_books_logs(3)])

lemma relay_attach_ok:
  assumes ok: "relay_ok h" and i: "i < length (rl_watch h)"
  shows "relay_ok (attach_to i again result h)"
proof -
  have swallowed: "relay_ok (claim_history (rw_upstream (watch_at h i)) None promised h)" for promised
    by (rule same_books_ok [OF same_books_claim ok]) simp
  define k where "k = update_watch i (\<lambda>w. w\<lparr>rw_attached := True\<rparr>) h"
  have "same_books h k" unfolding k_def by (rule same_books_watch) (simp add: watch_core_def)
  moreover have "same_books k (claim_history (rw_upstream (watch_at h i)) (Some i) promised k)" for promised
    by (rule same_books_claim) (simp add: k_def i watch_update)
  ultimately have "relay_ok (send_client c f (claim_history (rw_upstream (watch_at h i)) (Some i) promised k))" for c f promised
    using ok same_books_ok same_books_logs(1) by blast
  then show ?thesis
    using swallowed attach_failed_ok [OF ok i]
    by (auto simp: attach_to_def Let_def k_def split: stream_result.split server_answer.split)
qed

lemma answer_ok:
  assumes "relay_ok h"
  shows "relay_ok (answer_flight k result h)"
proof (cases "map_of (rl_flight h) k")
  case (Some waiting)
  define h1 where "h1 = h\<lparr>rl_flight := AList.delete k (rl_flight h)\<rparr>"
  have ok1: "relay_ok h1" unfolding h1_def by (rule same_books_ok [OF books_flights assms])
  show ?thesis
  proof (cases waiting)
    case (Attaching i again)
    have "i < length (rl_watch h1)"
      using assms Some Attaching by (fastforce simp: relay_ok_def flights_ok_def h1_def dest: map_of_SomeD)
    then show ?thesis using Some Attaching relay_attach_ok [OF ok1] by (simp add: answer_flight_def Let_def h1_def)
  next
    case (Putting c reply)
    have "relay_ok (answer_put c reply result h1)"
      using ok1 same_books_ok [OF same_books_logs(3)] by (auto simp: answer_put_def split: stream_result.split)
    then show ?thesis using Some Putting by (simp add: answer_flight_def Let_def h1_def)
  qed
qed (simp add: answer_flight_def assms)

section \<open>Output and outages\<close>

lemma books_relay_to: "same_books h (relay_to i out history behind h)"
  unfolding relay_to_def Let_def by (auto intro: same_books_watch simp: watch_core_def)

lemma books_fan_out: "same_books h (fan_out out behind u h)"
proof (cases "us_replays (upstream_at h u)")
  case Nil
  have "same_books h (foldl (\<lambda>h i. if rw_attached (watch_at h i) then relay_to i out False behind h else h) h
          (us_watches (upstream_at h u)))"
    by (rule same_books_fold) (simp add: books_relay_to)
  then show ?thesis using Nil by (simp add: fan_out_def)
next
  case (Cons replay rest)
  obtain claim remaining where r: "replay = (claim, remaining)" by (cases replay)
  define k where "k = update_upstream u (\<lambda>up. up\<lparr>us_replays := (if remaining \<le> 1 then rest else (claim, remaining - 1) # rest)\<rparr>) h"
  have "same_core h k" unfolding k_def by (rule same_core_upstream) (simp add: upstream_core_def)
  then have "same_books h k"
    unfolding same_books_def using Cons r by (auto simp: k_def upstream_update)
  moreover have "fan_out out behind u h = (case claim of None \<Rightarrow> k
      | Some i \<Rightarrow> if rw_released (watch_at k i) then k else relay_to i out True behind k)"
    using Cons r by (cases claim) (simp_all add: fan_out_def Let_def k_def)
  ultimately show ?thesis
    using same_books_trans [OF _ books_relay_to] by (simp split: option.split)
qed

lemma books_deliver: "same_books h (deliver_output registration out behind h)"
  unfolding deliver_output_def by (rule same_books_fold) (rule books_fan_out)

lemma books_stop: "same_books h (stop_feeding reason h u)"
proof -
  define k where "k = update_upstream u (\<lambda>up. up\<lparr>us_replays := []\<rparr>) h"
  have "same_core h k" unfolding k_def by (rule same_core_upstream) (simp add: upstream_core_def)
  then have "same_books h k" by (rule same_booksI) (auto simp: k_def upstream_update)
  moreover have "same_books k (foldl (\<lambda>h i. if rw_attached (watch_at h i) then end_watch i reason h else h) k (us_watches (upstream_at k u)))"
    by (rule same_books_fold) (simp add: same_books_end)
  ultimately show ?thesis unfolding stop_feeding_def Let_def k_def [symmetric] by (rule same_books_trans)
qed

lemma books_resubscribe:
  assumes "relay_ok h" and "u < length (rl_upstream h)"
  shows "same_books h (resubscribe h u)"
  unfolding resubscribe_def Let_def
proof (rule same_books_fold)
  fix k i assume "same_books h k" and "i \<in> set (us_watches (upstream_at h u))"
  then show "same_books k (ask_server (us_registration (upstream_at h u)) (Put_Subscribe (us_target (upstream_at h u))) (Attaching i True) k)"
    using assms watches_okD(5) same_coreD(1) [OF same_books_core] by (intro same_books_ask) (auto simp: relay_ok_def)
qed

lemma on_registration:
  assumes "relay_ok h" and "u \<in> set (upstreams_on registration h)"
  shows "u < length (rl_upstream h)" "us_registration (upstream_at h u) = registration" "us_watches (upstream_at h u) \<noteq> []"
proof -
  obtain key where "(key, u) \<in> set (rl_upstreams h)" and r: "us_registration (upstream_at h u) = registration"
    using assms(2) by (auto simp: upstreams_on_def)
  then have m: "map_of (rl_upstreams h) key = Some u"
    using assms(1) upstreams_okD(1) by (auto simp: relay_ok_def)
  have us: "upstreams_ok h" using assms(1) by (simp add: relay_ok_def)
  show "u < length (rl_upstream h)" by (rule upstreams_okD(3) [OF us m])
  then show "us_watches (upstream_at h u) \<noteq> []" using upstreams_okD(2,4) [OF us] m by metis
  show "us_registration (upstream_at h u) = registration" by (rule r)
qed

lemma books_away: "same_books h (h\<lparr>rl_away := x\<rparr>)"
  by (rule same_booksI) (auto simp: same_core_def watches_of_def)

lemma books_connection:
  assumes ok: "relay_ok h"
  shows "same_books h (note_connection registration phase draining h)"
proof -
  have gone: "same_books h (foldl (stop_feeding reason) (h\<lparr>rl_away := x\<rparr>) us)" for reason x us
    by (rule same_books_trans [OF books_away same_books_fold]) (rule books_stop)
  have resumed: "same_books h (foldl resubscribe (h\<lparr>rl_away := x\<rparr>) (upstreams_on registration h))" for x
  proof (rule same_books_trans [OF books_away same_books_fold])
    fix k u assume b: "same_books (h\<lparr>rl_away := x\<rparr>) k" and u: "u \<in> set (upstreams_on registration h)"
    have b': "same_books h k" by (rule same_books_trans [OF books_away b])
    show "same_books k (resubscribe k u)"
      using books_resubscribe [OF same_books_ok [OF b' ok]] on_registration(1) [OF ok u] same_coreD(6) [OF same_books_core [OF b']] by simp
  qed
  show ?thesis using gone resumed by (simp add: note_connection_def)
qed

section \<open>What clients ask\<close>

lemma relay_unsubscribe_ok:
  assumes "relay_ok h"
  shows "relay_ok (unsubscribe_client c reply asked h)"
proof (cases "map_of (watches_of c h) asked")
  case None
  have "same_books h (refuse_client c reply Not_Watching_That (set_watches c (watches_of c h) h))"
    by (rule same_books_trans [OF same_books_logs(4) same_books_logs(3)])
  then show ?thesis using None same_books_ok [OF _ assms] by (simp add: unsubscribe_client_def Let_def)
next
  case (Some i)
  have "relay_ok (set_watches c (watches_of c h) h)" by (rule same_books_ok [OF same_books_logs(4) assms])
  moreover have "i < length (rl_watch h)" using assms Some watches_okD(4) by (simp add: relay_ok_def)
  ultimately have "relay_ok (release_watch i True (set_watches c (watches_of c h) h))" by (intro relay_release_ok) simp_all
  then show ?thesis
    using Some same_books_ok [OF same_books_logs(1)] by (simp add: unsubscribe_client_def Let_def)
qed

lemma books_put: "same_books h (put_client c reply asked frame fleet h)"
  unfolding put_client_def by (auto split: sum.split intro: same_books_ask)

section \<open>Pages\<close>

lemma books_pages:
  assumes "rl_watch k = rl_watch h" "rl_upstream k = rl_upstream h" "rl_upstreams k = rl_upstreams h"
    "rl_rebound k = rl_rebound h" "rl_watches k = rl_watches h" "rl_flight k = rl_flight h"
  shows "same_books h k"
  by (rule same_booksI) (simp_all add: assms same_core_def watches_of_def)

lemma books_drop: "same_books h (drop_named made h)" "same_books h (set_page instance p h)" "same_books h (send_named c handle became h)"
  by (simp_all add: books_pages drop_named_def set_page_def send_named_def)

lemma books_hello: "same_books h (says_hello c instance h)"
proof -
  have named: "same_books k (foldl (\<lambda>h (handle, start). case became_of h start of None \<Rightarrow> h | Some became \<Rightarrow> send_named c handle became h) k xs)" for k xs
    by (rule same_books_fold) (auto split: option.split simp: books_drop)
  show ?thesis
    unfolding says_hello_def Let_def
    by (rule same_books_trans [OF same_books_trans [OF _ books_drop(2)] named]) (rule books_pages; simp)
qed

lemma books_note_start: "same_books h (note_client_start c handle start h)"
proof (cases "page_of c h")
  case None
  then show ?thesis by (auto simp: note_client_start_def page_of_def split: option.splits)
next
  case (Some p)
  then obtain name where i: "map_of (rl_instance_of h) c = Some name" "map_of (rl_instances h) name = Some p"
    by (auto simp: page_of_def split: option.splits)
  define starts where "starts = AList.update handle start (pg_starts p)"
  define over where "over = length starts - max_starts_per_instance"
  define k where "k = drop_named (map snd (take over starts)) (set_page name (p\<lparr>pg_starts := drop over starts\<rparr>) h)"
  have "note_client_start c handle start h = (case became_of k start of None \<Rightarrow> k
      | Some became \<Rightarrow> (case pg_socket p of None \<Rightarrow> k | Some socket \<Rightarrow> send_named socket handle became k))"
    by (simp add: note_client_start_def i Let_def starts_def over_def k_def cong: option.case_cong)
  moreover have "same_books h k" unfolding k_def by (rule same_books_trans [OF books_drop(2) books_drop(1)])
  ultimately show ?thesis using same_books_trans [OF _ books_drop(3)] by (simp split: option.split)
qed

lemma books_name: "same_books h (name_start store start session h)"
proof -
  define k where "k = h\<lparr>rl_named := AList.update start (store, session) (rl_named h)\<rparr>"
  have "same_books h k" unfolding k_def by (rule books_pages) simp_all
  moreover have "same_books k (case spawner_of start k of None \<Rightarrow> k | Some (p, handle) \<Rightarrow>
      (case pg_socket p of None \<Rightarrow> k | Some socket \<Rightarrow> send_named socket handle (store, session) k))"
    by (auto split: option.split simp: books_drop)
  ultimately have "same_books h (case spawner_of start k of None \<Rightarrow> k | Some (p, handle) \<Rightarrow>
      (case pg_socket p of None \<Rightarrow> k | Some socket \<Rightarrow> send_named socket handle (store, session) k))"
    by (rule same_books_trans)
  then show ?thesis by (simp add: name_start_def Let_def k_def [symmetric])
qed

lemma rebind_ok:
  assumes ok: "relay_ok h"
  shows "relay_ok (rebind_start registration store start session h)"
proof (cases "map_of (rl_upstreams h) (registration, By_Start start)")
  case (Some u)
  have us: "upstreams_ok h" and w: "watches_ok h" and fl: "flights_ok h" using ok by (simp_all add: relay_ok_def)
  note u = upstreams_okD(3,4) [OF us Some]
  show ?thesis
  proof (cases "us_bound (upstream_at h u) = None")
    case True
    define key where "key = (registration, By_Session store session)"
    define k where "k = (update_upstream u (\<lambda>up. up\<lparr>us_bound := Some key\<rparr>) h)
        \<lparr>rl_rebound := AList.update key (set_add u (bound_at h key)) (rl_rebound h)\<rparr>"
    have k: "rebind_start registration store start session h = k"
      using Some True by (simp add: rebind_start_def Let_def k_def key_def bound_at_def)
    have uat: "upstream_at k v = (if v = u then (upstream_at h u)\<lparr>us_bound := Some key\<rparr> else upstream_at h v)" for v
      using u(1) by (simp add: k_def upstream_update)
    have same: "rl_watch k = rl_watch h" "rl_upstreams k = rl_upstreams h" "rl_watches k = rl_watches h" "rl_flight k = rl_flight h"
        "length (rl_upstream k) = length (rl_upstream h)" "watches_of c k = watches_of c h" for c
      by (simp_all add: k_def watches_of_def)
    have bnd: "bound_at k a = (if a = key then set_add u (bound_at h key) else bound_at h a)" for a
      by (simp add: k_def bound_at_def update_conv')
    have wu: "us_watches (upstream_at k v) = us_watches (upstream_at h v)" "key_of (upstream_at k v) = key_of (upstream_at h v)"
        "us_replays (upstream_at k v) = us_replays (upstream_at h v)" for v by (simp_all add: uat)
    have "watches_ok k" using w unfolding watches_ok_def same wu .
    moreover have "flights_ok k" using fl by (simp add: flights_ok_def same wu)
    moreover have "upstreams_ok k"
    proof -
      have "us_watches (upstream_at h u) \<noteq> []" using upstreams_okD(2) [OF us u(1)] Some u(2) by simp
      then have bound: "v \<in> set (bound_at k a) \<longleftrightarrow>
          v < length (rl_upstream h) \<and> us_bound (upstream_at k v) = Some a \<and> us_watches (upstream_at h v) \<noteq> []" for v a
        using upstreams_okD(5) [OF us, of v a] u True by (auto simp: bnd uat set_add_def)
      have regs: "fst a = us_registration (upstream_at k v)"
        if "v < length (rl_upstream h)" "us_bound (upstream_at k v) = Some a" for v a
        using that upstreams_okD(7) [OF us, of v a] u(2) by (auto simp: uat key_def key_of_def split: if_splits)
      show ?thesis
        unfolding upstreams_ok_def same wu using upstreams_okD(1-6) [OF us] bound regs
        by (intro conjI allI impI) blast+
    qed
    ultimately show ?thesis by (simp add: k relay_ok_def)
  qed (use Some ok in \<open>simp add: rebind_start_def\<close>)
qed (simp add: rebind_start_def ok)

lemma reports_ok:
  assumes "relay_ok h"
  shows "relay_ok (note_reported_starts registration store reported h)"
  using assms unfolding note_reported_starts_def
proof (induction reported arbitrary: h)
  case (Cons tag reported)
  have "relay_ok (case snd tag of None \<Rightarrow> h | Some s \<Rightarrow> rebind_start registration store (fst tag) s (name_start store (fst tag) s h))"
    using Cons.prems rebind_ok [OF same_books_ok [OF books_name]] by (simp split: option.split)
  then show ?case using Cons.IH by (simp add: case_prod_beta)
qed simp

section \<open>A socket that went away\<close>

text \<open>
  \<open>forget\<close> takes the client's entry away before it gives the watches back; the books end as if it were
  taken away after.
\<close>

lemma elsewhere_simps:
  "update_watch i f (h\<lparr>rl_watches := ws\<rparr>) = (update_watch i f h)\<lparr>rl_watches := ws\<rparr>"
  "update_upstream u g (h\<lparr>rl_watches := ws\<rparr>) = (update_upstream u g h)\<lparr>rl_watches := ws\<rparr>"
  "put_server r p (h\<lparr>rl_watches := ws\<rparr>) = (put_server r p h)\<lparr>rl_watches := ws\<rparr>"
  "unbind u up (h\<lparr>rl_watches := ws\<rparr>) = (unbind u up h)\<lparr>rl_watches := ws\<rparr>"
  "h\<lparr>rl_watches := ws, rl_upstreams := ups\<rparr> = h\<lparr>rl_upstreams := ups, rl_watches := ws\<rparr>"
  by (simp_all add: update_watch_def update_upstream_def put_server_def unbind_def Let_def split: option.split)

lemma release_elsewhere:
  "release_watch i detach (h\<lparr>rl_watches := ws\<rparr>) = (release_watch i detach h)\<lparr>rl_watches :=
     if rw_released (watch_at h i) then ws
     else AList.update (rw_client (watch_at h i))
            (AList.delete (rw_target (watch_at h i)) (case map_of ws (rw_client (watch_at h i)) of None \<Rightarrow> [] | Some held \<Rightarrow> held)) ws\<rparr>"
  by (simp add: release_watch_def Let_def set_watches_def watches_of_def elsewhere_simps)

definition only_watches :: "nat \<Rightarrow> relay \<Rightarrow> relay \<Rightarrow> bool" where
  "only_watches c h k \<longleftrightarrow> (\<exists>ws. k = h\<lparr>rl_watches := ws\<rparr>) \<and> (\<forall>d. d \<noteq> c \<longrightarrow> watches_of d k = watches_of d h) \<and> watches_of c k = []"

lemma only_watches_release:
  assumes "only_watches c h k" and "rw_client (watch_at h i) = c" and "i < length (rl_watch h)" and "watches_ok h"
  shows "only_watches c (release_watch i detach h) (release_watch i detach k)"
proof (cases "rw_released (watch_at h i)")
  case True
  obtain ws where k: "k = h\<lparr>rl_watches := ws\<rparr>" using assms(1) by (auto simp: only_watches_def)
  have "rw_released (watch_at k i)" using True by (simp add: k)
  then show ?thesis using True assms(1) by (simp add: release_nothing)
next
  case False
  obtain ws where k: "k = h\<lparr>rl_watches := ws\<rparr>" using assms(1) by (auto simp: only_watches_def)
  have i: "i < length (rl_watch k)" "\<not> rw_released (watch_at k i)" "rw_upstream (watch_at k i) < length (rl_upstream k)"
    using assms(3) False watches_okD(1) [OF assms(4,3)] by (simp_all add: k)
  have ih: "rw_upstream (watch_at h i) < length (rl_upstream h)" by (rule watches_okD(1) [OF assms(4,3)])
  have same: "watch_at k i = watch_at h i" by (simp add: k)
  have "\<exists>ws. release_watch i detach k = (release_watch i detach h)\<lparr>rl_watches := ws\<rparr>"
    unfolding k release_elsewhere by blast
  then show ?thesis
    using assms(1,2) release_effect(5) [OF i] release_effect(5) [OF assms(3) False ih] by (simp add: only_watches_def same)
qed

lemma release_gone:
  "i < length (rl_watch h) \<Longrightarrow> rw_released (watch_at (release_watch i detach h) i)"
  "rw_released (watch_at h j) \<Longrightarrow> rw_released (watch_at (release_watch i detach h) j)"
  "rw_client (watch_at (release_watch i detach h) j) = rw_client (watch_at h j)"
  "rw_target (watch_at (release_watch i detach h) j) = rw_target (watch_at h j)"
  by (auto simp: release_watch_def Let_def watch_update)

lemma release_all:
  fixes detach :: bool and h :: relay
  assumes "relay_ok h" and "\<forall>i \<in> set is. i < length (rl_watch h)"
  defines "k \<equiv> foldl (\<lambda>h i. release_watch i detach h) h is"
  shows "relay_ok k \<and> length (rl_watch k) = length (rl_watch h)
    \<and> (\<forall>j. rw_client (watch_at k j) = rw_client (watch_at h j) \<and> rw_target (watch_at k j) = rw_target (watch_at h j))
    \<and> (\<forall>j. rw_released (watch_at h j) \<longrightarrow> rw_released (watch_at k j)) \<and> (\<forall>i \<in> set is. rw_released (watch_at k i))"
  unfolding k_def using assms(1,2)
proof (induction "is" arbitrary: h)
  case (Cons i "is")
  have i: "i < length (rl_watch h)" and rest: "\<forall>j \<in> set is. j < length (rl_watch (release_watch i detach h))"
    using Cons.prems(2) by (simp_all add: release_replays)
  show ?case
    using Cons.IH [OF relay_release_ok [OF Cons.prems(1) i, of detach] rest] release_gone i by (auto simp: release_replays)
qed simp

lemma forget_watches:
  fixes c :: nat and h :: relay
  assumes ok: "relay_ok h"
  defines "is \<equiv> map snd (watches_of c h)"
  defines "k \<equiv> foldl (\<lambda>h i. release_watch i True h) h is"
    and "l \<equiv> foldl (\<lambda>h i. release_watch i True h) (h\<lparr>rl_watches := AList.delete c (rl_watches h)\<rparr>) is"
  shows "only_watches c k l" "watches_of c k = []" "relay_ok k"
proof -
  have w: "watches_ok h" using ok by (simp add: relay_ok_def)
  have mem: "i < length (rl_watch h) \<and> rw_client (watch_at h i) = c" if "i \<in> set is" for i
proof -
    obtain asked where "(asked, i) \<in> set (watches_of c h)" using \<open>i \<in> set is\<close> by (auto simp: is_def)
    then have "map_of (watches_of c h) asked = Some i" using watches_okD(6) [OF w] by simp
    then show ?thesis using watches_okD(4) [OF w] by blast
  qed
  have all: "relay_ok k \<and> length (rl_watch k) = length (rl_watch h)
    \<and> (\<forall>j. rw_client (watch_at k j) = rw_client (watch_at h j) \<and> rw_target (watch_at k j) = rw_target (watch_at h j))
    \<and> (\<forall>j. rw_released (watch_at h j) \<longrightarrow> rw_released (watch_at k j)) \<and> (\<forall>i \<in> set is. rw_released (watch_at k i))"
    unfolding k_def using mem by (intro release_all [OF ok]) simp
  then show okk: "relay_ok k" by blast
  have wk: "watches_ok k" using okk by (simp add: relay_ok_def)
  have "map_of (watches_of c k) asked = None" for asked
  proof (rule ccontr)
    assume "map_of (watches_of c k) asked \<noteq> None"
    then obtain i where m: "map_of (watches_of c k) asked = Some i" by blast
    then have i: "i < length (rl_watch k)" "rw_client (watch_at k i) = c" "rw_target (watch_at k i) = asked"
      using watches_okD(4) [OF wk] by blast+
    then have live: "\<not> rw_released (watch_at k i)" using watches_okD(3) [OF wk i(1)] m by simp
    then have "\<not> rw_released (watch_at h i)" using all by blast
    then have "map_of (watches_of c h) asked = Some i" using watches_okD(3) [OF w, of i] i all by simp
    then have "i \<in> set is" by (force simp: is_def dest: map_of_SomeD)
    then show False using live all by blast
  qed
  then show none: "watches_of c k = []" by (simp add: map_of_eq_empty_iff [symmetric] fun_eq_iff del: map_of_eq_empty_iff)
  have "only_watches c (foldl (\<lambda>h i. release_watch i True h) a js) (foldl (\<lambda>h i. release_watch i True h) b js)"
    if "only_watches c a b" "relay_ok a" "\<forall>i \<in> set js. i < length (rl_watch a) \<and> rw_client (watch_at a i) = c" for a b js
    using that
  proof (induction js arbitrary: a b)
    case (Cons i js)
    have i: "i < length (rl_watch a)" "rw_client (watch_at a i) = c" using Cons.prems(3) by simp_all
    have "only_watches c (release_watch i True a) (release_watch i True b)"
      using Cons.prems(1,2) i by (intro only_watches_release) (simp_all add: relay_ok_def)
    then show ?case
      using Cons.IH [OF _ relay_release_ok [OF Cons.prems(2) i(1)]] Cons.prems(3) by (simp add: release_replays release_gone)
  qed simp
  moreover have "only_watches c h (h\<lparr>rl_watches := AList.delete c (rl_watches h)\<rparr>)"
    by (auto simp: only_watches_def watches_of_def)
  ultimately show "only_watches c k l" unfolding k_def l_def using ok mem by blast
qed

lemma books_evict: "same_books h (evict_pages h)"
  unfolding evict_pages_def Let_def by (rule same_books_trans [OF books_pages books_drop(1)]) simp_all

text \<open>What is left of the relay when a socket's watches were given back, with its page still to be closed.\<close>

definition give_all_back :: "nat \<Rightarrow> relay \<Rightarrow> relay" where
  "give_all_back c h = foldl (\<lambda>h i. release_watch i True h) (h\<lparr>rl_watches := AList.delete c (rl_watches h)\<rparr>) (map snd (watches_of c h))"

lemma books_close: "same_books (give_all_back c h) (forget_client c h)"
proof -
  define k where "k = give_all_back c h"
  have "same_books k (evict_pages ((set_page name p k)\<lparr>rl_closed := x\<rparr>))" for name p x
    by (rule same_books_trans [OF same_books_trans [OF books_drop(2) books_pages] books_evict]) simp_all
  then show ?thesis
    by (simp add: forget_client_def Let_def give_all_back_def [symmetric] k_def [symmetric] split: option.split)
qed

lemma give_all_back_ok:
  assumes "relay_ok h"
  shows "relay_ok (give_all_back c h)" "watches_of c (give_all_back c h) = []"
proof -
  define k where "k = foldl (\<lambda>h i. release_watch i True h) h (map snd (watches_of c h))"
  have f: "only_watches c k (give_all_back c h)" "watches_of c k = []" "relay_ok k"
    using forget_watches [OF assms, of c] by (simp_all add: k_def give_all_back_def)
  show "watches_of c (give_all_back c h) = []" using f(1) by (simp add: only_watches_def)
  have "watches_of d (give_all_back c h) = watches_of d k" for d
    using f(1,2) by (cases "d = c") (auto simp: only_watches_def)
  moreover obtain ws where ws: "give_all_back c h = k\<lparr>rl_watches := ws\<rparr>" using f(1) by (auto simp: only_watches_def)
  ultimately have "same_books k (give_all_back c h)"
    by (intro same_booksI) (simp_all add: same_core_def)
  then show "relay_ok (give_all_back c h)" by (rule same_books_ok [OF _ f(3)])
qed

lemma forget_ok: "relay_ok h \<Longrightarrow> relay_ok (forget_client c h)"
  by (rule same_books_ok [OF books_close give_all_back_ok(1)])

section \<open>Every event\<close>

lemma relay_step_ok: "relay_ok h \<Longrightarrow> relay_ok (relay_step h e)"
  by (cases e)
    (simp_all add: relay_step_def relay_subscribe_ok relay_unsubscribe_ok reports_ok forget_ok answer_ok
      same_books_ok [OF books_put] same_books_ok [OF books_hello] same_books_ok [OF books_note_start]
      same_books_ok [OF books_deliver] same_books_ok [OF books_connection])

interpretation relays: event_machine relay_step relay_ok
  by unfold_locales (rule relay_step_ok)

end
