(* ===== verification/Relay_Puts.thy ===== *)
theory Relay_Puts
  imports Relay_Steps
begin

text \<open>
  What the hub borrows from its servers: a subscription stands exactly while some client watches.  Only a
  subscribe that was not answered by a subscription can leave one standing that nobody watches.
\<close>

section \<open>What is put to a server\<close>

fun put_on :: "upstream_key \<Rightarrow> bool \<Rightarrow> jstr \<times> stream_instruction \<Rightarrow> bool" where
  "put_on key stood (registration, Put_Subscribe aimed) = (stood \<or> (registration, aimed) = key)"
| "put_on key stood (registration, Put_Unsubscribe aimed) = (stood \<and> (registration, aimed) \<noteq> key)"
| "put_on key stood (registration, _) = stood"

definition stands :: "upstream_key \<Rightarrow> relay \<Rightarrow> bool" where
  "stands key h \<longleftrightarrow> foldl (put_on key) False (rl_put h)"

definition filed :: "upstream_key \<Rightarrow> relay \<Rightarrow> bool" where
  "filed key h \<longleftrightarrow> map_of (rl_upstreams h) key \<noteq> None"

text \<open>With \<open>strict\<close>, nothing stands that is not filed.\<close>

definition settled :: "bool \<Rightarrow> relay \<Rightarrow> bool" where
  "settled strict h \<longleftrightarrow> (\<forall>key. (filed key h \<longrightarrow> stands key h) \<and> (strict \<longrightarrow> stands key h \<longrightarrow> filed key h))"

lemma settled_same:
  assumes "rl_upstreams k = rl_upstreams h" and "rl_put k = rl_put h"
  shows "settled strict k = settled strict h"
  using assms by (simp add: settled_def filed_def stands_def)

lemma stands_ask [simp]:
  "stands key (ask_server r f x h) = put_on key (stands key h) (r, f)" "filed key (ask_server r f x h) = filed key h"
  by (simp_all add: stands_def filed_def)



section \<open>Steps that put nothing that counts\<close>

lemma puts_claim [simp]:
  "rl_put (claim_history u claim n h) = rl_put h" "rl_upstreams (claim_history u claim n h) = rl_upstreams h"
  by (simp_all add: claim_history_def)

lemma puts_end [simp]: "rl_put (end_watch i reason h) = rl_put h" "rl_upstreams (end_watch i reason h) = rl_upstreams h"
  by (simp_all add: end_watch_def Let_def)

lemma puts_relay_to [simp]: "rl_put (relay_to i out history behind h) = rl_put h"
  by (simp add: relay_to_def Let_def)




lemma puts_pages [simp]:
  "rl_put (drop_named made h) = rl_put h" "rl_put (set_page name p h) = rl_put h" "rl_put (send_named c handle became h) = rl_put h"
  by (simp_all add: drop_named_def set_page_def send_named_def)









section \<open>Every event\<close>

lemma settled_logs [simp]:
  "settled strict (send_client c f h) = settled strict h" "settled strict (refuse_client c reply p h) = settled strict h"
  "settled strict (end_watch i reason h) = settled strict h" "settled strict (claim_history u claim n h) = settled strict h"
  "settled strict (update_watch i g h) = settled strict h" "settled strict (set_watches c ws h) = settled strict h"
  "settled strict (h\<lparr>rl_flight := fl\<rparr>) = settled strict h" "settled strict (h\<lparr>rl_away := aw\<rparr>) = settled strict h"
  by (rule settled_same; simp add: refuse_client_def)+












section \<open>Subscriptions and their watches\<close>


text \<open>One machine with one session, and two clients that come and go.\<close>

definition one_machine :: fleet_snapshot where
  "one_machine =
     (let r = \<lparr>sr_registration = js ''m'', sr_label = js ''M'', sr_phase = Connected\<rparr>
      in \<lparr>fl_servers = [r], fl_stores = [\<lparr>ms_store = js ''st'', ms_servers = [r],
            ms_sessions = [\<lparr>rs_session = js ''s'', rs_holder = Some (js ''m''), rs_reported_by = [js ''m'']\<rparr>]\<rparr>]\<rparr>)"

definition on_session :: client_target where "on_session = Named_Session (js ''st'') (js ''s'')"

definition session_key :: upstream_key where "session_key = (js ''m'', By_Session (js ''st'') (js ''s''))"

definition two_viewers :: "relay_event list" where
  "two_viewers =
     [Watches 1 10 on_session one_machine, Watches 2 20 on_session one_machine,
      Answers 0 (Answered (Was_Subscribed (js ''st'') (Some (js ''s'')) 2 0)), Answers 1 (Answered (Was_Subscribed (js ''st'') (Some (js ''s'')) 0 0))]"


text \<open>
  A first subscribe that was not answered in time is given up with no detach, so a server that was only
  slow goes on being watched by nobody.
\<close>

lemma slow_subscribe_left_standing:
  "let h = run relay_step create_relay [Watches 1 10 on_session one_machine, Answers 0 Nothing_Said]
   in stands session_key h \<and> \<not> filed session_key h \<and> rl_sent h = [(1, To_Refusal 10 Server_Did_Not_Answer)]"
  by code_simp

text \<open>A closed client's entry comes back, empty, with the first watch that is given back.\<close>

lemma closed_client_kept:
  "map fst (rl_watches (run relay_step create_relay (two_viewers @ [Forgets 1, Forgets 2]))) = [1, 2]"
  by code_simp

end
