(* ===== verification/Relay_Output.thy ===== *)
theory Relay_Output
  imports Relay_Puts
begin

text \<open>
  Who is sent a chunk of output, and what: the fold over the matched upstreams is one description of
  the watches that take it (\<open>takes\<close>) and of those whose loss is counted (\<open>loses\<close>).
\<close>

section \<open>Who takes a chunk\<close>





definition one_lost :: "relay_watch \<Rightarrow> relay_watch" where
  "one_lost w = w\<lparr>rw_dropped := rw_dropped w + 1\<rparr>"






section \<open>A whole chunk\<close>

lemma one_lost_simps [simp]:
  "rw_client (one_lost w) = rw_client w" "rw_released (one_lost w) = rw_released w" "rw_attached (one_lost w) = rw_attached w"
  "rw_upstream (one_lost w) = rw_upstream w" "rw_dropped (one_lost w) = rw_dropped w + 1" "rw_start (one_lost w) = rw_start w"
  by (simp_all add: one_lost_def)










section \<open>A history sent twice\<close>

text \<open>
  A terminal watched by its start, and by its session by somebody else, is two subscriptions and one
  terminal.  The history the server replays for the second carries both names, so it is matched to the
  first as well, and the first viewer is sent it again as if the agent had just printed it.
\<close>

definition by_both_names :: "relay_event list" where
  "by_both_names =
     [Says_Hello 1 (js ''p''),
      Notes_Start 1 5 \<lparr>cs_registration = js ''m'', cs_start = js ''t'', cs_store = js ''st'', cs_session = None\<rparr>,
      Watches 1 10 (Start_Handle 5) one_machine, Answers 0 (Answered (Was_Subscribed (js ''st'') None 0 0)),
      Delivers (js ''m'') \<lparr>of_store = js ''st'', of_session = None, of_start = Some (js ''t''), of_chunk = js ''one'', of_dropped = 0\<rparr> [],
      Reports_Starts (js ''m'') (js ''st'') [(js ''t'', Some (js ''s''))],
      Watches 2 20 on_session one_machine, Answers 1 (Answered (Was_Subscribed (js ''st'') (Some (js ''s'')) 1 0)),
      Delivers (js ''m'') \<lparr>of_store = js ''st'', of_session = Some (js ''s''), of_start = Some (js ''t''), of_chunk = js ''one'', of_dropped = 0\<rparr> []]"

lemma history_sent_twice:
  "map (\<lambda>(c, frame). (c, case frame of To_Output store session start chunk dropped \<Rightarrow> Some chunk | _ \<Rightarrow> None))
     (filter (\<lambda>(c, frame). case frame of To_Output store session start chunk dropped \<Rightarrow> True | _ \<Rightarrow> False)
       (rl_sent (run relay_step create_relay by_both_names)))
   = [(1, Some (js ''one'')), (1, Some (js ''one'')), (2, Some (js ''one''))]"
  by code_simp

end
