(* ===== verification/Relay_Outage.thy ===== *)
theory Relay_Outage
  imports Relay_Output
begin

text \<open>What the watchers of a machine are told when it goes away, and what is asked of it when it is back.\<close>

section \<open>The subscriptions of one machine\<close>





section \<open>Gone\<close>





section \<open>Back again\<close>




section \<open>The two edges\<close>



text \<open>
  A failed answer to a subscribe made again is told even of a watch that its client gave back meanwhile,
  after the client was told that it is given back.
\<close>

lemma ended_after_given_back:
  "map snd (rl_sent (run relay_step create_relay
      [Watches 1 10 on_session one_machine, Answers 0 (Answered (Was_Subscribed (js ''st'') (Some (js ''s'')) 0 0)),
       Changes_Phase (js ''m'') Stale False, Changes_Phase (js ''m'') Connected False,
       Unwatches 1 11 on_session, Answers 1 (Refused_By_Server (js ''no such session''))]))
   = [To_Subscribed 10 (js ''st'') (Some (js ''s'')) None 0 0, To_Ended on_session Server_Dropped, To_Unsubscribed 11,
      To_Ended on_session Session_Over]"
  by code_simp

end
