(* ===== verification/Relay_Names.thy ===== *)
theory Relay_Names
  imports Relay_Outage
begin

text \<open>
  Pages and the starts they made: what the hub keeps of them, and who is told which session a start
  became.  Only the page that spawned a start is told, and it is told whatever the order of its hello, its
  start's reply and the report was.
\<close>

section \<open>The part of the relay that is about pages\<close>

definition is_named :: "nat \<times> client_frame \<Rightarrow> bool" where
  "is_named f \<longleftrightarrow> (case snd f of To_Named _ _ _ \<Rightarrow> True | _ \<Rightarrow> False)"

definition page_view ::
  "relay \<Rightarrow> (jstr \<times> page) list \<times> (nat \<times> jstr) list \<times> jstr list \<times> (jstr \<times> jstr \<times> jstr) list \<times> (nat \<times> client_frame) list" where
  "page_view h = (rl_instances h, rl_instance_of h, rl_closed h, rl_named h, filter is_named (rl_sent h))"

lemma view_updates [simp]:
  "page_view (update_watch i f h) = page_view h" "page_view (update_upstream u g h) = page_view h"
  "page_view (put_server r p h) = page_view h" "page_view (ask_server r p x h) = page_view h"
  "page_view (set_watches c ws h) = page_view h" "page_view (unbind v up h) = page_view h"
  "page_view (claim_history v claim n h) = page_view h"
  "page_view (h\<lparr>rl_upstreams := ups\<rparr>) = page_view h" "page_view (h\<lparr>rl_rebound := rb\<rparr>) = page_view h"
  "page_view (h\<lparr>rl_flight := fl\<rparr>) = page_view h" "page_view (h\<lparr>rl_away := aw\<rparr>) = page_view h"
  "page_view (h\<lparr>rl_watches := wss\<rparr>) = page_view h" "page_view (h\<lparr>rl_watch := wt\<rparr>) = page_view h"
  "page_view (h\<lparr>rl_upstream := us\<rparr>) = page_view h"
  by (simp_all add: page_view_def claim_history_def)

lemma view_send: "\<not> is_named (c, f) \<Longrightarrow> page_view (send_client c f h) = page_view h"
  by (simp add: page_view_def)

lemma view_refuse [simp]: "page_view (refuse_client c reply p h) = page_view h"
  by (simp add: refuse_client_def view_send is_named_def)

lemma view_end [simp]: "page_view (end_watch i reason h) = page_view h"
  by (simp add: end_watch_def Let_def view_send is_named_def)

lemma view_release [simp]: "page_view (release_watch i detach h) = page_view h"
  by (simp add: release_watch_def Let_def)

lemma view_relay_to [simp]: "page_view (relay_to i out history behind h) = page_view h"
  by (simp add: relay_to_def Let_def view_send is_named_def)

lemma view_fan_out [simp]: "page_view (fan_out out behind u h) = page_view h"
  by (auto simp: fan_out_def Let_def split: list.split option.split intro!: foldl_keeps [of page_view])

lemma view_deliver: "page_view (deliver_output registration out behind h) = page_view h"
  unfolding deliver_output_def by (rule foldl_keeps) simp

lemma view_stop [simp]: "page_view (stop_feeding reason h u) = page_view h"
  unfolding stop_feeding_def Let_def by (rule trans [OF foldl_keeps [of page_view]]) simp_all

lemma view_resubscribe [simp]: "page_view (resubscribe h u) = page_view h"
  unfolding resubscribe_def Let_def by (rule foldl_keeps) simp

lemma view_connection: "page_view (note_connection registration phase draining h) = page_view h"
  using foldl_keeps [of page_view "stop_feeding (if draining then Server_Draining else Server_Dropped)"] foldl_keeps [of page_view resubscribe]
  by (simp add: note_connection_def)

lemma view_subscribe: "page_view (subscribe_client c reply asked fleet h) = page_view h"
proof (cases rule: subscribe_shape [of c reply asked fleet h])
  case (refused problem)
  show ?thesis unfolding refused by simp
next
  case (taken registration aimed u up w)
  show ?thesis unfolding taken(5) by simp
qed

lemma view_unsubscribe: "page_view (unsubscribe_client c reply asked h) = page_view h"
  by (auto simp: unsubscribe_client_def Let_def view_send is_named_def split: option.split)

lemma view_put: "page_view (put_client c reply asked frame fleet h) = page_view h"
  by (auto simp: put_client_def split: sum.split)

lemma view_failed [simp]: "page_view (attach_failed i again problem gone h) = page_view h"
  by (simp add: attach_failed_def)

lemma view_answer: "page_view (answer_flight k result h) = page_view h"
  by (auto simp: answer_flight_def Let_def attach_to_def answer_put_def view_send is_named_def
      split: option.split flight.split stream_result.split server_answer.split)

lemma view_rebind [simp]: "page_view (rebind_start registration store start session h) = page_view h"
  by (auto simp: rebind_start_def Let_def split: option.split)

lemma view_give_back: "page_view (give_all_back c h) = page_view h"
  unfolding give_all_back_def by (rule trans [OF foldl_keeps [of page_view]]) simp_all

section \<open>What holds of pages\<close>

text \<open>The starts of a page never outlive its bound, and a page without a socket is one of the closed.\<close>

definition pages_bounded :: "relay \<Rightarrow> bool" where
  "pages_bounded h \<longleftrightarrow> distinct (map fst (rl_instances h)) \<and> distinct (rl_closed h) \<and> length (rl_closed h) \<le> max_closed_instances
   \<and> (\<forall>page p. map_of (rl_instances h) page = Some p \<longrightarrow>
        distinct (map fst (pg_starts p)) \<and> length (pg_starts p) \<le> max_starts_per_instance)
   \<and> (\<forall>page. page \<in> set (rl_closed h) \<longleftrightarrow> (\<exists>p. map_of (rl_instances h) page = Some p \<and> pg_socket p = None))"

text \<open>A start of a page was made over a socket of it, and a naming was reported.\<close>

definition said_hello :: "relay_event list \<Rightarrow> nat \<Rightarrow> jstr \<Rightarrow> bool" where
  "said_hello es c page \<longleftrightarrow> Says_Hello c page \<in> set es"

definition made_by :: "relay_event list \<Rightarrow> jstr \<Rightarrow> nat \<Rightarrow> client_start \<Rightarrow> bool" where
  "made_by es page handle start \<longleftrightarrow> (\<exists>c. Notes_Start c handle start \<in> set es \<and> said_hello es c page)"

definition reported_as :: "relay_event list \<Rightarrow> jstr \<Rightarrow> jstr \<Rightarrow> jstr \<Rightarrow> bool" where
  "reported_as es start store session \<longleftrightarrow>
     (\<exists>registration reported. Reports_Starts registration store reported \<in> set es \<and> (start, Some session) \<in> set reported)"

definition pages_true :: "relay_event list \<Rightarrow> relay \<Rightarrow> bool" where
  "pages_true es h \<longleftrightarrow>
     (\<forall>c page. map_of (rl_instance_of h) c = Some page \<longrightarrow> said_hello es c page)
   \<and> (\<forall>page p. map_of (rl_instances h) page = Some p \<longrightarrow>
        (\<forall>c. pg_socket p = Some c \<longrightarrow> said_hello es c page)
      \<and> (\<forall>(handle, start) \<in> set (pg_starts p). made_by es page handle start))
   \<and> (\<forall>start store session. map_of (rl_named h) start = Some (store, session) \<longrightarrow> reported_as es start store session)
   \<and> (\<forall>c handle store session. (c, To_Named handle store session) \<in> set (rl_sent h) \<longrightarrow>
        (\<exists>page start. said_hello es c page \<and> made_by es page handle start \<and> cs_session start = None
           \<and> reported_as es (cs_start start) store session))"

text \<open>No two starts share an id: a start id is minted for one start.\<close>

definition starts_apart :: "relay \<Rightarrow> bool" where
  "starts_apart h \<longleftrightarrow> (\<forall>page p page' p' handle start handle' start'.
     map_of (rl_instances h) page = Some p \<and> map_of (rl_instances h) page' = Some p'
     \<and> (handle, start) \<in> set (pg_starts p) \<and> (handle', start') \<in> set (pg_starts p') \<and> cs_start start = cs_start start'
     \<longrightarrow> page = page' \<and> handle = handle')"

definition pages_told :: "relay \<Rightarrow> bool" where
  "pages_told h \<longleftrightarrow> (\<forall>page p c handle start store session.
     map_of (rl_instances h) page = Some p \<and> pg_socket p = Some c \<and> (handle, start) \<in> set (pg_starts p)
     \<and> cs_session start = None \<and> map_of (rl_named h) (cs_start start) = Some (store, session)
     \<longrightarrow> (c, To_Named handle store session) \<in> set (rl_sent h))"

definition starts_noted :: "relay_event list \<Rightarrow> jstr list" where
  "starts_noted es = concat (map (\<lambda>e. case e of Notes_Start c handle start \<Rightarrow> [cs_start start] | _ \<Rightarrow> []) es)"

definition pages_ok :: "relay_event list \<Rightarrow> relay \<Rightarrow> bool" where
  "pages_ok es h \<longleftrightarrow> pages_bounded h \<and> pages_true es h \<and> (distinct (starts_noted es) \<longrightarrow> starts_apart h \<and> pages_told h)"

lemma view_ok:
  assumes "page_view k = page_view h"
  shows "pages_bounded k = pages_bounded h" "pages_true es k = pages_true es h" "starts_apart k = starts_apart h" "pages_told k = pages_told h"
proof -
  have f: "rl_instances k = rl_instances h" "rl_instance_of k = rl_instance_of h" "rl_closed k = rl_closed h" "rl_named k = rl_named h"
    and "filter is_named (rl_sent k) = filter is_named (rl_sent h)"
    using assms by (simp_all add: page_view_def)
  then have "(c, To_Named handle store session) \<in> set (filter is_named (rl_sent k)) \<longleftrightarrow> (c, To_Named handle store session) \<in> set (filter is_named (rl_sent h))"
    for c handle store session by (simp only:)
  then have n: "(c, To_Named handle store session) \<in> set (rl_sent k) \<longleftrightarrow> (c, To_Named handle store session) \<in> set (rl_sent h)" for c handle store session
    by (simp add: is_named_def)
  show "pages_bounded k = pages_bounded h" "pages_true es k = pages_true es h" "starts_apart k = starts_apart h" "pages_told k = pages_told h"
    unfolding pages_bounded_def pages_true_def starts_apart_def pages_told_def f n by (rule refl)+
qed

lemma starts_noted_append [simp]: "starts_noted (es @ fs) = starts_noted es @ starts_noted fs"
  by (simp add: starts_noted_def)

lemma noted_start: "made_by es page handle start \<Longrightarrow> cs_start start \<in> set (starts_noted es)"
  by (force simp: made_by_def starts_noted_def)

lemma true_more:
  assumes "pages_true es h" and "set es \<subseteq> set fs"
  shows "pages_true fs h"
proof -
  have m: "said_hello es c page \<Longrightarrow> said_hello fs c page" "made_by es page handle start \<Longrightarrow> made_by fs page handle start"
    "reported_as es s store session \<Longrightarrow> reported_as fs s store session" for c page handle start s store session
    using assms(2) unfolding said_hello_def made_by_def reported_as_def by blast+
  show ?thesis
    unfolding pages_true_def
  proof (intro conjI allI impI)
    show "said_hello fs c page" if "map_of (rl_instance_of h) c = Some page" for c page
      using that assms(1) m(1) unfolding pages_true_def by blast
    show "said_hello fs c page" if "map_of (rl_instances h) page = Some p" "pg_socket p = Some c" for page p c
      using that assms(1) m(1) unfolding pages_true_def by blast
    show "\<forall>(handle, start) \<in> set (pg_starts p). made_by fs page handle start" if "map_of (rl_instances h) page = Some p" for page p
      using that assms(1) m(2) unfolding pages_true_def by fast
    show "reported_as fs start store session" if "map_of (rl_named h) start = Some (store, session)" for start store session
      using that assms(1) m(3) unfolding pages_true_def by blast
    show "\<exists>page start. said_hello fs c page \<and> made_by fs page handle start \<and> cs_session start = None
           \<and> reported_as fs (cs_start start) store session"
      if sent: "(c, To_Named handle store session) \<in> set (rl_sent h)" for c handle store session
    proof -
      obtain page start where "said_hello es c page" "made_by es page handle start" "cs_session start = None"
          "reported_as es (cs_start start) store session"
        using sent assms(1) unfolding pages_true_def by blast
      then show ?thesis using m by blast
    qed
  qed
qed

lemma pages_trueD:
  assumes "pages_true es h"
  shows "map_of (rl_instance_of h) c = Some page \<Longrightarrow> said_hello es c page"
    "map_of (rl_instances h) page = Some p \<Longrightarrow> pg_socket p = Some c \<Longrightarrow> said_hello es c page"
    "map_of (rl_instances h) page = Some p \<Longrightarrow> (handle, start) \<in> set (pg_starts p) \<Longrightarrow> made_by es page handle start"
    "map_of (rl_named h) s = Some (store, session) \<Longrightarrow> reported_as es s store session"
    "(c, To_Named handle store session) \<in> set (rl_sent h) \<Longrightarrow>
        \<exists>page start. said_hello es c page \<and> made_by es page handle start \<and> cs_session start = None
           \<and> reported_as es (cs_start start) store session"
  using assms unfolding pages_true_def by fast+

lemma pages_boundedD:
  assumes "pages_bounded h"
  shows "distinct (map fst (rl_instances h))" "distinct (rl_closed h)" "length (rl_closed h) \<le> max_closed_instances"
    "map_of (rl_instances h) page = Some p \<Longrightarrow> distinct (map fst (pg_starts p))"
    "map_of (rl_instances h) page = Some p \<Longrightarrow> length (pg_starts p) \<le> max_starts_per_instance"
    "page \<in> set (rl_closed h) \<longleftrightarrow> (\<exists>p. map_of (rl_instances h) page = Some p \<and> pg_socket p = None)"
  using assms unfolding pages_bounded_def by blast+

lemma apartD:
  assumes "starts_apart h" "map_of (rl_instances h) page = Some p" "map_of (rl_instances h) page' = Some p'"
    "(handle, start) \<in> set (pg_starts p)" "(handle', start') \<in> set (pg_starts p')" "cs_start start = cs_start start'"
  shows "page = page' \<and> handle = handle'"
  using assms unfolding starts_apart_def by blast

lemma toldD:
  assumes "pages_told h" "map_of (rl_instances h) page = Some p" "pg_socket p = Some c" "(handle, start) \<in> set (pg_starts p)"
    "cs_session start = None" "map_of (rl_named h) (cs_start start) = Some (store, session)"
  shows "(c, To_Named handle store session) \<in> set (rl_sent h)"
  using assms unfolding pages_told_def by blast

lemma apart_sub:
  assumes ap: "starts_apart h"
    and was: "\<And>q p x. map_of (rl_instances k) q = Some p \<Longrightarrow> x \<in> set (pg_starts p) \<Longrightarrow>
      \<exists>p'. map_of (rl_instances h) q = Some p' \<and> x \<in> set (pg_starts p')"
  shows "starts_apart k"
  unfolding starts_apart_def
proof (intro allI impI, elim conjE)
  fix page p page' p' handle start handle' start'
  assume a: "map_of (rl_instances k) page = Some p" "map_of (rl_instances k) page' = Some p'" "(handle, start) \<in> set (pg_starts p)"
    "(handle', start') \<in> set (pg_starts p')" "cs_start start = cs_start start'"
  obtain q q' where "map_of (rl_instances h) page = Some q" "(handle, start) \<in> set (pg_starts q)"
      "map_of (rl_instances h) page' = Some q'" "(handle', start') \<in> set (pg_starts q')"
    using was [OF a(1,3)] was [OF a(2,4)] by blast
  then show "page = page' \<and> handle = handle'" using apartD [OF ap] a(5) by blast
qed

lemma update_subset: "set (AList.update k v xs) \<subseteq> insert (k, v) (set xs)"
  by (induction xs) auto

section \<open>A hello\<close>

lemma hello_sends:
  fixes h :: relay and c :: nat and xs :: "(nat \<times> client_start) list"
  defines "k \<equiv> foldl (\<lambda>h (handle, start). case became_of h start of None \<Rightarrow> h | Some became \<Rightarrow> send_named c handle became h) h xs"
  shows "rl_instances k = rl_instances h \<and> rl_instance_of k = rl_instance_of h \<and> rl_closed k = rl_closed h \<and> rl_named k = rl_named h
    \<and> (\<forall>f. f \<in> set (rl_sent k) \<longleftrightarrow> f \<in> set (rl_sent h) \<or> (\<exists>(handle, start) \<in> set xs. \<exists>store session.
          became_of h start = Some (store, session) \<and> f = (c, To_Named handle store session)))"
  unfolding k_def
proof (induction xs arbitrary: h)
  case (Cons x xs)
  obtain handle start where x: "x = (handle, start)" by (cases x)
  define h1 where "h1 = (case became_of h start of None \<Rightarrow> h | Some became \<Rightarrow> send_named c handle became h)"
  have same: "rl_instances h1 = rl_instances h" "rl_instance_of h1 = rl_instance_of h" "rl_closed h1 = rl_closed h" "rl_named h1 = rl_named h"
    by (simp_all add: h1_def send_named_def split: option.split)
  have b: "became_of h1 = became_of h" by (simp add: became_of_def same fun_eq_iff)
  have "f \<in> set (rl_sent h1) \<longleftrightarrow> f \<in> set (rl_sent h) \<or>
      (\<exists>store session. became_of h start = Some (store, session) \<and> f = (c, To_Named handle store session))" for f
    by (cases "became_of h start") (auto simp: h1_def send_named_def)
  then show ?case using Cons.IH [of h1] by (simp add: x h1_def [symmetric] same b)
qed simp

lemma hello_ok:
  assumes "pages_ok es h"
  shows "pages_ok (es @ [Says_Hello c page]) (says_hello c page h)"
proof -
  define k where "k = says_hello c page h"
  define p0 where "p0 = (case map_of (rl_instances h) page of None \<Rightarrow> \<lparr>pg_socket = Some c, pg_starts = []\<rparr> | Some p \<Rightarrow> p\<lparr>pg_socket := Some c\<rparr>)"
  define h1 where "h1 = set_page page p0 (h\<lparr>rl_instance_of := AList.update c page (rl_instance_of h), rl_closed := removeAll page (rl_closed h)\<rparr>)"
  have k: "k = foldl (\<lambda>h (handle, start). case became_of h start of None \<Rightarrow> h | Some became \<Rightarrow> send_named c handle became h) h1 (pg_starts p0)"
    by (simp add: k_def says_hello_def Let_def h1_def p0_def)
  have h1: "rl_named h1 = rl_named h" "rl_sent h1 = rl_sent h" "rl_instances h1 = AList.update page p0 (rl_instances h)"
      "rl_instance_of h1 = AList.update c page (rl_instance_of h)" "rl_closed h1 = removeAll page (rl_closed h)"
    by (simp_all add: h1_def set_page_def)
  have f: "rl_instances k = AList.update page p0 (rl_instances h)" "rl_instance_of k = AList.update c page (rl_instance_of h)"
      "rl_closed k = removeAll page (rl_closed h)" "rl_named k = rl_named h"
      "fr \<in> set (rl_sent k) \<longleftrightarrow> fr \<in> set (rl_sent h) \<or> (\<exists>(handle, start) \<in> set (pg_starts p0). \<exists>store session.
          became_of h1 start = Some (store, session) \<and> fr = (c, To_Named handle store session))" for fr
    using hello_sends [of c h1 "pg_starts p0"] unfolding k h1 by blast+
  have inst: "map_of (rl_instances k) q = (if q = page then Some p0 else map_of (rl_instances h) q)" for q
    by (simp add: f update_conv')
  have p0: "pg_socket p0 = Some c" "pg_starts p0 = (case map_of (rl_instances h) page of None \<Rightarrow> [] | Some p \<Rightarrow> pg_starts p)"
    by (simp_all add: p0_def split: option.split)
  have old: "\<exists>p. map_of (rl_instances h) page = Some p \<and> x \<in> set (pg_starts p)" if "x \<in> set (pg_starts p0)" for x
    using that by (cases "map_of (rl_instances h) page") (simp_all add: p0)
  have b: "pages_bounded h" and t: "pages_true (es @ [Says_Hello c page]) h"
    using assms true_more [of es h "es @ [Says_Hello c page]"] by (auto simp: pages_ok_def)
  have here: "said_hello (es @ [Says_Hello c page]) c page" by (simp add: said_hello_def)
  have "pages_bounded k"
    unfolding pages_bounded_def
  proof (intro conjI allI impI)
    show "distinct (map fst (rl_instances k))" using pages_boundedD(1) [OF b] by (simp add: f distinct_update)
    show "distinct (rl_closed k)" using pages_boundedD(2) [OF b] by (simp add: f distinct_removeAll)
    show "length (rl_closed k) \<le> max_closed_instances"
      using pages_boundedD(3) [OF b] le_trans [OF length_filter_le] by (simp add: f removeAll_filter_not_eq)
    show "distinct (map fst (pg_starts p))" "length (pg_starts p) \<le> max_starts_per_instance" if "map_of (rl_instances k) q = Some p" for q p
      using that pages_boundedD(4,5) [OF b] p0 by (auto simp: inst split: if_splits option.splits)
    show "q \<in> set (rl_closed k) \<longleftrightarrow> (\<exists>p. map_of (rl_instances k) q = Some p \<and> pg_socket p = None)" for q
      using pages_boundedD(6) [OF b, of q] p0(1) by (auto simp: f(3) inst)
  qed
  moreover have "pages_true (es @ [Says_Hello c page]) k"
    unfolding pages_true_def
  proof (intro conjI allI impI)
    show "said_hello (es @ [Says_Hello c page]) d q" if "map_of (rl_instance_of k) d = Some q" for d q
      using that pages_trueD(1) [OF t] here by (auto simp: f(2) update_conv' split: if_splits)
    show "said_hello (es @ [Says_Hello c page]) d q" if "map_of (rl_instances k) q = Some p" "pg_socket p = Some d" for q p d
      using that pages_trueD(2) [OF t] here p0(1) by (auto simp: inst split: if_splits)
    show "\<forall>(handle, start) \<in> set (pg_starts p). made_by (es @ [Says_Hello c page]) q handle start" if "map_of (rl_instances k) q = Some p" for q p
      using that pages_trueD(3) [OF t] old by (fastforce simp: inst split: if_splits)
    show "reported_as (es @ [Says_Hello c page]) start store session" if "map_of (rl_named k) start = Some (store, session)" for start store session
      using that pages_trueD(4) [OF t] by (simp add: f(4))
    show "\<exists>q start. said_hello (es @ [Says_Hello c page]) d q \<and> made_by (es @ [Says_Hello c page]) q handle start \<and> cs_session start = None
           \<and> reported_as (es @ [Says_Hello c page]) (cs_start start) store session"
      if sent: "(d, To_Named handle store session) \<in> set (rl_sent k)" for d handle store session
    proof (cases "(d, To_Named handle store session) \<in> set (rl_sent h)")
      case False
      then obtain start where s: "(handle, start) \<in> set (pg_starts p0)" "became_of h1 start = Some (store, session)" "d = c"
        using sent by (auto simp: f(5))
      have "cs_session start = None" "map_of (rl_named h) (cs_start start) = Some (store, session)"
        using s(2) by (simp_all add: became_of_def h1 split: if_splits)
      moreover have "made_by (es @ [Says_Hello c page]) page handle start" using old [OF s(1)] pages_trueD(3) [OF t] by blast
      ultimately show ?thesis using pages_trueD(4) [OF t] here s(3) by blast
    qed (rule pages_trueD(5) [OF t])
  qed
  moreover have "starts_apart k \<and> pages_told k" if "distinct (starts_noted (es @ [Says_Hello c page]))"
  proof
    have ap: "starts_apart h" and td: "pages_told h" using assms that by (simp_all add: pages_ok_def starts_noted_def)
    have was: "\<exists>p'. map_of (rl_instances h) q = Some p' \<and> x \<in> set (pg_starts p')" if "map_of (rl_instances k) q = Some p" "x \<in> set (pg_starts p)" for q p x
      using that old by (auto simp: inst split: if_splits)
    show "starts_apart k" by (rule apart_sub [OF ap was])
    show "pages_told k"
      unfolding pages_told_def
    proof (intro allI impI, elim conjE)
      fix q p d handle start store session
      assume q: "map_of (rl_instances k) q = Some p" and d: "pg_socket p = Some d" and s: "(handle, start) \<in> set (pg_starts p)"
        and n: "cs_session start = None" and m: "map_of (rl_named k) (cs_start start) = Some (store, session)"
      show "(d, To_Named handle store session) \<in> set (rl_sent k)"
      proof (cases "q = page")
        case True
        then have "p = p0" "d = c" using q d p0(1) by (simp_all add: inst)
        moreover have "became_of h1 start = Some (store, session)" using n m by (simp add: became_of_def h1 f(4))
        ultimately show ?thesis using s by (auto simp: f(5))
      next
        case False
        then show ?thesis using toldD [OF td _ d s n] q m by (simp add: inst f(4,5))
      qed
    qed
  qed
  ultimately show ?thesis by (simp add: pages_ok_def k_def)
qed

section \<open>A start noted\<close>

lemma pages_trueI:
  assumes "\<And>c page. map_of (rl_instance_of h) c = Some page \<Longrightarrow> said_hello es c page"
    and "\<And>page p c. map_of (rl_instances h) page = Some p \<Longrightarrow> pg_socket p = Some c \<Longrightarrow> said_hello es c page"
    and "\<And>page p handle start. map_of (rl_instances h) page = Some p \<Longrightarrow> (handle, start) \<in> set (pg_starts p) \<Longrightarrow> made_by es page handle start"
    and "\<And>s store session. map_of (rl_named h) s = Some (store, session) \<Longrightarrow> reported_as es s store session"
    and "\<And>c handle store session. (c, To_Named handle store session) \<in> set (rl_sent h) \<Longrightarrow>
        \<exists>page start. said_hello es c page \<and> made_by es page handle start \<and> cs_session start = None
           \<and> reported_as es (cs_start start) store session"
  shows "pages_true es h"
  unfolding pages_true_def using assms by (intro conjI allI impI ballI) blast+

lemma pages_toldI:
  assumes "\<And>page p c handle start store session. map_of (rl_instances h) page = Some p \<Longrightarrow> pg_socket p = Some c \<Longrightarrow>
      (handle, start) \<in> set (pg_starts p) \<Longrightarrow> cs_session start = None \<Longrightarrow> map_of (rl_named h) (cs_start start) = Some (store, session) \<Longrightarrow>
      (c, To_Named handle store session) \<in> set (rl_sent h)"
  shows "pages_told h"
  unfolding pages_told_def using assms by blast

lemma map_of_filter_keys: "map_of (filter (\<lambda>(a, b). P a) xs) x = (if P x then map_of xs x else None)"
  by (induction xs) auto

lemma named_drop: "map_of (rl_named (drop_named made h)) s = (if s \<in> cs_start ` set made then None else map_of (rl_named h) s)"
  using map_of_filter_keys [of "\<lambda>s. s \<notin> cs_start ` set made" "rl_named h" s] by (simp add: drop_named_def)

lemma drop_named_simps [simp]:
  "rl_instances (drop_named made h) = rl_instances h" "rl_instance_of (drop_named made h) = rl_instance_of h"
  "rl_closed (drop_named made h) = rl_closed h" "rl_sent (drop_named made h) = rl_sent h"
  by (simp_all add: drop_named_def)

lemma noted_nothing:
  assumes "pages_ok es h"
  shows "pages_ok (es @ [e]) h"
proof -
  have "pages_true (es @ [e]) h" using assms true_more [of es h "es @ [e]"] by (auto simp: pages_ok_def)
  then show ?thesis using assms by (simp add: pages_ok_def)
qed

lemma relay_note_start_ok:
  assumes ok: "pages_ok es h"
  shows "pages_ok (es @ [Notes_Start c handle start]) (note_client_start c handle start h)"
proof (cases "page_of c h")
  case None
  then have "note_client_start c handle start h = h" by (auto simp: note_client_start_def page_of_def split: option.splits)
  then show ?thesis using noted_nothing [OF ok] by simp
next
  case (Some p)
  then obtain page where pg: "map_of (rl_instance_of h) c = Some page" "map_of (rl_instances h) page = Some p"
    by (auto simp: page_of_def split: option.splits)
  define fs where "fs = es @ [Notes_Start c handle start]"
  define starts where "starts = AList.update handle start (pg_starts p)"
  define over where "over = length starts - max_starts_per_instance"
  define kept where "kept = drop over starts"
  define k1 where "k1 = drop_named (map snd (take over starts)) (set_page page (p\<lparr>pg_starts := kept\<rparr>) h)"
  define k where "k = note_client_start c handle start h"
  have k: "k = (case became_of k1 start of None \<Rightarrow> k1
      | Some became \<Rightarrow> (case pg_socket p of None \<Rightarrow> k1 | Some socket \<Rightarrow> send_named socket handle became k1))"
    by (simp add: k_def note_client_start_def pg Let_def starts_def over_def k1_def kept_def cong: option.case_cong)
  have k1: "rl_instances k1 = AList.update page (p\<lparr>pg_starts := kept\<rparr>) (rl_instances h)" "rl_instance_of k1 = rl_instance_of h"
      "rl_closed k1 = rl_closed h" "rl_sent k1 = rl_sent h"
    by (simp_all add: k1_def set_page_def)
  have f: "rl_instances k = rl_instances k1" "rl_instance_of k = rl_instance_of k1" "rl_closed k = rl_closed k1" "rl_named k = rl_named k1"
    by (simp_all add: k send_named_def split: option.split)
  have inst: "map_of (rl_instances k) q = (if q = page then Some (p\<lparr>pg_starts := kept\<rparr>) else map_of (rl_instances h) q)" for q
    by (simp add: f k1 update_conv')
  have nm: "map_of (rl_named h) s = Some x" if "map_of (rl_named k) s = Some x" for s x
    using that by (simp add: f k1_def named_drop set_page_def split: if_splits)
  have sent: "fr \<in> set (rl_sent k) \<longleftrightarrow> fr \<in> set (rl_sent h) \<or>
      (\<exists>store session socket. became_of k1 start = Some (store, session) \<and> pg_socket p = Some socket \<and> fr = (socket, To_Named handle store session))" for fr
    by (cases "became_of k1 start"; cases "pg_socket p") (auto simp: k k1 send_named_def)
  have kept: "set kept \<subseteq> insert (handle, start) (set (pg_starts p))"
    using update_subset [of handle start "pg_starts p"] set_drop_subset [of over starts] by (auto simp: kept_def starts_def)
  have b: "pages_bounded h" and t: "pages_true fs h" and t0: "pages_true es h"
    using ok true_more [of es h fs] by (auto simp: pages_ok_def fs_def)
  have here: "made_by fs page handle start"
    using pages_trueD(1) [OF t pg(1)] by (auto simp: made_by_def fs_def)
  have "pages_bounded k"
    unfolding pages_bounded_def
  proof (intro conjI allI impI)
    show "distinct (map fst (rl_instances k))" using pages_boundedD(1) [OF b] by (simp add: f k1 distinct_update)
    show "distinct (rl_closed k)" "length (rl_closed k) \<le> max_closed_instances" using pages_boundedD(2,3) [OF b] by (simp_all add: f k1)
    show "distinct (map fst (pg_starts q))" "length (pg_starts q) \<le> max_starts_per_instance" if "map_of (rl_instances k) x = Some q" for x q
      using that pages_boundedD(4,5) [OF b, of x q] pages_boundedD(4) [OF b pg(2)]
      by (auto simp: inst kept_def starts_def over_def distinct_update distinct_drop drop_map [symmetric] split: if_splits)
    show "x \<in> set (rl_closed k) \<longleftrightarrow> (\<exists>q. map_of (rl_instances k) x = Some q \<and> pg_socket q = None)" for x
      using pages_boundedD(6) [OF b, of x] pg(2) by (auto simp: f(3) k1(3) inst)
  qed
  moreover have "pages_true fs k"
  proof (rule pages_trueI)
    show "said_hello fs d q" if "map_of (rl_instance_of k) d = Some q" for d q
      using that pages_trueD(1) [OF t] by (simp add: f k1)
    show "said_hello fs d q" if "map_of (rl_instances k) q = Some r" "pg_socket r = Some d" for q r d
      using that pages_trueD(2) [OF t, of q] pg(2) by (auto simp: inst split: if_splits)
    show "made_by fs q n s" if "map_of (rl_instances k) q = Some r" "(n, s) \<in> set (pg_starts r)" for q r n s
      using that pages_trueD(3) [OF t, of q] pg(2) here kept by (auto simp: inst split: if_splits)
    show "reported_as fs s store session" if "map_of (rl_named k) s = Some (store, session)" for s store session
      using pages_trueD(4) [OF t nm [OF that]] .
    show "\<exists>q s. said_hello fs d q \<and> made_by fs q n s \<and> cs_session s = None \<and> reported_as fs (cs_start s) store session"
      if m: "(d, To_Named n store session) \<in> set (rl_sent k)" for d n store session
    proof (cases "(d, To_Named n store session) \<in> set (rl_sent h)")
      case False
      then have s: "became_of k1 start = Some (store, session)" "pg_socket p = Some d" "n = handle" using m by (auto simp: sent)
      then have "cs_session start = None" "map_of (rl_named k) (cs_start start) = Some (store, session)"
        by (simp_all add: became_of_def f split: if_splits)
      then show ?thesis
        using here s(3) pages_trueD(2) [OF t pg(2) s(2)] pages_trueD(4) [OF t nm] by blast
    qed (rule pages_trueD(5) [OF t])
  qed
  moreover have "starts_apart k \<and> pages_told k" if d: "distinct (starts_noted fs)"
  proof
    have ap: "starts_apart h" and td: "pages_told h" using ok d by (simp_all add: pages_ok_def fs_def)
    have fresh: "cs_start start \<notin> set (starts_noted es)" using d by (simp add: fs_def) (simp add: starts_noted_def)
    have was: "(q = page \<and> n = handle \<and> s = start) \<or> (\<exists>r'. map_of (rl_instances h) q = Some r' \<and> (n, s) \<in> set (pg_starts r'))"
      if "map_of (rl_instances k) q = Some r" "(n, s) \<in> set (pg_starts r)" for q r n s
      using that kept pg(2) by (auto simp: inst split: if_splits)
    have old: "cs_start s \<noteq> cs_start start" if "map_of (rl_instances h) q = Some r" "(n, s) \<in> set (pg_starts r)" for q r n s
      using noted_start [OF pages_trueD(3) [OF t0 that]] fresh by auto
    show "starts_apart k"
      unfolding starts_apart_def
    proof (intro allI impI, elim conjE)
      fix q r q' r' n s n' s'
      assume a: "map_of (rl_instances k) q = Some r" "map_of (rl_instances k) q' = Some r'" "(n, s) \<in> set (pg_starts r)"
        "(n', s') \<in> set (pg_starts r')" "cs_start s = cs_start s'"
      show "q = q' \<and> n = n'"
        using was [OF a(1,3)] was [OF a(2,4)] old a(5) apartD [OF ap] by metis
    qed
    show "pages_told k"
    proof (rule pages_toldI)
      fix q r d n s store session
      assume q: "map_of (rl_instances k) q = Some r" and d: "pg_socket r = Some d" and s: "(n, s) \<in> set (pg_starts r)"
        and new: "cs_session s = None" and m: "map_of (rl_named k) (cs_start s) = Some (store, session)"
      show "(d, To_Named n store session) \<in> set (rl_sent k)"
      proof (cases "q = page")
        case True
        then have "r = p\<lparr>pg_starts := kept\<rparr>" using q by (simp add: inst)
        then have r: "r = p\<lparr>pg_starts := kept\<rparr>" "pg_socket p = Some d" using d by simp_all
        show ?thesis
        proof (cases "(n, s) = (handle, start)")
          case True
          then have "became_of k1 start = Some (store, session)" using new m by (simp add: became_of_def f)
          then show ?thesis using True r(2) by (auto simp: sent)
        next
          case False
          then have "(n, s) \<in> set (pg_starts p)" using s kept r(1) by auto
          then show ?thesis using toldD [OF td pg(2) r(2) _ new nm [OF m]] by (simp add: sent)
        qed
      next
        case False
        then have "map_of (rl_instances h) q = Some r" using q by (simp add: inst)
        then show ?thesis using toldD [OF td _ d s new nm [OF m]] by (simp add: sent)
      qed
    qed
  qed
  ultimately show ?thesis by (simp add: pages_ok_def k_def fs_def)
qed

section \<open>A start named\<close>

lemma spawner_true:
  assumes "spawner_of s h = Some (p, handle)"
  shows "\<exists>page start. (page, p) \<in> set (rl_instances h) \<and> (handle, start) \<in> set (pg_starts p) \<and> cs_start start = s \<and> cs_session start = None"
proof -
  define all where "all = concat (map (\<lambda>(page, p). map (Pair p) (pg_starts p)) (rl_instances h))"
  obtain made where f: "find (\<lambda>(p, handle, made). cs_start made = s) all = Some (p, handle, made)" and n: "cs_session made = None"
    using assms by (auto simp: spawner_of_def all_def [symmetric] split: option.splits if_splits)
  show ?thesis using find_Some_in [OF f] n by (force simp: all_def)
qed

lemma spawner_found:
  assumes ap: "starts_apart h" and b: "pages_bounded h" and p: "map_of (rl_instances h) page = Some p"
    and s: "(handle, start) \<in> set (pg_starts p)" and n: "cs_session start = None"
  shows "spawner_of (cs_start start) h = Some (p, handle)"
proof -
  define all where "all = concat (map (\<lambda>(page, p). map (Pair p) (pg_starts p)) (rl_instances h))"
  have "(p, handle, start) \<in> set all" using map_of_SomeD [OF p] s by (force simp: all_def)
  then obtain q n' made where f: "find (\<lambda>(p, handle, made). cs_start made = cs_start start) all = Some (q, n', made)"
    by (cases "find (\<lambda>(p, handle, made). cs_start made = cs_start start) all") (auto simp: find_None_iff)
  then obtain page' where m: "(page', q) \<in> set (rl_instances h)" "(n', made) \<in> set (pg_starts q)" "cs_start made = cs_start start"
    using find_Some_in [OF f] by (force simp: all_def)
  have q: "map_of (rl_instances h) page' = Some q" using m(1) pages_boundedD(1) [OF b] by simp
  have "page' = page \<and> n' = handle" by (rule apartD [OF ap q p m(2) s m(3)])
  then have same: "q = p" "n' = handle" using q p by simp_all
  then have "made = start" using m(2) s pages_boundedD(4) [OF b p] by (auto dest: eq_key_imp_eq_value)
  then show ?thesis using f same n by (simp add: spawner_of_def all_def [symmetric])
qed

lemma name_ok:
  assumes ok: "pages_ok es h" and said: "reported_as es start store session"
  shows "pages_ok es (name_start store start session h)"
proof (cases "map_of (rl_named h) start = Some (store, session)")
  case True
  then show ?thesis using ok by (simp add: name_start_def)
next
  case False
  define h1 where "h1 = h\<lparr>rl_named := AList.update start (store, session) (rl_named h)\<rparr>"
  define k where "k = name_start store start session h"
  have k: "k = (case spawner_of start h1 of None \<Rightarrow> h1
      | Some (p, handle) \<Rightarrow> (case pg_socket p of None \<Rightarrow> h1 | Some socket \<Rightarrow> send_named socket handle (store, session) h1))"
    using False by (cases "spawner_of start h1") (auto simp: k_def name_start_def Let_def h1_def split: option.split)
  have f: "rl_instances k = rl_instances h" "rl_instance_of k = rl_instance_of h" "rl_closed k = rl_closed h" "rl_named k = rl_named h1"
    by (auto simp: k h1_def send_named_def split: option.split)
  have h1: "rl_instances h1 = rl_instances h" "rl_sent h1 = rl_sent h" by (simp_all add: h1_def)
  have nm: "map_of (rl_named k) s = (if s = start then Some (store, session) else map_of (rl_named h) s)" for s
    by (simp add: f h1_def update_conv')
  have sent: "fr \<in> set (rl_sent k) \<longleftrightarrow> fr \<in> set (rl_sent h) \<or>
      (\<exists>p handle socket. spawner_of start h1 = Some (p, handle) \<and> pg_socket p = Some socket \<and> fr = (socket, To_Named handle store session))" for fr
  proof (cases "spawner_of start h1")
    case (Some x)
    obtain p handle where x: "x = (p, handle)" by (cases x)
    show ?thesis by (cases "pg_socket p") (auto simp: k Some x send_named_def h1)
  qed (auto simp: k h1)
  have b: "pages_bounded h" and t: "pages_true es h" using ok by (simp_all add: pages_ok_def)
  have "pages_bounded k" using b by (simp add: pages_bounded_def f)
  moreover have "pages_true es k"
  proof (rule pages_trueI)
    show "said_hello es d q" if "map_of (rl_instance_of k) d = Some q" for d q using that pages_trueD(1) [OF t] by (simp add: f)
    show "said_hello es d q" if "map_of (rl_instances k) q = Some r" "pg_socket r = Some d" for q r d
      using that pages_trueD(2) [OF t] by (simp add: f)
    show "made_by es q n s" if "map_of (rl_instances k) q = Some r" "(n, s) \<in> set (pg_starts r)" for q r n s
      using that pages_trueD(3) [OF t] by (simp add: f)
    show "reported_as es s st se" if "map_of (rl_named k) s = Some (st, se)" for s st se
      using that pages_trueD(4) [OF t] said by (auto simp: nm split: if_splits)
    show "\<exists>q s. said_hello es d q \<and> made_by es q n s \<and> cs_session s = None \<and> reported_as es (cs_start s) st se"
      if m: "(d, To_Named n st se) \<in> set (rl_sent k)" for d n st se
    proof (cases "(d, To_Named n st se) \<in> set (rl_sent h)")
      case False
      then obtain p where p: "spawner_of start h1 = Some (p, n)" "pg_socket p = Some d" "st = store" "se = session" using m by (auto simp: sent)
      obtain page made where q: "(page, p) \<in> set (rl_instances h1)" "(n, made) \<in> set (pg_starts p)" "cs_start made = start" "cs_session made = None"
        using spawner_true [OF p(1)] by blast
      have "map_of (rl_instances h) page = Some p" using q(1) pages_boundedD(1) [OF b] by (simp add: h1)
      then show ?thesis using pages_trueD(2,3) [OF t] q p(2,3,4) said by blast
    qed (rule pages_trueD(5) [OF t])
  qed
  moreover have "starts_apart k \<and> pages_told k" if d: "distinct (starts_noted es)"
  proof
    have ap: "starts_apart h" and td: "pages_told h" using ok d by (simp_all add: pages_ok_def)
    show "starts_apart k" using ap unfolding starts_apart_def f .
    show "pages_told k"
    proof (rule pages_toldI)
      fix q r d n s st se
      assume q: "map_of (rl_instances k) q = Some r" and d: "pg_socket r = Some d" and s: "(n, s) \<in> set (pg_starts r)"
        and new: "cs_session s = None" and m: "map_of (rl_named k) (cs_start s) = Some (st, se)"
      have q': "map_of (rl_instances h) q = Some r" using q by (simp add: f)
      show "(d, To_Named n st se) \<in> set (rl_sent k)"
      proof (cases "cs_start s = start")
        case True
        have "spawner_of (cs_start s) h1 = Some (r, n)"
          by (rule spawner_found [of _ q _ _ s]) (use ap b q' s new in \<open>simp_all add: starts_apart_def pages_bounded_def h1_def\<close>)
        then show ?thesis using True d m by (auto simp: sent nm)
      next
        case False
        then show ?thesis using toldD [OF td q' d s new] m by (simp add: sent nm)
      qed
    qed
  qed
  ultimately show ?thesis by (simp add: pages_ok_def k_def)
qed

lemma view_pages_ok: "page_view k = page_view h \<Longrightarrow> pages_ok es h \<Longrightarrow> pages_ok es k"
  using view_ok [of k h] by (simp add: pages_ok_def)

lemma relay_reports_ok:
  assumes "pages_ok es h" and "\<forall>s session. (s, Some session) \<in> set reported \<longrightarrow> reported_as es s store session"
  shows "pages_ok es (note_reported_starts registration store reported h)"
  using assms unfolding note_reported_starts_def
proof (induction reported arbitrary: h)
  case (Cons tag reported)
  have "pages_ok es (case snd tag of None \<Rightarrow> h | Some s \<Rightarrow> rebind_start registration store (fst tag) s (name_start store (fst tag) s h))"
  proof (cases "snd tag")
    case (Some s)
    then have "reported_as es (fst tag) store s" using Cons.prems(2) by (metis list.set_intros(1) prod.collapse)
    then show ?thesis using Some view_pages_ok [OF view_rebind name_ok [OF Cons.prems(1)]] by simp
  qed (simp add: Cons.prems(1))
  then show ?case using Cons.IH Cons.prems(2) by (simp add: case_prod_beta)
qed simp

section \<open>A page closed\<close>

lemma relay_close_ok:
  assumes ok: "pages_ok es h" and p: "map_of (rl_instances h) page = Some p" and c: "pg_socket p = Some c"
  shows "pages_ok es (evict_pages ((set_page page (p\<lparr>pg_socket := None\<rparr>) h)\<lparr>rl_closed := set_add page (rl_closed h)\<rparr>))"
proof -
  define h1 where "h1 = (set_page page (p\<lparr>pg_socket := None\<rparr>) h)\<lparr>rl_closed := set_add page (rl_closed h)\<rparr>"
  define shut where "shut = rl_closed h @ [page]"
  define over where "over = length shut - max_closed_instances"
  define k where "k = evict_pages h1"
  have b: "pages_bounded h" and t: "pages_true es h" using ok by (simp_all add: pages_ok_def)
  have "page \<notin> set (rl_closed h)" using pages_boundedD(6) [OF b, of page] p c by simp
  then have shut: "rl_closed h1 = shut" "distinct shut" using pages_boundedD(2) [OF b] by (simp_all add: h1_def shut_def set_add_def)
  have inst1: "map_of (rl_instances h1) q = (if q = page then Some (p\<lparr>pg_socket := None\<rparr>) else map_of (rl_instances h) q)" for q
    by (simp add: h1_def set_page_def update_conv')
  have f: "rl_closed k = drop over shut" "rl_instance_of k = rl_instance_of h" "rl_sent k = rl_sent h"
      "rl_instances k = filter (\<lambda>(q, r). q \<notin> set (take over shut)) (rl_instances h1)"
    by (simp_all add: k_def evict_pages_def Let_def over_def shut(1)) (simp_all add: h1_def set_page_def)
  have nm: "map_of (rl_named h) s = Some x" if "map_of (rl_named k) s = Some x" for s x
    using that by (simp add: k_def evict_pages_def Let_def named_drop h1_def set_page_def split: if_splits)
  have inst: "map_of (rl_instances k) q = (if q \<in> set (take over shut) then None else map_of (rl_instances h1) q)" for q
    using map_of_filter_keys [of "\<lambda>q. q \<notin> set (take over shut)" "rl_instances h1" q] by (simp add: f(4))
  have was: "\<exists>r'. map_of (rl_instances h) q = Some r' \<and> pg_starts r = pg_starts r' \<and> (pg_socket r = Some d \<longrightarrow> r' = r)"
    if "map_of (rl_instances k) q = Some r" for q r d
    using that p by (auto simp: inst inst1 split: if_splits)
  have "pages_bounded k"
    unfolding pages_bounded_def
  proof (intro conjI allI impI)
    have "distinct (map fst (rl_instances h1))" using pages_boundedD(1) [OF b] by (simp add: h1_def set_page_def distinct_update)
    then show "distinct (map fst (rl_instances k))" unfolding f(4) by (rule distinct_map_filter)
    show "distinct (rl_closed k)" using shut(2) by (simp add: f)
    show "length (rl_closed k) \<le> max_closed_instances" by (simp add: f over_def)
    show "distinct (map fst (pg_starts r))" "length (pg_starts r) \<le> max_starts_per_instance" if "map_of (rl_instances k) q = Some r" for q r
      using was [OF that, of c] pages_boundedD(4,5) [OF b, of q] by auto
    have all: "q \<in> set shut \<longleftrightarrow> (\<exists>r. map_of (rl_instances h1) q = Some r \<and> pg_socket r = None)" for q
      using pages_boundedD(6) [OF b, of q] by (auto simp: shut_def inst1)
    have "q \<in> set (drop over shut) \<longleftrightarrow> q \<in> set shut \<and> q \<notin> set (take over shut)" for q
      using set_take_disj_set_drop_if_distinct [OF shut(2), of over over] set_append [of "take over shut" "drop over shut"]
      by (auto dest: in_set_dropD)
    then show "q \<in> set (rl_closed k) \<longleftrightarrow> (\<exists>r. map_of (rl_instances k) q = Some r \<and> pg_socket r = None)" for q
      using all by (simp add: f(1) inst)
  qed
  moreover have "pages_true es k"
  proof (rule pages_trueI)
    show "said_hello es d q" if "map_of (rl_instance_of k) d = Some q" for d q using that pages_trueD(1) [OF t] by (simp add: f)
    show "said_hello es d q" if "map_of (rl_instances k) q = Some r" "pg_socket r = Some d" for q r d
      using was [OF that(1), of d] that(2) pages_trueD(2) [OF t] by blast
    show "made_by es q n s" if "map_of (rl_instances k) q = Some r" "(n, s) \<in> set (pg_starts r)" for q r n s
      using was [OF that(1), of c] that(2) pages_trueD(3) [OF t, of q] by auto
    show "reported_as es s st se" if "map_of (rl_named k) s = Some (st, se)" for s st se by (rule pages_trueD(4) [OF t nm [OF that]])
    show "\<exists>q s. said_hello es d q \<and> made_by es q n s \<and> cs_session s = None \<and> reported_as es (cs_start s) st se"
      if "(d, To_Named n st se) \<in> set (rl_sent k)" for d n st se
      using that pages_trueD(5) [OF t] by (simp add: f)
  qed
  moreover have "starts_apart k \<and> pages_told k" if d: "distinct (starts_noted es)"
  proof
    have ap: "starts_apart h" and td: "pages_told h" using ok d by (simp_all add: pages_ok_def)
    show "starts_apart k" using was [of _ _ c] by (intro apart_sub [OF ap]) fastforce
    show "pages_told k"
    proof (rule pages_toldI)
      fix q r d n s st se
      assume q: "map_of (rl_instances k) q = Some r" and d: "pg_socket r = Some d" and s: "(n, s) \<in> set (pg_starts r)"
        and new: "cs_session s = None" and m: "map_of (rl_named k) (cs_start s) = Some (st, se)"
      have "map_of (rl_instances h) q = Some r" using was [OF q, of d] d by blast
      then show "(d, To_Named n st se) \<in> set (rl_sent k)" using toldD [OF td _ d s new nm [OF m]] by (simp add: f)
    qed
  qed
  ultimately show ?thesis by (simp add: pages_ok_def k_def h1_def)
qed

lemma forget_pages_ok:
  assumes "pages_ok es h"
  shows "pages_ok es (forget_client c h)"
proof -
  define k where "k = give_all_back c h"
  have ok: "pages_ok es k" unfolding k_def by (rule view_pages_ok [OF view_give_back assms])
  have "forget_client c h = (case map_of (rl_instance_of k) c of None \<Rightarrow> k
     | Some page \<Rightarrow> (case map_of (rl_instances k) page of None \<Rightarrow> k
         | Some p \<Rightarrow> if pg_socket p \<noteq> Some c then k
             else evict_pages ((set_page page (p\<lparr>pg_socket := None\<rparr>) k)\<lparr>rl_closed := set_add page (rl_closed k)\<rparr>)))"
    unfolding forget_client_def Let_def k_def give_all_back_def by (rule refl)
  then show ?thesis using ok relay_close_ok [OF ok] by (simp split: option.split)
qed

section \<open>Every event\<close>

lemma pages_step:
  assumes ok: "pages_ok es h"
  shows "pages_ok (es @ [e]) (relay_step h e)"
proof (cases e)
  case (Says_Hello c page)
  then show ?thesis using hello_ok [OF ok] by (simp add: relay_step_def)
next
  case (Notes_Start c handle start)
  then show ?thesis using relay_note_start_ok [OF ok] by (simp add: relay_step_def)
next
  case (Reports_Starts registration store reported)
  have "pages_ok (es @ [e]) h" by (rule noted_nothing [OF ok])
  moreover have "\<forall>s session. (s, Some session) \<in> set reported \<longrightarrow> reported_as (es @ [e]) s store session"
    by (auto simp: reported_as_def Reports_Starts)
  ultimately show ?thesis using Reports_Starts relay_reports_ok by (simp add: relay_step_def)
next
  case (Forgets c)
  have "pages_ok (es @ [e]) h" by (rule noted_nothing [OF ok])
  then show ?thesis using Forgets forget_pages_ok by (simp add: relay_step_def)
qed (use view_pages_ok [OF _ noted_nothing [OF ok]] in
      \<open>simp_all add: relay_step_def view_subscribe view_unsubscribe view_put view_deliver view_connection view_answer\<close>)

lemma pages_run: "pages_ok es (run relay_step create_relay es)"
proof (induction es rule: rev_induct)
  case Nil
  show ?case
    by (simp add: pages_ok_def pages_bounded_def pages_true_def starts_apart_def pages_told_def create_relay_def)
next
  case (snoc e es)
  then show ?case using pages_step by (simp add: run_def)
qed

end
