(* ===== verification/Relay_Named.thy ===== *)
theory Relay_Named
  imports Relay_Names
begin

text \<open>
  No naming is lost: a start that was reported is known as long as a page holds it, and before any page
  does, however the reports and the replies of the starts were ordered.
\<close>

section \<open>Reported starts are known\<close>

definition held_by_page :: "relay \<Rightarrow> jstr \<Rightarrow> bool" where
  "held_by_page h s \<longleftrightarrow> (\<exists>page p handle start. map_of (rl_instances h) page = Some p \<and> (handle, start) \<in> set (pg_starts p) \<and> cs_start start = s)"

text \<open>\<open>S\<close> is the set of the starts reported so far, \<open>N\<close> of those noted.\<close>

definition starts_known :: "jstr set \<Rightarrow> jstr set \<Rightarrow> relay \<Rightarrow> bool" where
  "starts_known S N h \<longleftrightarrow> (\<forall>s \<in> S. s \<notin> N \<or> held_by_page h s \<longrightarrow> map_of (rl_named h) s \<noteq> None)"

definition reported_starts :: "relay_event list \<Rightarrow> jstr set" where
  "reported_starts es = {s. \<exists>store session. reported_as es s store session}"

lemma known_view: "page_view k = page_view h \<Longrightarrow> starts_known S N k = starts_known S N h"
  by (simp add: starts_known_def held_by_page_def page_view_def)

lemma known_keep:
  assumes "starts_known S N h"
    and "\<And>s. s \<in> S \<Longrightarrow> s \<notin> N' \<or> held_by_page k s \<Longrightarrow> (s \<notin> N \<or> held_by_page h s) \<and> map_of (rl_named k) s = map_of (rl_named h) s"
  shows "starts_known S N' k"
  using assms unfolding starts_known_def by metis

lemma known_hello:
  assumes "starts_known S N h"
  shows "starts_known S N (says_hello c page h)"
proof (rule known_keep [OF assms])
  fix s
  define p0 where "p0 = (case map_of (rl_instances h) page of None \<Rightarrow> \<lparr>pg_socket = Some c, pg_starts = []\<rparr> | Some p \<Rightarrow> p\<lparr>pg_socket := Some c\<rparr>)"
  define h1 where "h1 = set_page page p0 (h\<lparr>rl_instance_of := AList.update c page (rl_instance_of h), rl_closed := removeAll page (rl_closed h)\<rparr>)"
  have "says_hello c page h = foldl (\<lambda>h (handle, start). case became_of h start of None \<Rightarrow> h | Some became \<Rightarrow> send_named c handle became h) h1 (pg_starts p0)"
    by (simp add: says_hello_def Let_def h1_def p0_def)
  then have f: "rl_instances (says_hello c page h) = AList.update page p0 (rl_instances h)" "rl_named (says_hello c page h) = rl_named h"
    using hello_sends [of c h1 "pg_starts p0"] by (simp_all add: h1_def set_page_def)
  have "held_by_page h s" if held: "held_by_page (says_hello c page h) s"
  proof -
    obtain q p handle start where q: "map_of (rl_instances (says_hello c page h)) q = Some p" "(handle, start) \<in> set (pg_starts p)" "cs_start start = s"
      using held by (auto simp: held_by_page_def)
    show ?thesis
    proof (cases "q = page")
      case True
      then have "p = p0" using q(1) by (simp add: f update_conv')
      then have "\<exists>p'. map_of (rl_instances h) page = Some p' \<and> (handle, start) \<in> set (pg_starts p')"
        using q(2) by (cases "map_of (rl_instances h) page") (simp_all add: p0_def)
      then show ?thesis using q(3) by (auto simp: held_by_page_def)
    next
      case False
      then show ?thesis using q by (auto simp: held_by_page_def f update_conv')
    qed
  qed
  then show "(s \<notin> N \<or> held_by_page h s) \<and> map_of (rl_named (says_hello c page h)) s = map_of (rl_named h) s"
    if "s \<notin> N \<or> held_by_page (says_hello c page h) s"
    using that f(2) by auto
qed

lemma known_name:
  assumes "starts_known S N h"
  shows "starts_known (insert start S) N (name_start store start session h)"
proof -
  define k where "k = name_start store start session h"
  have i: "rl_instances k = rl_instances h" by (auto simp: k_def name_start_def Let_def send_named_def split: option.split)
  have "map_of (rl_named k) s = (if s = start then Some (store, session) else map_of (rl_named h) s)" for s
    by (auto simp: k_def name_start_def Let_def send_named_def update_conv' split: option.split)
  then have "starts_known (insert start S) N k"
    using assms by (auto simp: starts_known_def held_by_page_def i)
  then show ?thesis by (simp add: k_def)
qed

lemma known_reports:
  assumes "starts_known S N h"
  shows "starts_known (S \<union> {s. \<exists>session. (s, Some session) \<in> set reported}) N (note_reported_starts registration store reported h)"
  using assms unfolding note_reported_starts_def
proof (induction reported arbitrary: h S)
  case (Cons tag reported)
  define k where "k = (case snd tag of None \<Rightarrow> h | Some s \<Rightarrow> rebind_start registration store (fst tag) s (name_start store (fst tag) s h))"
  define S' where "S' = (case snd tag of None \<Rightarrow> S | Some s \<Rightarrow> insert (fst tag) S)"
  have "starts_known S' N k"
    using Cons.prems known_name [OF Cons.prems] known_view [OF view_rebind] by (simp add: k_def S'_def split: option.split)
  moreover have "S' \<union> {s. \<exists>session. (s, Some session) \<in> set reported} = S \<union> {s. \<exists>session. (s, Some session) \<in> set (tag # reported)}"
    by (cases tag; cases "snd tag") (auto simp: S'_def)
  ultimately show ?case using Cons.IH [of S' k] by (simp add: k_def case_prod_beta)
qed simp

lemma known_close:
  assumes ok: "pages_ok es h" and d: "distinct (starts_noted es)" and kn: "starts_known S (set (starts_noted es)) h"
    and p: "map_of (rl_instances h) page = Some p"
  shows "starts_known S (set (starts_noted es)) (evict_pages ((set_page page (p\<lparr>pg_socket := None\<rparr>) h)\<lparr>rl_closed := closed\<rparr>))"
proof (rule known_keep [OF kn])
  fix s
  define h1 where "h1 = (set_page page (p\<lparr>pg_socket := None\<rparr>) h)\<lparr>rl_closed := closed\<rparr>"
  define gone where "gone = take (length closed - max_closed_instances) closed"
  have inst1: "map_of (rl_instances h1) q = (if q = page then Some (p\<lparr>pg_socket := None\<rparr>) else map_of (rl_instances h) q)" for q
    by (simp add: h1_def set_page_def update_conv')
  have starts1: "\<exists>r'. map_of (rl_instances h) q = Some r' \<and> pg_starts r = pg_starts r'" if "map_of (rl_instances h1) q = Some r" for q r
    using that p by (auto simp: inst1 split: if_splits)
  have i: "map_of (rl_instances (evict_pages h1)) q = (if q \<in> set gone then None else map_of (rl_instances h1) q)" for q
    using map_of_filter_keys [of "\<lambda>q. q \<notin> set gone" "rl_instances h1" q] by (simp add: evict_pages_def Let_def gone_def h1_def)
  define dropped where "dropped = concat (map (\<lambda>q. case map_of (rl_instances h1) q of None \<Rightarrow> [] | Some r \<Rightarrow> map snd (pg_starts r)) gone)"
  have n: "map_of (rl_named (evict_pages h1)) s = (if s \<in> cs_start ` set dropped then None else map_of (rl_named h) s)"
    by (simp add: evict_pages_def Let_def named_drop dropped_def gone_def) (simp add: h1_def set_page_def)
  have t: "pages_true es h" and ap: "starts_apart h" using ok d by (simp_all add: pages_ok_def)
  have was: "\<exists>q r n start. q \<in> set gone \<and> map_of (rl_instances h) q = Some r \<and> (n, start) \<in> set (pg_starts r) \<and> cs_start start = s"
    if drop: "s \<in> cs_start ` set dropped"
  proof -
    obtain q start where q: "q \<in> set gone" "cs_start start = s"
        "start \<in> set (case map_of (rl_instances h1) q of None \<Rightarrow> [] | Some r \<Rightarrow> map snd (pg_starts r))"
      using drop by (auto simp: dropped_def)
    then obtain r where r: "map_of (rl_instances h1) q = Some r" "start \<in> snd ` set (pg_starts r)"
      by (cases "map_of (rl_instances h1) q") simp_all
    then obtain n where "(n, start) \<in> set (pg_starts r)" by auto
    then show ?thesis using starts1 [OF r(1)] q(1,2) by metis
  qed
  assume a: "s \<notin> set (starts_noted es) \<or> held_by_page (evict_pages ((set_page page (p\<lparr>pg_socket := None\<rparr>) h)\<lparr>rl_closed := closed\<rparr>)) s"
  then have a': "s \<notin> set (starts_noted es) \<or> (\<exists>q r n start. q \<notin> set gone \<and> map_of (rl_instances h) q = Some r \<and> (n, start) \<in> set (pg_starts r) \<and> cs_start start = s)"
    using starts1 unfolding h1_def [symmetric] held_by_page_def i by (metis option.distinct(1))
  have "s \<notin> cs_start ` set dropped"
  proof
    assume "s \<in> cs_start ` set dropped"
    then obtain q r n start where q: "q \<in> set gone" "map_of (rl_instances h) q = Some r" "(n, start) \<in> set (pg_starts r)" "cs_start start = s"
      using was by blast
    have "s \<in> set (starts_noted es)" using noted_start [OF pages_trueD(3) [OF t q(2,3)]] q(4) by simp
    then show False using a' apartD [OF ap q(2) _ q(3)] q(1,4) by metis
  qed
  then show "(s \<notin> set (starts_noted es) \<or> held_by_page h s) \<and>
      map_of (rl_named (evict_pages ((set_page page (p\<lparr>pg_socket := None\<rparr>) h)\<lparr>rl_closed := closed\<rparr>))) s = map_of (rl_named h) s"
    using a' n by (auto simp: h1_def [symmetric] held_by_page_def)
qed

lemma known_note:
  assumes ok: "pages_ok es h" and d: "distinct (starts_noted (es @ [Notes_Start c handle start]))"
    and kn: "starts_known S (set (starts_noted es)) h"
  shows "starts_known S (set (starts_noted (es @ [Notes_Start c handle start]))) (note_client_start c handle start h)"
proof (rule known_keep [OF kn])
  fix s
  assume a: "s \<notin> set (starts_noted (es @ [Notes_Start c handle start])) \<or> held_by_page (note_client_start c handle start h) s"
  have noted: "set (starts_noted (es @ [Notes_Start c handle start])) = insert (cs_start start) (set (starts_noted es))"
    by (auto simp: starts_noted_def)
  have fresh: "cs_start start \<notin> set (starts_noted es)" using d by (simp add: starts_noted_def)
  have t: "pages_true es h" and b: "pages_bounded h" and ap: "starts_apart h" using ok d by (simp_all add: pages_ok_def)
  have old: "cs_start made \<in> set (starts_noted es)" if "map_of (rl_instances h) q = Some r" "(n, made) \<in> set (pg_starts r)" for q r n made
    by (rule noted_start [OF pages_trueD(3) [OF t that]])
  show "(s \<notin> set (starts_noted es) \<or> held_by_page h s) \<and> map_of (rl_named (note_client_start c handle start h)) s = map_of (rl_named h) s"
  proof (cases "page_of c h")
    case None
    then have "note_client_start c handle start h = h" by (auto simp: note_client_start_def page_of_def split: option.splits)
    then show ?thesis using a noted by auto
  next
    case (Some p)
    then obtain page where pg: "map_of (rl_instance_of h) c = Some page" "map_of (rl_instances h) page = Some p"
      by (auto simp: page_of_def split: option.splits)
    define starts where "starts = AList.update handle start (pg_starts p)"
    define over where "over = length starts - max_starts_per_instance"
    define k where "k = note_client_start c handle start h"
    define k1 where "k1 = drop_named (map snd (take over starts)) (set_page page (p\<lparr>pg_starts := drop over starts\<rparr>) h)"
    have "k = (case became_of k1 start of None \<Rightarrow> k1
        | Some became \<Rightarrow> (case pg_socket p of None \<Rightarrow> k1 | Some socket \<Rightarrow> send_named socket handle became k1))"
      by (simp add: k_def note_client_start_def pg Let_def starts_def over_def k1_def cong: option.case_cong)
    then have f: "rl_instances k = rl_instances k1" "rl_named k = rl_named k1" by (simp_all add: send_named_def split: option.split)
    have inst: "map_of (rl_instances k) q = (if q = page then Some (p\<lparr>pg_starts := drop over starts\<rparr>) else map_of (rl_instances h) q)" for q
      by (simp add: f k1_def set_page_def update_conv')
    have n: "map_of (rl_named k) s = (if s \<in> cs_start ` snd ` set (take over starts) then None else map_of (rl_named h) s)"
      by (simp add: f k1_def named_drop set_page_def)
    have sub: "set starts \<subseteq> insert (handle, start) (set (pg_starts p))" unfolding starts_def by (rule update_subset)
    have keys: "distinct (map fst starts)" using pages_boundedD(4) [OF b pg(2)] by (simp add: starts_def distinct_update)
    have apart: "n = n'" if "(n, made) \<in> set starts" "(n', made') \<in> set starts" "cs_start made = cs_start made'" for n made n' made'
    proof -
      have "(n, made) = (handle, start) \<or> (n, made) \<in> set (pg_starts p)" "(n', made') = (handle, start) \<or> (n', made') \<in> set (pg_starts p)"
        using that(1,2) sub by auto
      then show ?thesis
        using that(3) fresh old [OF pg(2), of n made] old [OF pg(2), of n' made'] apartD [OF ap pg(2) pg(2), of n made n' made'] by auto
    qed
    have held: "(\<exists>n made. (n, made) \<in> set (drop over starts) \<and> cs_start made = s)
        \<or> (\<exists>q r n made. q \<noteq> page \<and> map_of (rl_instances h) q = Some r \<and> (n, made) \<in> set (pg_starts r) \<and> cs_start made = s)"
      if hp: "held_by_page k s"
    proof -
      obtain q r n made where q: "map_of (rl_instances k) q = Some r" "(n, made) \<in> set (pg_starts r)" "cs_start made = s"
        using hp by (auto simp: held_by_page_def)
      show ?thesis
      proof (cases "q = page")
        case True
        then have "(n, made) \<in> set (drop over starts)" using q(1,2) by (auto simp: inst)
        then show ?thesis using q(3) by blast
      next
        case False
        then have "map_of (rl_instances h) q = Some r" using q(1) by (simp add: inst)
        then show ?thesis using False q(2,3) by blast
      qed
    qed
    have "s \<notin> cs_start ` snd ` set (take over starts)"
    proof
      assume "s \<in> cs_start ` snd ` set (take over starts)"
      then obtain n' made' where out: "(n', made') \<in> set (take over starts)" "cs_start made' = s" by auto
      have in_starts: "(n', made') \<in> set starts" by (rule in_set_takeD [OF out(1)])
      have "s \<in> set (starts_noted (es @ [Notes_Start c handle start]))"
        using in_starts sub old [OF pg(2)] out(2) noted by auto
      then have "held_by_page k s" using a by (simp add: k_def)
      then consider n made where "(n, made) \<in> set (drop over starts)" "cs_start made = s"
        | q r n made where "q \<noteq> page" "map_of (rl_instances h) q = Some r" "(n, made) \<in> set (pg_starts r)" "cs_start made = s"
        using held by blast
      then show False
      proof cases
        case 1
        then have "n = n'" using apart [OF in_set_dropD [OF 1(1)] in_starts] out(2) by simp
        moreover have "fst ` set (take over starts) \<inter> fst ` set (drop over starts) = {}"
          using set_take_disj_set_drop_if_distinct [OF keys, of over over] by (simp add: take_map drop_map)
        moreover have "n \<in> fst ` set (drop over starts)" "n' \<in> fst ` set (take over starts)" using 1(1) out(1) by force+
        ultimately show False by blast
      next
        case 2
        have "(n', made') = (handle, start) \<or> (n', made') \<in> set (pg_starts p)" using in_starts sub by auto
        then show False using 2 out(2) old [OF 2(2,3)] fresh apartD [OF ap 2(2) pg(2) 2(3), of n' made'] by auto
      qed
    qed
    moreover have "s \<notin> set (starts_noted es) \<or> held_by_page h s"
    proof (cases "held_by_page k s")
      case True
      from held [OF this] show ?thesis
      proof (elim disjE exE conjE)
        fix n made assume m: "(n, made) \<in> set (drop over starts)" "cs_start made = s"
        then have "(n, made) = (handle, start) \<or> (n, made) \<in> set (pg_starts p)" using sub in_set_dropD [OF m(1)] by auto
        then show ?thesis using m(2) fresh pg(2) by (auto simp: held_by_page_def)
      qed (auto simp: held_by_page_def)
    next
      case False
      then show ?thesis using a noted by (simp add: k_def)
    qed
    ultimately show ?thesis using n by (simp add: k_def)
  qed
qed

section \<open>Every event\<close>

lemma reported_other:
  assumes "\<And>registration store reported. e \<noteq> Reports_Starts registration store reported"
  shows "reported_starts (es @ [e]) = reported_starts es"
proof -
  have "Reports_Starts registration store reported \<in> set (es @ [e]) \<longleftrightarrow> Reports_Starts registration store reported \<in> set es"
    for registration store reported using assms [of registration store reported] by auto
  then show ?thesis by (simp add: reported_starts_def reported_as_def)
qed

lemma noted_other:
  assumes "\<And>c handle start. e \<noteq> Notes_Start c handle start"
  shows "starts_noted (es @ [e]) = starts_noted es"
  using assms by (simp add: starts_noted_def split: relay_event.split)

lemma known_step:
  assumes ok: "pages_ok es h" and d: "distinct (starts_noted (es @ [e]))" and kn: "starts_known (reported_starts es) (set (starts_noted es)) h"
  shows "starts_known (reported_starts (es @ [e])) (set (starts_noted (es @ [e]))) (relay_step h e)"
proof -
  have quiet: "starts_known (reported_starts es) (set (starts_noted es)) k" if "page_view k = page_view h" for k
    using kn known_view [OF that] by simp
  show ?thesis
  proof (cases e)
    case (Says_Hello c page)
    then show ?thesis using known_hello [OF kn] by (simp add: relay_step_def reported_other noted_other del: starts_noted_append)
  next
    case (Notes_Start c handle start)
    then show ?thesis using known_note [OF ok _ kn] d by (simp add: relay_step_def reported_other del: starts_noted_append)
  next
    case (Reports_Starts registration store reported)
    have "reported_starts (es @ [e]) = reported_starts es \<union> {s. \<exists>session. (s, Some session) \<in> set reported}"
      by (auto simp: reported_starts_def reported_as_def Reports_Starts; blast)
    then show ?thesis using known_reports [OF kn] Reports_Starts by (simp add: relay_step_def noted_other del: starts_noted_append)
  next
    case (Forgets c)
    define k where "k = give_all_back c h"
    have okk: "pages_ok es k" unfolding k_def by (rule view_pages_ok [OF view_give_back ok])
    have knk: "starts_known (reported_starts es) (set (starts_noted es)) k" unfolding k_def by (rule quiet [OF view_give_back])
    have de: "distinct (starts_noted es)" using d by simp
    have "forget_client c h = (case map_of (rl_instance_of k) c of None \<Rightarrow> k
       | Some page \<Rightarrow> (case map_of (rl_instances k) page of None \<Rightarrow> k
           | Some p \<Rightarrow> if pg_socket p \<noteq> Some c then k
               else evict_pages ((set_page page (p\<lparr>pg_socket := None\<rparr>) k)\<lparr>rl_closed := set_add page (rl_closed k)\<rparr>)))"
      unfolding forget_client_def Let_def k_def give_all_back_def by (rule refl)
    then have "starts_known (reported_starts es) (set (starts_noted es)) (forget_client c h)"
      using knk known_close [OF okk de knk] by (simp split: option.split)
    then show ?thesis using Forgets by (simp add: relay_step_def reported_other noted_other del: starts_noted_append)
  qed (use quiet view_subscribe view_unsubscribe view_put view_deliver view_connection view_answer in
      \<open>simp_all add: relay_step_def reported_other noted_other del: starts_noted_append\<close>)
qed

lemma known_run: "distinct (starts_noted es) \<Longrightarrow> starts_known (reported_starts es) (set (starts_noted es)) (run relay_step create_relay es)"
proof (induction es rule: rev_induct)
  case Nil
  show ?case by (simp add: starts_known_def reported_starts_def reported_as_def)
next
  case (snoc e es)
  then have "starts_known (reported_starts es) (set (starts_noted es)) (run relay_step create_relay es)" by simp
  then show ?case using known_step [OF pages_run snoc.prems] by (simp add: run_def del: starts_noted_append)
qed

section \<open>Spawns and their names\<close>

text \<open>
  Claim C13: Every spawn is named to the page that made it, and to no other.  A page with a socket has been
  sent, on that socket, a session for every spawn it holds that any report has named, whichever came first
  of the report, the start's reply and the page's hello.  Nothing else is ever named: each
  \<open>session-named\<close> went to a socket that said hello as the page that noted the start, for a start that was a
  spawn, with a session a report gave it.  A page keeps at most 64 starts, and at most 64 pages without a
  socket are kept.
\<close>

theorem spawns_are_named:
  fixes es :: "relay_event list"
  defines "h \<equiv> run relay_step create_relay es"
  assumes minted: "distinct (starts_noted es)"
  shows "(\<forall>page p c handle start. map_of (rl_instances h) page = Some p \<and> pg_socket p = Some c \<and> (handle, start) \<in> set (pg_starts p)
            \<and> cs_session start = None \<and> cs_start start \<in> reported_starts es \<longrightarrow>
            (\<exists>store session. reported_as es (cs_start start) store session \<and> (c, To_Named handle store session) \<in> set (rl_sent h)))
       \<and> (\<forall>c handle store session. (c, To_Named handle store session) \<in> set (rl_sent h) \<longrightarrow>
            (\<exists>page start. said_hello es c page \<and> made_by es page handle start \<and> cs_session start = None
               \<and> reported_as es (cs_start start) store session))
       \<and> (\<forall>page p. map_of (rl_instances h) page = Some p \<longrightarrow> length (pg_starts p) \<le> 64)
       \<and> card {page. \<exists>p. map_of (rl_instances h) page = Some p \<and> pg_socket p = None} \<le> 64"
proof -
  have ok: "pages_bounded h" "pages_true es h" "pages_told h" using pages_run [of es] minted by (simp_all add: h_def pages_ok_def)
  have known: "starts_known (reported_starts es) (set (starts_noted es)) h" unfolding h_def by (rule known_run [OF minted])
  have told: "\<exists>store session. reported_as es (cs_start start) store session \<and> (c, To_Named handle store session) \<in> set (rl_sent h)"
    if a: "map_of (rl_instances h) page = Some p" "pg_socket p = Some c" "(handle, start) \<in> set (pg_starts p)" "cs_session start = None"
      "cs_start start \<in> reported_starts es" for page p c handle start
  proof -
    have "held_by_page h (cs_start start)" using a(1,3) unfolding held_by_page_def by blast
    then have "map_of (rl_named h) (cs_start start) \<noteq> None" using known a(5) unfolding starts_known_def by blast
    then obtain store session where "map_of (rl_named h) (cs_start start) = Some (store, session)" by auto
    then show ?thesis using pages_trueD(4) [OF ok(2)] toldD [OF ok(3) a(1-4)] by blast
  qed
  have "{page. \<exists>p. map_of (rl_instances h) page = Some p \<and> pg_socket p = None} = set (rl_closed h)"
    using pages_boundedD(6) [OF ok(1)] by blast
  then have "card {page. \<exists>p. map_of (rl_instances h) page = Some p \<and> pg_socket p = None} \<le> 64"
    using pages_boundedD(2,3) [OF ok(1)] by (simp add: distinct_card max_closed_instances_def)
  moreover have "length (pg_starts p) \<le> 64" if "map_of (rl_instances h) page = Some p" for page p
    using pages_boundedD(5) [OF ok(1) that] by (simp add: max_starts_per_instance_def)
  ultimately show ?thesis using told pages_trueD(5) [OF ok(2)] by blast
qed

text \<open>A spawn whose report comes before its reply, on a page that redials.\<close>

definition a_spawn :: client_start where
  "a_spawn = \<lparr>cs_registration = js ''m'', cs_start = js ''t'', cs_store = js ''st'', cs_session = None\<rparr>"

definition redialled :: "relay_event list" where
  "redialled =
     [Says_Hello 1 (js ''p''), Reports_Starts (js ''m'') (js ''st'') [(js ''t'', Some (js ''s''))], Notes_Start 1 5 a_spawn,
      Forgets 1, Says_Hello 2 (js ''p'')]"

lemma spawns_are_named_witness:
  "let h = run relay_step create_relay redialled
   in rl_sent h = [(1, To_Named 5 (js ''st'') (js ''s'')), (2, To_Named 5 (js ''st'') (js ''s''))]
      \<and> (\<exists>store session. reported_as redialled (js ''t'') store session \<and> (2, To_Named 5 store session) \<in> set (rl_sent h))"
proof -
  let ?h = "run relay_step create_relay redialled"
  have m: "distinct (starts_noted redialled)" by code_simp
  have one: "map_of (rl_instances ?h) (js ''p'') = Some \<lparr>pg_socket = Some 2, pg_starts = [(5, a_spawn)]\<rparr>"
    "rl_sent ?h = [(1, To_Named 5 (js ''st'') (js ''s'')), (2, To_Named 5 (js ''st'') (js ''s''))]"
    by code_simp+
  have "js ''t'' \<in> reported_starts redialled" by (auto simp: reported_starts_def reported_as_def redialled_def)
  then have "\<exists>store session. reported_as redialled (js ''t'') store session \<and> (2, To_Named 5 store session) \<in> set (rl_sent ?h)"
    using conjunct1 [OF spawns_are_named [OF m], rule_format, of "js ''p''" "\<lparr>pg_socket = Some 2, pg_starts = [(5, a_spawn)]\<rparr>" 2 5 a_spawn] one(1)
    by (simp add: a_spawn_def)
  then show ?thesis using one(2) unfolding Let_def by blast
qed

section \<open>A naming that comes back\<close>

text \<open>
  A start evicted from its page takes its naming with it, and the report its machine's next connection
  opens with files it again, whoever holds the start; nothing prunes a naming no page's start is left for.
\<close>

lemma naming_comes_back:
  "map_of (rl_named (note_reported_starts registration store [(s, Some session)] h)) s = Some (store, session)"
proof -
  have "rl_named (rebind_start registration store s session k) = rl_named k" for k
    by (auto simp: rebind_start_def Let_def split: option.split)
  then show ?thesis
    by (auto simp: note_reported_starts_def name_start_def Let_def send_named_def split: option.split)
qed

end
